theory Spec2Isabelle
  imports Complex_Main
begin

section \<open>Doubles\<close>

text \<open>
  Costs and ranks are C++ \<open>double\<close>s: a NaN, the two infinities, or a real value, \<open>Fin x\<close>
  being the double that holds \<open>x\<close>. Every comparison with NaN is false, as in IEEE
  arithmetic, except \<open>!=\<close>, which is true.
\<close>

datatype double = NaN | Fin real | PInf | NInf

fun dgt :: "double \<Rightarrow> double \<Rightarrow> bool" where
  "dgt NaN _ = False"
| "dgt _ NaN = False"
| "dgt (Fin a) (Fin b) = (a > b)"
| "dgt PInf PInf = False"
| "dgt PInf _ = True"
| "dgt _ PInf = False"
| "dgt NInf _ = False"
| "dgt _ NInf = True"

fun dge :: "double \<Rightarrow> double \<Rightarrow> bool" where
  "dge NaN _ = False"
| "dge _ NaN = False"
| "dge (Fin a) (Fin b) = (a \<ge> b)"
| "dge PInf _ = True"
| "dge _ NInf = True"
| "dge _ PInf = False"
| "dge NInf _ = False"

fun dle :: "double \<Rightarrow> double \<Rightarrow> bool" where
  "dle NaN _ = False"
| "dle _ NaN = False"
| "dle (Fin a) (Fin b) = (a \<le> b)"
| "dle NInf _ = True"
| "dle _ PInf = True"
| "dle _ NInf = False"
| "dle PInf _ = False"

fun dne :: "double \<Rightarrow> double \<Rightarrow> bool" where
  "dne NaN _ = True"
| "dne _ NaN = True"
| "dne (Fin a) (Fin b) = (a \<noteq> b)"
| "dne PInf PInf = False"
| "dne NInf NInf = False"
| "dne _ _ = True"

text \<open>The literal \<open>1e300\<close> of the source.\<close>

definition c1e300 :: real where
  "c1e300 = 10 ^ 300"

text \<open>\<open>(ptype) x\<close> for an integer \<open>ptype\<close>: conversion truncates toward zero.\<close>

definition trunc :: "real \<Rightarrow> int" where
  "trunc x = (if 0 \<le> x then \<lfloor>x\<rfloor> else \<lceil>x\<rceil>)"

section \<open>Rounding to double precision\<close>

text \<open>
  In \<open>isEqual\<close>, in the centroid and its update, in the centroid distances and in the
  draws of the selectors the model rounds as IEEE 754 binary64 arithmetic does, to the
  nearest value with a significand of 53 bits, ties to the even one. \<open>pow2 e\<close> is two to the power \<open>e\<close>. \<open>dexp x\<close> is the
  exponent of the binade of \<open>x\<close>, found by halving or doubling, and not below \<open>-1022\<close>:
  the subnormal numbers share the spacing of the lowest binade. \<open>rd x\<close> is the rounded
  value while it is finite; \<open>to_double\<close> adds the overflow to an infinity. An \<open>int\<close>
  converts to a double exactly; an \<open>int64_t\<close> is rounded.
\<close>

definition pow2 :: "int \<Rightarrow> real" where
  "pow2 e = (if 0 \<le> e then 2 ^ nat e else 1 / 2 ^ nat (- e))"

function flog2_up :: "real \<Rightarrow> int \<Rightarrow> int" where
  "flog2_up x k = (if x < 2 then k else flog2_up (x / 2) (k + 1))"
  by pat_completeness auto
termination
proof (relation "measure (\<lambda>(x, k). nat \<lfloor>x\<rfloor>)")
  show "wf (measure (\<lambda>(x, k). nat \<lfloor>x\<rfloor>))" by simp
next
  fix x :: real and k :: int
  assume "\<not> x < 2"
  then have x2: "2 \<le> x" by simp
  then have "x / 2 \<le> x - 1" by simp
  then have "\<lfloor>x / 2\<rfloor> \<le> \<lfloor>x - 1\<rfloor>" by (rule floor_mono)
  then have "\<lfloor>x / 2\<rfloor> < \<lfloor>x\<rfloor>" by simp
  moreover have "0 < \<lfloor>x\<rfloor>" using x2 by simp
  ultimately show "((x / 2, k + 1), (x, k)) \<in> measure (\<lambda>(x, k). nat \<lfloor>x\<rfloor>)" by simp
qed

function flog2_dn :: "real \<Rightarrow> int \<Rightarrow> int" where
  "flog2_dn x k = (if 1 \<le> x \<or> k \<le> - 1022 then k else flog2_dn (2 * x) (k - 1))"
  by pat_completeness auto
termination
  by (relation "measure (\<lambda>(x, k). nat (k + 1022))") auto

declare flog2_up.simps [simp del] flog2_dn.simps [simp del]

definition dexp :: "real \<Rightarrow> int" where
  "dexp x = (if 1 \<le> \<bar>x\<bar> then flog2_up \<bar>x\<bar> 0 else flog2_dn \<bar>x\<bar> 0)"

definition round_even :: "real \<Rightarrow> int" where
  "round_even y =
     (let f = \<lfloor>y\<rfloor> in
      if y - real_of_int f < 1 / 2 then f
      else if 1 / 2 < y - real_of_int f then f + 1
      else if even f then f else f + 1)"

definition rd :: "real \<Rightarrow> real" where
  "rd x = (if x = 0 then 0
           else (let u = pow2 (dexp x - 52) in u * real_of_int (round_even (x / u))))"

definition to_double :: "real \<Rightarrow> double" where
  "to_double x =
     (let r = rd x in if 2 ^ 1024 \<le> r then PInf else if r \<le> - (2 ^ 1024) then NInf else Fin r)"

text \<open>The operations \<open>+\<close>, \<open>-\<close>, \<open>*\<close> and \<open>fabs\<close> on doubles.\<close>

fun dneg :: "double \<Rightarrow> double" where
  "dneg NaN = NaN"
| "dneg (Fin a) = Fin (- a)"
| "dneg PInf = NInf"
| "dneg NInf = PInf"

fun dabs :: "double \<Rightarrow> double" where
  "dabs NaN = NaN"
| "dabs (Fin a) = Fin \<bar>a\<bar>"
| "dabs PInf = PInf"
| "dabs NInf = PInf"

fun dadd :: "double \<Rightarrow> double \<Rightarrow> double" where
  "dadd NaN _ = NaN"
| "dadd _ NaN = NaN"
| "dadd (Fin a) (Fin b) = to_double (a + b)"
| "dadd PInf NInf = NaN"
| "dadd NInf PInf = NaN"
| "dadd PInf _ = PInf"
| "dadd _ PInf = PInf"
| "dadd NInf _ = NInf"
| "dadd _ NInf = NInf"

definition dsub :: "double \<Rightarrow> double \<Rightarrow> double" where
  "dsub a b = dadd a (dneg b)"

fun dmul :: "double \<Rightarrow> double \<Rightarrow> double" where
  "dmul NaN _ = NaN"
| "dmul _ NaN = NaN"
| "dmul (Fin a) (Fin b) = to_double (a * b)"
| "dmul (Fin a) PInf = (if a = 0 then NaN else if 0 < a then PInf else NInf)"
| "dmul (Fin a) NInf = (if a = 0 then NaN else if 0 < a then NInf else PInf)"
| "dmul PInf (Fin b) = (if b = 0 then NaN else if 0 < b then PInf else NInf)"
| "dmul NInf (Fin b) = (if b = 0 then NaN else if 0 < b then NInf else PInf)"
| "dmul PInf PInf = PInf"
| "dmul NInf NInf = PInf"
| "dmul PInf NInf = NInf"
| "dmul NInf PInf = NInf"


section \<open>CBitePop: the cost-sorted population\<close>

text \<open>
  A population item is one slot of \<open>PopParamsBuf\<close>: the parameter vector (here with
  \<open>ptype = int64_t\<close>, the instantiation of \<open>CBiteOpt\<close>, as unbounded integers), the
  objective value at \<open>PopObjOffs\<close> and the rank at \<open>PopRankOffs\<close> (\<open>CnsCount = 0\<close>,
  \<open>ObjCount = 1\<close>, the defaults of \<open>initBuffers\<close>).

  \<open>PopParams\<close> is the array of pointers to the slots. The model holds the pointed-to
  items in pointer order, indices \<open>0 .. PopSize - 1\<close>; the extra slot
  \<open>PopParams[PopSize]\<close>, the temporary vector, is the field \<open>TmpParams\<close>. Moving
  pointers with \<open>memmove\<close> moves the items of the list. The fields \<open>PopSize1\<close>,
  \<open>CurPopSize1\<close>, \<open>CurPopSizeI\<close> and \<open>ParamCountI\<close> of the source are functions of
  \<open>PopSize\<close>, \<open>CurPopSize\<close> and \<open>ParamCount\<close> and are written out where used.
\<close>

record item =
  item_params :: "int list"
  item_obj :: double
  item_rank :: double

record pop =
  ParamCount :: nat
  PopSize :: nat
  CurPopSize :: nat
  CurPopPos :: nat
  PopParams :: "item list"
  TmpParams :: "int list"
  CentParams :: "int list"
  NeedCentUpdate :: bool
  CentLPC :: real

definition calcLP1Coeff :: "real \<Rightarrow> real" where
  "calcLP1Coeff Count =
     (let theta = 2.8 / Count;
          costheta2 = 2 - cos theta
      in 1 - (costheta2 - sqrt (costheta2 * costheta2 - 1)))"

definition resetCurPopPos :: "pop \<Rightarrow> pop" where
  "resetCurPopPos s =
     s\<lparr>CurPopSize := PopSize s, CurPopPos := 0, NeedCentUpdate := False,
       CentLPC := calcLP1Coeff (real (PopSize s))\<rparr>"

text \<open>
  \<open>incrCurPopSize\<close> may only be called while \<open>CurPopSize < PopSize\<close>, and
  \<open>decrCurPopSize\<close> while \<open>CurPopSize > 1\<close> (their comments in the source).
\<close>

definition incrCurPopSize :: "pop \<Rightarrow> pop" where
  "incrCurPopSize s =
     s\<lparr>CurPopSize := CurPopSize s + 1,
       CentLPC := calcLP1Coeff (real (CurPopSize s + 1))\<rparr>"

definition decrCurPopSize :: "pop \<Rightarrow> pop" where
  "decrCurPopSize s =
     s\<lparr>CurPopSize := CurPopSize s - 1,
       CentLPC := calcLP1Coeff (real (CurPopSize s - 1))\<rparr>"

text \<open>
  The squared distance of two vectors as the code accumulates it, coordinate by
  coordinate: \<open>d = (double) ( c[ i ] - v[ i ] ); s += d * d\<close>, from \<open>s = 0.0\<close>. The
  difference is taken in \<open>ptype\<close>, where it is exact for the parameter values of the
  optimizer (they keep five bits of headroom); the conversion, the square and the sum
  are rounded.
\<close>

definition sqdist :: "nat \<Rightarrow> int list \<Rightarrow> int list \<Rightarrow> real" where
  "sqdist n c v =
     fold (\<lambda>i s. (let d = rd (real_of_int (c ! i - v ! i)) in rd (s + rd (d * d)))) [0..<n] 0"

text \<open>
  \<open>isEqual\<close> with its default tolerance \<open>0x1p-52\<close>: \<open>d = fabs( b - a )\<close>, true when
  \<open>d == 0.0\<close> or \<open>d < ( fabs( b ) + fabs( a )) * etol\<close>.
\<close>

definition isEqual :: "double \<Rightarrow> double \<Rightarrow> bool" where
  "isEqual a b =
     (let d = dabs (dsub b a) in
      if \<not> dne d (Fin 0) then True
      else (let s = dadd (dabs b) (dabs a) in
            if dgt (dmul s (Fin (1 / 2 ^ 52))) d then True else False))"

text \<open>\<open>isParams1FartherThan2\<close>: the two sums run side by side and are compared.\<close>

definition isParams1FartherThan2 :: "nat \<Rightarrow> int list \<Rightarrow> int list \<Rightarrow> int list \<Rightarrow> bool" where
  "isParams1FartherThan2 n p1 p2 RefParams = (sqdist n p1 RefParams > sqdist n p2 RefParams)"

text \<open>The binary search of \<open>updatePop\<close>: the loop \<open>while( p < i )\<close>.\<close>

function bsearch :: "item list \<Rightarrow> double \<Rightarrow> nat \<Rightarrow> nat \<Rightarrow> nat" where
  "bsearch P UpdCost p i =
     (if p < i then
        (let mid = (p + i) div 2 in
         if dge (item_rank (P ! mid)) UpdCost then bsearch P UpdCost p mid
         else bsearch P UpdCost (mid + 1) i)
      else p)"
  by pat_completeness auto
termination
  by (relation "measure (\<lambda>(P, c, p, i). i - p)") auto

declare bsearch.simps [simp del]

text \<open>
  \<open>updatePop\<close>. \<open>UpdParams\<close> is passed by its contents: where the source finds
  \<open>rp == UpdParams\<close> it skips a copy of the vector onto itself and otherwise does
  exactly what the other branch does, so both branches leave \<open>UpdParams\<close>' values in
  the slot \<open>rp\<close>. The slot that receives the candidate is the one \<open>PopParams[ri]\<close>
  pointed to (or \<open>PopParams[p]\<close> on \<open>DoReplace\<close>); all three of its fields are
  overwritten. The function needs \<open>PopSize > 0\<close>.
\<close>

definition updatePop :: "double \<Rightarrow> int list \<Rightarrow> bool \<Rightarrow> nat \<Rightarrow> pop \<Rightarrow> nat \<times> pop" where
  "updatePop UpdCost UpdParams DoUpdateCentroid ReplaceThrN8 s =
     (let filling = (CurPopPos s < PopSize s);
          ri = (if filling then CurPopPos s else PopSize s - 1)
      in
      if \<not> filling \<and> dgt UpdCost (item_rank (PopParams s ! ri)) then (PopSize s, s)
      else
        (let p = bsearch (PopParams s) UpdCost 0 ri;
             IsEqualCost = (\<not> filling \<and> isEqual UpdCost (item_rank (PopParams s ! p)));
             DoReplace = (IsEqualCost \<and> p \<noteq> 0 \<and> p < CurPopSize s * ReplaceThrN8 div 8 \<and>
                isParams1FartherThan2 (ParamCount s) (item_params (PopParams s ! p))
                  UpdParams (item_params (PopParams s ! 0)));
             rp = \<lparr>item_params = UpdParams, item_obj = UpdCost, item_rank = UpdCost\<rparr>;
             P' = (if DoReplace then (PopParams s)[p := rp]
                   else take p (PopParams s) @ [rp] @ take (ri - p) (drop p (PopParams s)) @
                        drop (ri + 1) (PopParams s));
             s1 = s\<lparr>CurPopPos := (if filling then CurPopPos s + 1 else CurPopPos s),
                     PopParams := P'\<rparr>;
             s2 = (if DoUpdateCentroid \<and> \<not> NeedCentUpdate s then
                     s1\<lparr>CentParams :=
                          map (\<lambda>i. CentParams s ! i +
                                 trunc (rd (rd (real_of_int (UpdParams ! i - CentParams s ! i)) *
                                            CentLPC s)))
                            [0..<ParamCount s]\<rparr>
                   else s1\<lparr>NeedCentUpdate := True\<rparr>)
         in (if IsEqualCost then PopSize s else p, s2)))"

text \<open>
  \<open>updateCentroid\<close>. \<open>IntOverBits\<close> is 5 for the 8-byte \<open>ptype\<close>, so \<open>BatchCount\<close> is
  31. \<open>addParams\<close> is the loop \<open>tp[ i ] += p[ i ]\<close>, \<open>copyParams\<close> the \<open>memcpy\<close> of
  \<open>ParamCount\<close> values; the accumulator \<open>tp\<close> is the temporary vector. Sums are
  unbounded integers (the batching is there to keep the 64-bit sums from overflowing).
  \<open>cm\<close> is the double \<open>1.0 / PopSize\<close>; in \<open>tp[ i ] * cm\<close> the sum is converted to a
  double and the product is rounded before \<open>(ptype)\<close> truncates it.
\<close>

definition BatchCount :: nat where
  "BatchCount = 2 ^ 5 - 1"

definition copyParams :: "nat \<Rightarrow> int list \<Rightarrow> int list" where
  "copyParams n src = map (\<lambda>i. src ! i) [0..<n]"

definition addParams :: "nat \<Rightarrow> int list \<Rightarrow> int list \<Rightarrow> int list" where
  "addParams n tp p = map (\<lambda>i. tp ! i + p ! i) [0..<n]"

definition scaleParams :: "nat \<Rightarrow> int list \<Rightarrow> real \<Rightarrow> int list" where
  "scaleParams n tp cm = map (\<lambda>i. trunc (rd (rd (real_of_int (tp ! i)) * cm))) [0..<n]"

text \<open>The inner loop \<open>while( c > 0 ) { j++; tp += PopParams[ j ]; c--; }\<close>.\<close>

fun batch_inner :: "item list \<Rightarrow> nat \<Rightarrow> nat \<Rightarrow> nat \<Rightarrow> int list \<Rightarrow> nat \<times> int list" where
  "batch_inner P n 0 j tp = (j, tp)"
| "batch_inner P n (Suc c) j tp =
     batch_inner P n c (j + 1) (addParams n tp (item_params (P ! (j + 1))))"

text \<open>
  The outer loop \<open>while( pl > 0 )\<close> of the batched branch, on the variables \<open>pl\<close>,
  \<open>j\<close>, \<open>DoCopy\<close>, \<open>cp\<close> and \<open>tp\<close>. Note that \<open>j\<close> is only advanced inside the inner
  loop: each batch after the first starts with \<open>copyParams( tp, PopParams[ j ])\<close> at
  the index the previous batch ended on.
\<close>

function batch_outer ::
    "item list \<Rightarrow> nat \<Rightarrow> real \<Rightarrow> nat \<Rightarrow> nat \<Rightarrow> bool \<Rightarrow> int list \<Rightarrow> int list \<Rightarrow> int list \<times> int list" where
  "batch_outer P n cm pl j DoCopy cp tp =
     (if pl > 0 then
        (let c = (if pl > BatchCount then BatchCount else pl);
             pl' = pl - c;
             (j', tp') = batch_inner P n (c - 1) j (copyParams n (item_params (P ! j)));
             cp' = (if DoCopy then scaleParams n tp' cm
                    else map (\<lambda>i. cp ! i + trunc (rd (rd (real_of_int (tp' ! i)) * cm))) [0..<n])
         in batch_outer P n cm pl' j' False cp' tp')
      else (cp, tp))"
  by pat_completeness auto
termination
  by (relation "measure (\<lambda>(P, n, cm, pl, j, DoCopy, cp, tp). pl)") (auto simp: BatchCount_def)

declare batch_outer.simps [simp del]

definition updateCentroid :: "pop \<Rightarrow> pop" where
  "updateCentroid s =
     (let cm = rd (1 / real (PopSize s));
          n = ParamCount s
      in
      if PopSize s \<le> BatchCount then
        (let tp = fold (\<lambda>j tp. addParams n tp (item_params (PopParams s ! j))) [1..<PopSize s]
                    (copyParams n (item_params (PopParams s ! 0)))
         in s\<lparr>NeedCentUpdate := False, TmpParams := tp, CentParams := scaleParams n tp cm\<rparr>)
      else
        (let (cp, tp) = batch_outer (PopParams s) n cm (PopSize s) 0 True (CentParams s) (TmpParams s)
         in s\<lparr>NeedCentUpdate := False, TmpParams := tp, CentParams := cp\<rparr>))"

section \<open>CBiteRnd draws and the range wrap\<close>

text \<open>
  The generator is modelled by what it returns: \<open>raw\<close> stands for one result of
  \<open>advance()\<close>, any 64-bit value. \<open>get()\<close> is \<open>( advance() >> ( 64 - 53 )) * 0x1p-53\<close>, a
  product that is exact in doubles.
\<close>

definition rnd_get :: "nat \<Rightarrow> real" where
  "rnd_get raw = real (raw div 2 ^ (64 - 53)) / 2 ^ 53"

text \<open>
  The fixed-point constants of \<open>CBitePop< int64_t >\<close>: \<open>IntMantBits = 64 - 1 - 5\<close>.
\<close>

definition IntMantBits :: nat where
  "IntMantBits = 8 * 8 - 1 - 5"

definition IntMantMult :: int where
  "IntMantMult = 2 ^ IntMantBits"

definition IntMantMultM :: int where
  "IntMantMultM = - IntMantMult"

definition IntMantMult2 :: int where
  "IntMantMult2 = IntMantMult * 2"

text \<open>
  \<open>wrapParam\<close> for the integer \<open>ptype\<close> (the branch \<open>(ptype) 0.25 == 0\<close>). The draw it
  consumes is \<open>raw\<close>; \<open>rnd.getRaw() & IntMantMask\<close> keeps the low \<open>IntMantBits\<close> bits,
  written as a remainder. Parameter values are numbers: products with the draw are
  exact reals, and the conversion to \<open>ptype\<close> truncates.
\<close>

definition wrapParam :: "nat \<Rightarrow> int \<Rightarrow> int" where
  "wrapParam raw v =
     (if v < 0 then
        (if v > IntMantMultM then trunc (rnd_get raw * real_of_int (- v))
         else int (raw mod 2 ^ IntMantBits))
      else if v > IntMantMult then
        (if v < IntMantMult2 then
           trunc (real_of_int IntMantMult - rnd_get raw * real_of_int (v - IntMantMult))
         else int (raw mod 2 ^ IntMantBits))
      else v)"


text \<open>
  \<open>updateDiffValues\<close> fills \<open>DiffValues\<close> from the bounds: for the integer \<open>ptype\<close> the
  width is scaled by \<open>MantMultI = 1 / IntMantMult\<close>, for \<open>double\<close> it is the width.
\<close>

definition updateDiffValues_int :: "real list \<Rightarrow> real list \<Rightarrow> real list" where
  "updateDiffValues_int MinValues MaxValues =
     map (\<lambda>i. (MaxValues ! i - MinValues ! i) * (1 / real_of_int IntMantMult))
       [0..<length MinValues]"




section \<open>CBiteSelBase: the adaptive selector\<close>

text \<open>
  A generator in use is the sequence of the values \<open>advance()\<close> will return: \<open>rnd 0\<close>
  is the next one. Each draw below consumes one value.
\<close>

type_synonym rng = "nat \<Rightarrow> nat"

definition rnd_skip :: "nat \<Rightarrow> rng \<Rightarrow> rng" where
  "rnd_skip n rnd = (\<lambda>k. rnd (k + n))"

text \<open>\<open>getInt( N1 )\<close> is \<open>(int) ( get() * N1 )\<close>; the product is rounded.\<close>

definition getInt :: "nat \<Rightarrow> nat \<Rightarrow> nat" where
  "getInt N1 raw = nat (trunc (rd (rnd_get raw * real N1)))"

text \<open>
  \<open>getPow( p )\<close> with its branches, every product and square root rounded. The
  fallback \<open>pow( v, p )\<close> of the C library is taken as the rounded \<open>v powr p\<close>.
  \<open>getPowInt( p, N1 )\<close> is \<open>(int) ( getPow( p ) * N1 )\<close>.
\<close>

definition getPow :: "real \<Rightarrow> nat \<Rightarrow> real" where
  "getPow p raw =
     (let v = rnd_get raw in
      if p < 2 then
        (if p < 1 then
           (if p = 0.5 then rd (sqrt v)
            else if p = 0.25 then rd (sqrt (rd (sqrt v)))
            else rd (v powr p))
         else
           (if p = 1.5 then rd (v * rd (sqrt v))
            else if p = 1.75 then (let sv = rd (sqrt v) in rd (rd (v * sv) * rd (sqrt sv)))
            else if p = 1 then v
            else rd (v powr p)))
      else
        (if p = 4 then (let v2 = rd (v * v) in rd (v2 * v2))
         else if p = 3 then rd (rd (v * v) * v)
         else if p = 2 then rd (v * v)
         else rd (v powr p)))"

definition getPowInt :: "real \<Rightarrow> nat \<Rightarrow> nat \<Rightarrow> nat" where
  "getPowInt p N1 raw = nat (trunc (rd (getPow p raw * real N1)))"

text \<open>
  The selector. \<open>Sels\<close> is the array of \<open>SlotCount = 5\<close> pointers into \<open>SelBuf\<close>, each to
  its own block of \<open>CountSp\<close> choices: the model holds the five vectors in pointer order,
  and exchanging two pointers exchanges two vectors. \<open>CountSp1\<close> is \<open>CountSp - 1\<close>.
  \<open>SelPower\<close> is \<open>spwr100 * 0.01\<close>; every selector of the sources is a \<open>CBiteSel\<close> with the
  default \<open>spwr100 = 150\<close>, for which the product is the double 1.5.
\<close>

record sel =
  Count :: nat
  SelPower :: real
  SparseMul :: nat
  CountSp :: nat
  Sels :: "nat list list"
  Sel :: nat
  Selp :: nat
  Slot :: nat
  IsSelected :: bool

definition SlotCount :: nat where
  "SlotCount = 5"

definition sel_select :: "rng \<Rightarrow> sel \<Rightarrow> nat \<times> sel \<times> rng" where
  "sel_select rnd s =
     (let slot = getPowInt 1.5 SlotCount (rnd 0);
          selp = getPowInt (SelPower s) (CountSp s) (rnd 1);
          c = Sels s ! slot ! selp
      in (c, s\<lparr>Slot := slot, Selp := selp, Sel := c, IsSelected := True\<rparr>, rnd_skip 2 rnd))"

text \<open>The "randomized swap-mixing" loop of \<open>reset\<close>, \<open>n\<close> iterations on one vector.\<close>

fun swap_mix :: "nat \<Rightarrow> nat \<Rightarrow> nat list \<Rightarrow> rng \<Rightarrow> nat list \<times> rng" where
  "swap_mix 0 N sp rnd = (sp, rnd)"
| "swap_mix (Suc n) N sp rnd =
     (let i1 = getInt N (rnd 0);
          i2 = getInt N (rnd 1);
          t = sp ! i1;
          sp1 = sp[i1 := sp ! i2];
          sp2 = sp1[i2 := t]
      in swap_mix n N sp2 (rnd_skip 2 rnd))"

text \<open>The loop over the slots: fill with replicas of the choices, then mix.\<close>

fun reset_slots :: "nat \<Rightarrow> nat \<Rightarrow> nat \<Rightarrow> rng \<Rightarrow> nat list list \<times> rng" where
  "reset_slots 0 cnt mul rnd = ([], rnd)"
| "reset_slots (Suc j) cnt mul rnd =
     (let sp0 = concat (map (\<lambda>i. replicate mul i) [0..<cnt]);
          (sp, rnd1) = swap_mix (cnt * mul * 5) (cnt * mul) sp0 rnd;
          (rest, rnd2) = reset_slots j cnt mul rnd1
      in (sp # rest, rnd2))"

definition sel_reset :: "rng \<Rightarrow> sel \<Rightarrow> sel \<times> rng" where
  "sel_reset rnd s =
     (let (vs, rnd1) = reset_slots SlotCount (Count s) 5 rnd;
          s1 = s\<lparr>SparseMul := 5, CountSp := Count s * 5, Sels := vs\<rparr>;
          (c, s2, rnd2) = sel_select rnd1 s1
      in (s2\<lparr>IsSelected := False\<rparr>, rnd2))"

text \<open>
  \<open>incr\<close> and \<open>decr\<close> (their \<open>rnd\<close> argument is not used). \<open>dp\<close> is
  \<open>(int) ( -Selp * v * v )\<close>, two rounded products from the left; for the documented
  scores \<open>v\<close> in \<open>[0; 1]\<close> it lies in
  \<open>[-Selp, 0]\<close>, and the \<open>memmove\<close> stays inside the vector. The \<open>memmove\<close> shifts the
  \<open>-dp\<close> entries from \<open>np\<close> on by one place, over the entry at \<open>Selp\<close>.
\<close>

definition swap_slots :: "nat \<Rightarrow> nat \<Rightarrow> nat list list \<Rightarrow> nat list list" where
  "swap_slots a b vs = (let t = vs ! a in (vs[a := vs ! b])[b := t])"

definition sel_incr :: "real \<Rightarrow> sel \<Rightarrow> sel" where
  "sel_incr v s =
     (let dp = trunc (rd (rd (- real (Selp s) * v) * v));
          xs = Sels s ! Slot s;
          xs' = (if dp < 0 then
                   (if dp = - 1 then (xs[Selp s := xs ! (Selp s - 1)])[Selp s - 1 := Sel s]
                    else
                      (let np = nat (int (Selp s) + dp) in
                       take np xs @ [Sel s] @ take (nat (- dp)) (drop np xs) @
                       drop (np + 1 + nat (- dp)) xs))
                 else xs);
          vs = (Sels s)[Slot s := xs']
      in s\<lparr>Sels := (if Slot s > 0 then swap_slots (Slot s) (Slot s - 1) vs else vs)\<rparr>)"

definition sel_decr :: "sel \<Rightarrow> sel" where
  "sel_decr s =
     (let xs = Sels s ! Slot s;
          xs' = (if int (Selp s) < int (CountSp s) - 1
                 then (xs[Selp s := xs ! (Selp s + 1)])[Selp s + 1 := Sel s]
                 else xs);
          vs = (Sels s)[Slot s := xs']
      in s\<lparr>Sels := (if Slot s < SlotCount - 1 then swap_slots (Slot s) (Slot s + 1) vs else vs)\<rparr>)"


section \<open>CBiteParPops: the nearest parallel population\<close>

text \<open>
  \<open>ParPops\<close> is the array of \<open>ParPopCount\<close> populations, here a list. The squared
  distance of one population's centroid to \<open>Params\<close> is accumulated over the
  coordinates, \<open>d = (double) ( c[ i ] - Params[ i ] ); s += d * d\<close>: it is \<open>sqdist\<close>, with
  the rounding of every step.
\<close>

text \<open>
  \<open>calcCentroidDists\<close>: the loop \<open>while( k < ParPopCount )\<close> takes up to four
  populations at a time; \<open>s\<close> is the part of the output array written so far. In each
  branch the accumulators \<open>s0 .. s3\<close> run over the coordinates side by side and do not
  touch each other.
\<close>

function calcCentroidDists_loop ::
    "nat \<Rightarrow> pop list \<Rightarrow> int list \<Rightarrow> nat \<Rightarrow> real list \<Rightarrow> real list" where
  "calcCentroidDists_loop n ParPops Params k s =
     (if k < length ParPops then
        (let pc0 = length ParPops - k;
             pc = (if pc0 > 4 then 4 else pc0);
             c = (\<lambda>m. CentParams (ParPops ! (k + m)))
         in
         if pc = 4 then
           calcCentroidDists_loop n ParPops Params (k + pc)
             (s @ [sqdist n (c 0) Params, sqdist n (c 1) Params,
                   sqdist n (c 2) Params, sqdist n (c 3) Params])
         else if pc = 3 then
           calcCentroidDists_loop n ParPops Params (k + pc)
             (s @ [sqdist n (c 0) Params, sqdist n (c 1) Params, sqdist n (c 2) Params])
         else if pc = 2 then
           calcCentroidDists_loop n ParPops Params (k + pc)
             (s @ [sqdist n (c 0) Params, sqdist n (c 1) Params])
         else
           calcCentroidDists_loop n ParPops Params (k + pc) (s @ [sqdist n (c 0) Params]))
      else s)"
  by pat_completeness auto
termination
  by (relation "measure (\<lambda>(n, ParPops, Params, k, s). length ParPops - k)") auto

declare calcCentroidDists_loop.simps [simp del]

definition calcCentroidDists :: "nat \<Rightarrow> pop list \<Rightarrow> int list \<Rightarrow> real list" where
  "calcCentroidDists n ParPops Params = calcCentroidDists_loop n ParPops Params 0 []"

text \<open>
  \<open>getMinDistParPop\<close> (its \<open>Cost\<close> argument is not used): the scan keeps index \<open>pp\<close>
  and distance \<open>d\<close>, and takes index \<open>i\<close> whenever \<open>s[ i ] <= d\<close>. It reads \<open>s[ 0 ]\<close>, so
  it needs at least one parallel population.
\<close>

definition getMinDistParPop :: "nat \<Rightarrow> pop list \<Rightarrow> int list \<Rightarrow> nat" where
  "getMinDistParPop n ParPops Params =
     (let s = calcCentroidDists n ParPops Params in
      fst (fold (\<lambda>i (pp, d). if s ! i \<le> d then (i, s ! i) else (pp, d))
             [1..<length ParPops] (0, s ! 0)))"


section \<open>The Python binding: minimize_func\<close>

text \<open>
  \<open>minimize_func\<close> after \<open>PyArg_ParseTupleAndKeywords\<close> has succeeded. A bounds
  argument is \<open>None\<close> when \<open>PyObject_GetIter\<close> fails on it, and otherwise the list of
  the objects its iterator yields; an object is \<open>PyNum x\<close> when \<open>PyFloat_AsDouble\<close>
  converts it to the double \<open>x\<close>, and \<open>PyOther\<close> when the conversion raises. Every
  \<open>PyErr_SetString( PyExc_TypeError, msg ); return 0;\<close> is the error value
  \<open>TypeError msg\<close>. The engine is the parameter \<open>driver\<close>: it stands for the one call
  \<open>biteopt_minimize( lower.size(), closure, ..., lower.data(), upper.data(), ...,
  iter_py, M_py, attc_py, stopc_py )\<close>, the only place where an optimizer is constructed
  and the only one from which the objective is called.
\<close>

datatype pyobj = PyNum double | PyOther

datatype py_error = TypeError string

text \<open>
  The loop \<open>while (true) { next = PyIter_Next(iter); ... push_back(PyFloat_AsDouble(next));
  if (PyErr_Occurred()) ... }\<close>: the converted values, or \<open>None\<close> at the first object
  that does not convert.
\<close>

fun as_doubles :: "pyobj list \<Rightarrow> double list option" where
  "as_doubles [] = Some []"
| "as_doubles (PyNum x # xs) = (case as_doubles xs of None \<Rightarrow> None | Some ys \<Rightarrow> Some (x # ys))"
| "as_doubles (PyOther # xs) = None"

text \<open>\<open>for(size_t i=0; i < lower.size(); i++) if(lower[i] > upper[i]) ...\<close>\<close>

definition some_lower_above :: "double list \<Rightarrow> double list \<Rightarrow> bool" where
  "some_lower_above lower upper = (\<exists>i<length lower. dgt (lower ! i) (upper ! i))"

definition minimize_func ::
    "(nat \<Rightarrow> double list \<Rightarrow> double list \<Rightarrow> int \<Rightarrow> int \<Rightarrow> int \<Rightarrow> int \<Rightarrow> 'r) \<Rightarrow>
     pyobj list option \<Rightarrow> pyobj list option \<Rightarrow> int \<Rightarrow> int \<Rightarrow> int \<Rightarrow> int \<Rightarrow> py_error + 'r" where
  "minimize_func driver lower_py upper_py iter_py M_py attc_py stopc_py =
     (case lower_py of
        None \<Rightarrow> Inl (TypeError ''minimize: a list is required in 2nd pos'')
      | Some los \<Rightarrow>
          (case as_doubles los of
             None \<Rightarrow> Inl (TypeError ''minimize: numerical list is required'')
           | Some lower \<Rightarrow>
               (case upper_py of
                  None \<Rightarrow> Inl (TypeError ''minimize: a list is required in 3rd pos'')
                | Some ups \<Rightarrow>
                    (case as_doubles ups of
                       None \<Rightarrow> Inl (TypeError ''minimize: numerical list is required'')
                     | Some upper \<Rightarrow>
                         if length lower \<noteq> length upper then
                           Inl (TypeError ''minimize: matching list lengths required'')
                         else if some_lower_above lower upper then
                           Inl (TypeError ''minimize: lower should not be greater than upper'')
                         else
                           Inr (driver (length lower) lower upper iter_py M_py attc_py stopc_py)))))"


section \<open>CBiteOptBase and CBiteOpt: one optimization step\<close>

text \<open>\<open>fixCostNaN\<close>: \<open>v != v ? 1e300 : v\<close>.\<close>

definition fixCostNaN :: "double \<Rightarrow> double" where
  "fixCostNaN v = (if dne v v then Fin c1e300 else v)"

text \<open>\<open>getRealValue\<close>: \<open>MinValues[ i ] + DiffValues[ i ] * NormParams[ i ]\<close>.\<close>

definition getRealValue :: "real list \<Rightarrow> real list \<Rightarrow> int list \<Rightarrow> nat \<Rightarrow> real" where
  "getRealValue MinVals DiffVals NormParams i =
     MinVals ! i + DiffVals ! i * real_of_int (NormParams ! i)"

text \<open>
  The state of one \<open>CBiteOpt\<close> object, as far as \<open>optimize\<close> keeps books: its own
  population (the \<open>CBitePop\<close> base), the parallel populations, the two populations of
  old solutions, the bounds, the best solution, the latest cost and values
  (\<open>LastCosts[ 0 ]\<close> and \<open>LastValues\<close>, held by value), the stall counter and the
  \<open>DoInitEvals\<close> flag.

  The selectors, the generator, the solution generators \<open>generateSol*\<close> and the two
  embedded optimizers \<open>ParOpt\<close> and \<open>ParOpt2\<close> with their populations are not part of
  this state. None of them writes a field of it other than \<open>TmpParams\<close>, \<open>LastCosts\<close>
  and \<open>LastValues\<close>; what they leave there in one call of \<open>optimize\<close>, and the draws and
  selections \<open>optimize\<close> itself makes, are that call's input \<open>step_in\<close>:
  \<^item> \<open>gi_Params\<close>: the vector \<open>genInitParams\<close> writes (initial evaluations);
  \<^item> \<open>gen_DoEval\<close>, \<open>gen_Params\<close>: \<open>DoEval\<close> and \<open>TmpParams\<close> after the chosen generator;
    \<open>DoEval\<close> is false exactly when \<open>generateSolPar\<close> ran;
  \<open>par_Cost\<close>, \<open>par_Values\<close>: the cost and the values the embedded optimizer reports
    through \<open>getLastCosts()\<close> and \<open>getLastValues()\<close> in that case;
  \<^item> \<open>wrap_raw\<close>: the draws of the \<open>wrapParam\<close> calls, by coordinate;
  \<^item> \<open>raw_old0\<close>, \<open>raw_old1\<close>: the draws of the two \<open>rnd.get()\<close> tests;
  \<^item> \<open>sel_PopChangeIncr\<close>, \<open>sel_PopChangeDecr\<close>: what the two population-size
    selectors return.
\<close>

record core =
  own :: pop
  ParPops :: "pop list"
  OldPops :: "pop list"
  MinValues :: "real list"
  MaxValues :: "real list"
  DiffValues :: "real list"
  BestCost :: double
  BestValues :: "real list"
  NewValues :: "real list"
  LastCosts0 :: double
  LastValues :: "real list"
  DoInitEvals :: bool
  StallCount :: nat

record step_in =
  gi_Params :: "int list"
  gen_DoEval :: bool
  gen_Params :: "int list"
  par_Cost :: double
  par_Values :: "real list"
  wrap_raw :: "nat \<Rightarrow> nat"
  raw_old0 :: nat
  raw_old1 :: nat
  sel_PopChangeIncr :: nat
  sel_PopChangeDecr :: nat

text \<open>
  \<open>initCommonVars\<close> and \<open>CBiteOpt::init\<close>, on the fields above: the bounds are read,
  the populations' fill counters are reset, and the best cost starts at \<open>1e300\<close>. The
  parallel populations are not touched by \<open>init\<close>.
\<close>

definition CBiteOpt_init :: "real list \<Rightarrow> real list \<Rightarrow> core \<Rightarrow> core" where
  "CBiteOpt_init lb ub s =
     s\<lparr>MinValues := lb, MaxValues := ub, DiffValues := updateDiffValues_int lb ub,
       own := resetCurPopPos (own s),
       BestCost := Fin c1e300, DoInitEvals := True, StallCount := 0,
       OldPops := map resetCurPopPos (OldPops s)\<rparr>"

text \<open>
  \<open>updateBestCost\<close>; \<open>p\<close> is the \<open>int\<close> position, negative when unknown.
\<close>

definition updateBestCost :: "double \<Rightarrow> real list \<Rightarrow> int \<Rightarrow> core \<Rightarrow> core" where
  "updateBestCost UpdCost UpdValues p0 s =
     (let p = (if p0 < 0 then (if dle UpdCost (BestCost s) then 0 else p0) else p0)
      in if p = 0 then s\<lparr>BestCost := UpdCost, BestValues := UpdValues\<rparr> else s)"

text \<open>
  \<open>CBitePop::copy\<close>: sizes, counters, the centroid flag and coefficient and the
  \<open>PopSize\<close> records are copied, the centroid only if it is up to date.
\<close>

definition pop_copy :: "pop \<Rightarrow> pop \<Rightarrow> pop" where
  "pop_copy dst src =
     dst\<lparr>ParamCount := ParamCount src, PopSize := PopSize src,
         CurPopSize := CurPopSize src, CurPopPos := CurPopPos src,
         NeedCentUpdate := NeedCentUpdate src, CentLPC := CentLPC src,
         PopParams := PopParams src,
         CentParams := (if \<not> NeedCentUpdate src then copyParams (ParamCount src) (CentParams src)
                        else CentParams dst)\<rparr>"

text \<open>\<open>updateParPop\<close>, on the list of parallel populations.\<close>

definition updateParPop :: "nat \<Rightarrow> double \<Rightarrow> int list \<Rightarrow> pop list \<Rightarrow> pop list" where
  "updateParPop n UpdCost UpdParams PPs =
     (let p = getMinDistParPop n PPs UpdParams
      in PPs[p := snd (updatePop UpdCost UpdParams True 0 (PPs ! p))])"

text \<open>
  \<open>CBiteOpt::optimize\<close>. \<open>push\<close> is the object \<open>PushOpt\<close> points to when the pointer is
  neither \<open>NULL\<close> nor \<open>this\<close>, and \<open>None\<close> otherwise. The result is the returned stall
  count, the object and the push target after the call.
\<close>

definition optimize_init :: "(real list \<Rightarrow> double) \<Rightarrow> step_in \<Rightarrow> core \<Rightarrow> core" where
  "optimize_init optcost inp s =
     (let Params = gi_Params inp;
          n = ParamCount (own s);
          NewVals = map (getRealValue (MinValues s) (DiffValues s) Params) [0..<n];
          NewCost = fixCostNaN (optcost NewVals);
          (p, pop1) = updatePop NewCost Params False 0 (own s);
          s1 = updateBestCost NewCost NewVals (int p)
                 (s\<lparr>own := pop1, NewValues := NewVals, LastCosts0 := NewCost, LastValues := NewVals\<rparr>)
      in if CurPopPos pop1 = PopSize pop1 then
           (let pop2 = updateCentroid pop1
            in s1\<lparr>own := pop2, ParPops := map (\<lambda>P. pop_copy P pop2) (ParPops s1),
                  DoInitEvals := False\<rparr>)
         else s1)"

definition push_into :: "double \<Rightarrow> int list \<Rightarrow> core \<Rightarrow> core" where
  "push_into UpdCost UpdParams t =
     (let pop1 = snd (updatePop UpdCost UpdParams True 3 (own t))
      in t\<lparr>own := pop1,
           ParPops := updateParPop (ParamCount pop1) UpdCost UpdParams (ParPops t)\<rparr>)"

definition optimize_main ::
    "(real list \<Rightarrow> double) \<Rightarrow> step_in \<Rightarrow> core \<Rightarrow> core option \<Rightarrow> core \<times> core option" where
  "optimize_main optcost inp s push =
     (let n = ParamCount (own s);
          DoEval = gen_DoEval inp;
          Tmp = (if DoEval then map (\<lambda>i. wrapParam (wrap_raw inp i) (gen_Params inp ! i)) [0..<n]
                 else gen_Params inp);
          NewVals = (if DoEval then map (getRealValue (MinValues s) (DiffValues s) Tmp) [0..<n]
                     else NewValues s);
          LastC = (if DoEval then fixCostNaN (optcost NewVals) else par_Cost inp);
          LastV = (if DoEval then NewVals else par_Values inp);
          (p, pop1) = updatePop LastC Tmp True 3 ((own s)\<lparr>TmpParams := Tmp\<rparr>);
          s1 = s\<lparr>own := pop1, NewValues := NewVals, LastCosts0 := LastC, LastValues := LastV\<rparr>
      in
      if int p > int (CurPopSize pop1) - 1 then
        (let s2 = s1\<lparr>StallCount := StallCount s1 + 1\<rparr>;
             s3 = (if DoEval \<and> CurPopSize pop1 < PopSize pop1 \<and> sel_PopChangeIncr inp \<noteq> 0
                   then s2\<lparr>own := incrCurPopSize (own s2)\<rparr> else s2)
         in (s3\<lparr>ParPops := updateParPop n LastC Tmp (ParPops s3)\<rparr>, push))
      else
        (let s2 = (updateBestCost LastC LastV (int p) s1)\<lparr>StallCount := 0\<rparr>;
             OldParams = PopParams pop1 ! (CurPopSize pop1 - 1);
             old0 = (if rnd_get (raw_old0 inp) < 1 / real n
                     then snd (updatePop (item_obj OldParams) (item_params OldParams) False 0
                                 (OldPops s2 ! 0))
                     else OldPops s2 ! 0);
             old1 = (if rnd_get (raw_old1 inp) < 2 * (1 / real n)
                     then snd (updatePop (item_obj OldParams) (item_params OldParams) False 0
                                 (OldPops s2 ! 1))
                     else OldPops s2 ! 1);
             s3 = s2\<lparr>OldPops := [old0, old1]\<rparr>;
             push' = (case push of
                        None \<Rightarrow> None
                      | Some t \<Rightarrow> if \<not> DoInitEvals t \<and> p > 1 then Some (push_into LastC Tmp t)
                                  else Some t);
             s4 = (if DoEval \<and> CurPopSize pop1 > PopSize pop1 div 2 \<and> sel_PopChangeDecr inp \<noteq> 0
                   then s3\<lparr>own := decrCurPopSize (own s3)\<rparr> else s3)
         in (s4\<lparr>ParPops := updateParPop n LastC Tmp (ParPops s4)\<rparr>, push')))"

definition CBiteOpt_optimize ::
    "(real list \<Rightarrow> double) \<Rightarrow> step_in \<Rightarrow> core \<Rightarrow> core option \<Rightarrow> nat \<times> core \<times> core option" where
  "CBiteOpt_optimize optcost inp s push =
     (if DoInitEvals s then (0, optimize_init optcost inp s, push)
      else (let (s', push') = optimize_main optcost inp s push
            in (StallCount s', s', push')))"

text \<open>
  The vector handed to the objective in one call, by this object or (when \<open>DoEval\<close> is
  false) by the embedded optimizer that supplied the solution.
\<close>

definition evaluated :: "step_in \<Rightarrow> core \<Rightarrow> real list" where
  "evaluated inp s =
     (let n = ParamCount (own s) in
      if DoInitEvals s then map (getRealValue (MinValues s) (DiffValues s) (gi_Params inp)) [0..<n]
      else if gen_DoEval inp then
        map (getRealValue (MinValues s) (DiffValues s)
               (map (\<lambda>i. wrapParam (wrap_raw inp i) (gen_Params inp ! i)) [0..<n])) [0..<n]
      else par_Values inp)"


section \<open>Ensemble of optimizers: \<open>CBiteOptDeep\<close>\<close>

text \<open>
  The object holds \<open>OptCount\<close> optimizers; the pointers \<open>BestOpt\<close>, \<open>CurOpt\<close>, \<open>LastOpt\<close>
  and \<open>PushOpt\<close> always point to elements of \<open>Opts\<close> and are modelled as indices into
  it (the objects are distinct, so pointer equality is index equality).
  \<open>StallCount_deep\<close> is the ensemble's own \<open>StallCount\<close>.
\<close>

record deep =
  OptCount :: nat
  Opts :: "core list"
  BestOpt :: nat
  CurOpt :: nat
  LastOpt :: nat
  PushOpt :: nat
  StallCount_deep :: nat

definition getBestCost_deep :: "deep \<Rightarrow> double" where
  "getBestCost_deep d = BestCost (Opts d ! BestOpt d)"

definition getBestParams_deep :: "deep \<Rightarrow> real list" where
  "getBestParams_deep d = BestValues (Opts d ! BestOpt d)"

text \<open>
  The loop \<open>while( true ) { PushOpt = Opts[ rnd.getInt( OptCount )]; if( PushOpt != CurOpt )
  break; }\<close>. It need not end: the result is \<open>None\<close> when every draw hits \<open>CurOpt\<close>.
\<close>

partial_function (option) pick_other :: "nat \<Rightarrow> nat \<Rightarrow> rng \<Rightarrow> nat option" where
  "pick_other cnt cur rnd =
     (let k = getInt cnt (rnd 0)
      in if k \<noteq> cur then Some k else pick_other cnt cur (rnd_skip 1 rnd))"

text \<open>\<open>CBiteOptDeep::init\<close>; \<open>rnd\<close> is the generator as the selection loop finds it.\<close>

definition deep_init :: "real list \<Rightarrow> real list \<Rightarrow> rng \<Rightarrow> deep \<Rightarrow> deep option" where
  "deep_init lb ub rnd d =
     (let d1 = d\<lparr>Opts := map (CBiteOpt_init lb ub) (Opts d),
                 BestOpt := 0, CurOpt := 0, LastOpt := 0, StallCount_deep := 0\<rparr>
      in if OptCount d = 1 then Some (d1\<lparr>PushOpt := 0\<rparr>)
         else map_option (\<lambda>k. d1\<lparr>PushOpt := k\<rparr>) (pick_other (OptCount d) 0 rnd))"

text \<open>
  \<open>CurOpt -> optimize( rnd, PushOpt )\<close> on the list of objects: the current object is
  replaced by its successor, and so is the push target when it is another object.
\<close>

definition call_CurOpt ::
    "(real list \<Rightarrow> double) \<Rightarrow> step_in \<Rightarrow> deep \<Rightarrow> nat \<times> core list" where
  "call_CurOpt optcost inp d =
     (let cur = CurOpt d; psh = PushOpt d;
          (sc, cur', push') = CBiteOpt_optimize optcost inp (Opts d ! cur)
                              (if psh = cur then None else Some (Opts d ! psh));
          os1 = (Opts d)[cur := cur']
      in (sc, case push' of None \<Rightarrow> os1 | Some t \<Rightarrow> os1[psh := t]))"

text \<open>
  \<open>CBiteOptDeep::optimize\<close>: the returned stall count and the object after the call.
  \<open>inp\<close> is the input of the one call of \<open>CBiteOpt::optimize\<close>, \<open>rnd\<close> the generator as
  the selection loop finds it.
\<close>

definition deep_optimize ::
    "(real list \<Rightarrow> double) \<Rightarrow> step_in \<Rightarrow> rng \<Rightarrow> deep \<Rightarrow> (nat \<times> deep) option" where
  "deep_optimize optcost inp rnd d =
     (if OptCount d = 1 then
        (let (sc, o', push') = CBiteOpt_optimize optcost inp (Opts d ! 0) None
         in Some (sc, d\<lparr>Opts := (Opts d)[0 := o'], StallCount_deep := sc\<rparr>))
      else
        (let (sc, os) = call_CurOpt optcost inp d;
             d1 = d\<lparr>Opts := os, LastOpt := CurOpt d\<rparr>;
             d2 = (if dle (BestCost (os ! CurOpt d)) (BestCost (os ! BestOpt d))
                   then d1\<lparr>BestOpt := CurOpt d\<rparr> else d1)
         in if sc = 0 then Some (0, d2\<lparr>StallCount_deep := 0\<rparr>)
            else
              (let d3 = d2\<lparr>StallCount_deep := StallCount_deep d2 + 1, CurOpt := PushOpt d\<rparr>
               in if OptCount d = 2
                  then Some (StallCount_deep d3,
                             d3\<lparr>PushOpt := (if CurOpt d3 = 0 then 1 else 0)\<rparr>)
                  else map_option (\<lambda>k. (StallCount_deep d3, d3\<lparr>PushOpt := k\<rparr>))
                         (pick_other (OptCount d) (CurOpt d3) rnd))))"

section \<open>Driver: \<open>biteopt_minimize\<close>\<close>

text \<open>
  The inner loop \<open>for( i = 0; i < useiter; i++ )\<close> with its two early exits; \<open>n\<close> is the
  number of iterations left. The result is the final \<open>i\<close>, whether an exit added one to
  \<open>evals\<close>, \<open>IsFinished\<close> and the object. \<open>f_minp\<close> is \<open>None\<close> for a null pointer.
\<close>

fun attempt_loop ::
    "(real list \<Rightarrow> double) \<Rightarrow> double option \<Rightarrow> int \<Rightarrow> (nat \<Rightarrow> step_in \<times> rng) \<Rightarrow>
     nat \<Rightarrow> nat \<Rightarrow> deep \<Rightarrow> (nat \<times> bool \<times> bool \<times> deep) option" where
  "attempt_loop optcost f_minp sct ins 0 i d = Some (i, False, False, d)"
| "attempt_loop optcost f_minp sct ins (Suc n) i d =
     (case deep_optimize optcost (fst (ins i)) (snd (ins i)) d of
        None \<Rightarrow> None
      | Some (sc, d') \<Rightarrow>
          if (case f_minp of None \<Rightarrow> False | Some m \<Rightarrow> dle (getBestCost_deep d') m)
          then Some (i, True, True, d')
          else if 0 < sct \<and> sct \<le> int sc then Some (i, True, False, d')
          else attempt_loop optcost f_minp sct ins n (i + 1) d')"

text \<open>One attempt: \<open>opt.init( rnd )\<close> and the inner loop.\<close>

definition run_attempt ::
    "(real list \<Rightarrow> double) \<Rightarrow> real list \<Rightarrow> real list \<Rightarrow> double option \<Rightarrow> int \<Rightarrow> nat \<Rightarrow>
     rng \<Rightarrow> (nat \<Rightarrow> step_in \<times> rng) \<Rightarrow> deep \<Rightarrow> (nat \<times> bool \<times> bool \<times> deep) option" where
  "run_attempt optcost lb ub f_minp sct useiter rnd0 ins d =
     (case deep_init lb ub rnd0 d of
        None \<Rightarrow> None
      | Some d0 \<Rightarrow> attempt_loop optcost f_minp sct ins useiter 0 d0)"

text \<open>
  The loop over the attempts; \<open>n\<close> is the number of attempts left, \<open>k\<close> the attempt's
  number, and the triple holds \<open>evals\<close>, \<open>x\<close> and \<open>*minf\<close>. \<open>init_rnd k\<close> and \<open>ins k\<close> are
  the generator and the inputs met by attempt \<open>k\<close>.
\<close>

fun attempts ::
    "(real list \<Rightarrow> double) \<Rightarrow> real list \<Rightarrow> real list \<Rightarrow> double option \<Rightarrow> int \<Rightarrow> nat \<Rightarrow>
     (nat \<Rightarrow> rng) \<Rightarrow> (nat \<Rightarrow> nat \<Rightarrow> step_in \<times> rng) \<Rightarrow>
     nat \<Rightarrow> nat \<Rightarrow> deep \<Rightarrow> int \<times> real list \<times> double \<Rightarrow> (int \<times> real list \<times> double) option" where
  "attempts optcost lb ub f_minp sct useiter init_rnd ins 0 k d out = Some out"
| "attempts optcost lb ub f_minp sct useiter init_rnd ins (Suc n) k d out =
     (case run_attempt optcost lb ub f_minp sct useiter (init_rnd k) (ins k) d of
        None \<Rightarrow> None
      | Some (i, extra, fin, d1) \<Rightarrow>
          (let evals' = fst out + (if extra then 1 else 0) + int i;
               upd = (k = 0 \<or> dle (getBestCost_deep d1) (snd (snd out)));
               x' = (if upd then getBestParams_deep d1 else fst (snd out));
               minf' = (if upd then getBestCost_deep d1 else snd (snd out))
           in if fin then Some (evals', x', minf')
              else attempts optcost lb ub f_minp sct useiter init_rnd ins n (k + 1) d1
                     (evals', x', minf')))"

text \<open>
  \<open>biteopt_minimize\<close>. \<open>d\<close> is the object \<open>opt\<close> after \<open>updateDims( N, M )\<close>; \<open>x0\<close> and
  \<open>minf0\<close> are the contents of the output arguments at the call. The result is the
  returned \<open>evals\<close> with the final \<open>x\<close> and \<open>*minf\<close>.
\<close>

definition biteopt_minimize ::
    "int \<Rightarrow> (real list \<Rightarrow> double) \<Rightarrow> real list \<Rightarrow> real list \<Rightarrow> real list \<Rightarrow> double \<Rightarrow>
     int \<Rightarrow> int \<Rightarrow> int \<Rightarrow> int \<Rightarrow> double option \<Rightarrow>
     (nat \<Rightarrow> rng) \<Rightarrow> (nat \<Rightarrow> nat \<Rightarrow> step_in \<times> rng) \<Rightarrow> deep \<Rightarrow>
     (int \<times> real list \<times> double) option" where
  "biteopt_minimize N optcost lb ub x0 minf0 iter M attc stopc f_minp init_rnd ins d =
     (let sct = (if stopc \<le> 0 then 0 else 128 * N * stopc);
          useiter = nat (trunc (real_of_int iter * sqrt (real_of_int M)))
      in attempts optcost lb ub f_minp sct useiter init_rnd ins (nat attc) 0 d (0, x0, minf0))"


section \<open>Population: invariants and example states\<close>

text \<open>
  An allocated population: \<open>initBuffers\<close> was called with a positive size, so the
  pointer array has \<open>PopSize\<close> entries (and the temporary one), and the fill counter
  does not exceed it.
\<close>

definition pop_wf :: "pop \<Rightarrow> bool" where
  "pop_wf s = (0 < PopSize s \<and> length (PopParams s) = PopSize s \<and> CurPopPos s \<le> PopSize s)"

text \<open>The first \<open>n\<close> records are in ascending rank order; none of their ranks is NaN.\<close>

definition ranks_sorted :: "item list \<Rightarrow> nat \<Rightarrow> bool" where
  "ranks_sorted P n = (\<forall>i j. i < j \<and> j < n \<longrightarrow> dle (item_rank (P ! i)) (item_rank (P ! j)))"

definition ranks_num :: "item list \<Rightarrow> nat \<Rightarrow> bool" where
  "ranks_num P n = (\<forall>i<n. item_rank (P ! i) \<noteq> NaN)"

definition pop_sorted :: "pop \<Rightarrow> bool" where
  "pop_sorted s = (ranks_sorted (PopParams s) (CurPopPos s) \<and> ranks_num (PopParams s) (CurPopPos s))"

text \<open>
  A sequence of \<open>updatePop\<close> calls, each with its cost, vector, \<open>DoUpdateCentroid\<close>
  and \<open>ReplaceThrN8\<close>; \<open>costs_num\<close> says that no cost of the sequence is NaN (the
  caller's duty: "This value should be checked for NaN and fixed if needed").
\<close>

definition runUpdates :: "(double \<times> int list \<times> bool \<times> nat) list \<Rightarrow> pop \<Rightarrow> pop" where
  "runUpdates calls s = fold (\<lambda>(c, ps, d, t) s. snd (updatePop c ps d t s)) calls s"

definition costs_num :: "(double \<times> int list \<times> bool \<times> nat) list \<Rightarrow> bool" where
  "costs_num calls = (NaN \<notin> fst ` set calls)"

text \<open>The index \<open>ri\<close> of \<open>updatePop\<close> and the record it writes.\<close>

definition upd_ri :: "pop \<Rightarrow> nat" where
  "upd_ri s = (if CurPopPos s < PopSize s then CurPopPos s else PopSize s - 1)"

definition upd_rp :: "double \<Rightarrow> int list \<Rightarrow> item" where
  "upd_rp c ps = \<lparr>item_params = ps, item_obj = c, item_rank = c\<rparr>"

text \<open>A filled population of two one-dimensional records with ranks 1 and 2.\<close>

definition pop_ex2 :: pop where
  "pop_ex2 =
     \<lparr>ParamCount = 1, PopSize = 2, CurPopSize = 2, CurPopPos = 2,
      PopParams = [\<lparr>item_params = [0], item_obj = Fin 1, item_rank = Fin 1\<rparr>,
                   \<lparr>item_params = [8], item_obj = Fin 2, item_rank = Fin 2\<rparr>],
      TmpParams = [0], CentParams = [4], NeedCentUpdate = False, CentLPC = 1 / 2\<rparr>"

text \<open>The same population with an infinite worst rank.\<close>

definition pop_exinf :: pop where
  "pop_exinf =
     \<lparr>ParamCount = 1, PopSize = 2, CurPopSize = 2, CurPopPos = 2,
      PopParams = [\<lparr>item_params = [0], item_obj = Fin 1, item_rank = Fin 1\<rparr>,
                   \<lparr>item_params = [8], item_obj = PInf, item_rank = PInf\<rparr>],
      TmpParams = [0], CentParams = [4], NeedCentUpdate = False, CentLPC = 1 / 2\<rparr>"

text \<open>
  The sum of coordinate \<open>i\<close> over the first \<open>n\<close> records; the arithmetic mean of that
  coordinate is this sum divided by \<open>n\<close>.
\<close>

definition col_sum :: "item list \<Rightarrow> nat \<Rightarrow> nat \<Rightarrow> int" where
  "col_sum P n i = (\<Sum>j\<leftarrow>[0..<n]. item_params (P ! j) ! i)"

text \<open>
  A filled population of 32 one-dimensional records, one more than \<open>BatchCount\<close>: the
  first 31 hold 0, the last and worst holds 3200.
\<close>

definition pop_ex32 :: pop where
  "pop_ex32 =
     \<lparr>ParamCount = 1, PopSize = 32, CurPopSize = 32, CurPopPos = 32,
      PopParams = map (\<lambda>j. \<lparr>item_params = [if j = 31 then 3200 else 0],
                              item_obj = Fin (real j), item_rank = Fin (real j)\<rparr>) [0..<32],
      TmpParams = [0], CentParams = [0], NeedCentUpdate = True, CentLPC = 1 / 2\<rparr>"


text \<open>
  Two records with the coordinate \<open>2^57 + 15\<close>: their sum \<open>2^58 + 30\<close> does not fit the
  53 bits of a double.
\<close>

definition pop_big2 :: pop where
  "pop_big2 =
     \<lparr>ParamCount = 1, PopSize = 2, CurPopSize = 2, CurPopPos = 2,
      PopParams = [\<lparr>item_params = [2 ^ 57 + 15], item_obj = Fin 1, item_rank = Fin 1\<rparr>,
                   \<lparr>item_params = [2 ^ 57 + 15], item_obj = Fin 2, item_rank = Fin 2\<rparr>],
      TmpParams = [0], CentParams = [0], NeedCentUpdate = True, CentLPC = 1 / 2\<rparr>"

section \<open>Range wrap: the bounds contract\<close>



section \<open>Selector: call sequences and the invariant\<close>

text \<open>
  The calls a client makes after \<open>reset\<close>, and a run of them; the run collects what
  every \<open>select\<close> returned.
\<close>

datatype sel_op = Select | Incr real | Decr

fun sel_run :: "sel_op list \<Rightarrow> sel \<Rightarrow> rng \<Rightarrow> nat list \<times> sel \<times> rng" where
  "sel_run [] s rnd = ([], s, rnd)"
| "sel_run (Select # ops) s rnd =
     (let (c, s1, rnd1) = sel_select rnd s;
          (cs, s2, rnd2) = sel_run ops s1 rnd1
      in (c # cs, s2, rnd2))"
| "sel_run (Incr v # ops) s rnd = sel_run ops (sel_incr v s) rnd"
| "sel_run (Decr # ops) s rnd = sel_run ops (sel_decr s) rnd"

text \<open>Every success score handed to \<open>incr\<close> is in \<open>[0; 1]\<close>.\<close>

fun sel_op_ok :: "sel_op \<Rightarrow> bool" where
  "sel_op_ok (Incr v) = (0 \<le> v \<and> v \<le> 1)"
| "sel_op_ok _ = True"

definition rng_ok :: "rng \<Rightarrow> bool" where
  "rng_ok rnd = (\<forall>k. rnd k < 2 ^ 64)"

text \<open>
  The selector's invariant: five vectors of \<open>CountSp\<close> entries, every entry a choice
  below \<open>Count\<close>, and a pending selection inside them. \<open>CountSp\<close> is an \<open>int\<close>, and
  the power is the 1.5 of every selector in the sources.
\<close>

definition sel_inv :: "sel \<Rightarrow> bool" where
  "sel_inv s =
     (length (Sels s) = SlotCount \<and>
      (\<forall>xs\<in>set (Sels s). length xs = CountSp s \<and> (\<forall>x\<in>set xs. x < Count s)) \<and>
      Sel s < Count s \<and> Selp s < CountSp s \<and> Slot s < SlotCount \<and>
      CountSp s < 2 ^ 31 \<and> SelPower s = 3 / 2)"

text \<open>A selector with two choices and the default power 1.5, before \<open>reset\<close>.\<close>

definition sel_ex :: sel where
  "sel_ex = \<lparr>Count = 2, SelPower = 1.5, SparseMul = 0, CountSp = 0, Sels = [],
             Sel = 0, Selp = 0, Slot = 0, IsSelected = False\<rparr>"

text \<open>A vector of \<open>n\<close> choices below \<open>c\<close>; five such vectors.\<close>

definition vec_ok :: "nat \<Rightarrow> nat \<Rightarrow> nat list \<Rightarrow> bool" where
  "vec_ok n c xs = (length xs = n \<and> (\<forall>x\<in>set xs. x < c))"

definition vecs_ok :: "nat \<Rightarrow> nat \<Rightarrow> nat list list \<Rightarrow> bool" where
  "vecs_ok n c vs = (length vs = SlotCount \<and> (\<forall>xs\<in>set vs. vec_ok n c xs))"


section \<open>Parallel populations: example\<close>

text \<open>
  The bank right after the fill phase of \<open>CBiteOpt::optimize\<close>, which copies the main
  population into every parallel population: five populations with the same centroid.
\<close>

definition parpops_ex :: "pop list" where
  "parpops_ex = replicate 5 pop_ex2"


text \<open>
  A bank of three one-dimensional populations with the centroids 4, 2 and 9: for the
  vector \<open>[1]\<close> the squared distances are 9, 1 and 64.
\<close>

definition parpops_ex3 :: "pop list" where
  "parpops_ex3 = [pop_ex2, pop_ex2\<lparr>CentParams := [2]\<rparr>, pop_ex2\<lparr>CentParams := [9]\<rparr>]"

text \<open>
  Two populations with the centroids \<open>2^57\<close> and \<open>2^57 + 1\<close>: the second difference to
  the vector \<open>[0]\<close> does not fit the 53 bits of a double.
\<close>

definition parpops_big :: "pop list" where
  "parpops_big = [pop_ex2\<lparr>CentParams := [2 ^ 57]\<rparr>, pop_ex2\<lparr>CentParams := [2 ^ 57 + 1]\<rparr>]"

text \<open>The squared Euclidean distance of two integer vectors, exactly.\<close>

definition sqsum :: "nat \<Rightarrow> int list \<Rightarrow> int list \<Rightarrow> int" where
  "sqsum n c v = (\<Sum>i\<leftarrow>[0..<n]. (c ! i - v ! i)\<^sup>2)"

section \<open>Core optimizer: runs and the invariant\<close>

text \<open>
  A run of one object without a push target: the calls of \<open>optimize\<close> in order, each
  with its input. \<open>run_evaluated\<close> lists the vectors evaluated along the run.
\<close>

fun core_run :: "(real list \<Rightarrow> double) \<Rightarrow> step_in list \<Rightarrow> core \<Rightarrow> core" where
  "core_run optcost [] s = s"
| "core_run optcost (inp # inps) s =
     core_run optcost inps (fst (snd (CBiteOpt_optimize optcost inp s None)))"

fun run_evaluated :: "(real list \<Rightarrow> double) \<Rightarrow> step_in list \<Rightarrow> core \<Rightarrow> real list list" where
  "run_evaluated optcost [] s = []"
| "run_evaluated optcost (inp # inps) s =
     evaluated inp s # run_evaluated optcost inps (fst (snd (CBiteOpt_optimize optcost inp s None)))"

text \<open>
  The embedded optimizers hand over a cost that went through \<open>fixCostNaN\<close>, as
  \<open>CSpherOpt::optimize\<close> does (\<open>NewCost = fixCostNaN( optcost( NewValues ))\<close>); the
  second embedded optimizer, \<open>CMiniBiteOpt\<close>, is not among the sources and is taken to
  keep the same contract. \<open>par_num\<close> is the weaker condition that the cost is a number.
\<close>

definition par_fixed :: "(real list \<Rightarrow> double) \<Rightarrow> step_in \<Rightarrow> bool" where
  "par_fixed optcost inp =
     (gen_DoEval inp \<or> par_Cost inp = fixCostNaN (optcost (par_Values inp)))"

definition par_num :: "step_in \<Rightarrow> bool" where
  "par_num inp = (gen_DoEval inp \<or> par_Cost inp \<noteq> NaN)"

text \<open>
  The vector and the cost that the main branch of \<open>optimize\<close> hands to \<open>updatePop\<close>,
  \<open>updateBestCost\<close>, \<open>updateParPop\<close> and the push target: \<open>TmpParams\<close> and
  \<open>LastCosts[ 0 ]\<close>.
\<close>

definition main_Tmp :: "step_in \<Rightarrow> core \<Rightarrow> int list" where
  "main_Tmp inp s =
     (if gen_DoEval inp
      then map (\<lambda>i. wrapParam (wrap_raw inp i) (gen_Params inp ! i)) [0..<ParamCount (own s)]
      else gen_Params inp)"

definition main_cost :: "(real list \<Rightarrow> double) \<Rightarrow> step_in \<Rightarrow> core \<Rightarrow> double" where
  "main_cost optcost inp s =
     (if gen_DoEval inp then fixCostNaN (optcost (evaluated inp s)) else par_Cost inp)"

text \<open>The cost of one call of \<open>optimize\<close>, in either branch.\<close>

definition step_cost :: "(real list \<Rightarrow> double) \<Rightarrow> step_in \<Rightarrow> core \<Rightarrow> double" where
  "step_cost optcost inp s =
     (if DoInitEvals s \<or> gen_DoEval inp then fixCostNaN (optcost (evaluated inp s))
      else par_Cost inp)"

text \<open>
  The call of \<open>updatePop\<close> on the object's own population that one call of \<open>optimize\<close>
  is to make: with the call's cost and vector, \<open>genInitParams\<close>' vector and no centroid
  update during the initial evaluations, \<open>TmpParams\<close> and a centroid update afterwards.
\<close>

definition step_params :: "step_in \<Rightarrow> core \<Rightarrow> int list" where
  "step_params inp s = (if DoInitEvals s then gi_Params inp else main_Tmp inp s)"

definition step_update :: "(real list \<Rightarrow> double) \<Rightarrow> step_in \<Rightarrow> core \<Rightarrow> nat \<times> pop" where
  "step_update optcost inp s =
     (if DoInitEvals s
      then updatePop (step_cost optcost inp s) (gi_Params inp) False 0 (own s)
      else updatePop (step_cost optcost inp s) (main_Tmp inp s) True 3
             ((own s)\<lparr>TmpParams := main_Tmp inp s\<rparr>))"

text \<open>
  No NaN is stored: in the filled part of the own population, of the two old-solution
  populations and, once the initial evaluations are over and they have been overwritten
  by copies, of the parallel populations.
\<close>

definition pop_num :: "pop \<Rightarrow> bool" where
  "pop_num P = (\<forall>x\<in>set (take (CurPopPos P) (PopParams P)). item_rank x \<noteq> NaN \<and> item_obj x \<noteq> NaN)"

definition core_num :: "core \<Rightarrow> bool" where
  "core_num s =
     (pop_num (own s) \<and> (\<forall>P\<in>set (OldPops s). pop_num P) \<and>
      (\<not> DoInitEvals s \<longrightarrow> (\<forall>P\<in>set (ParPops s). pop_num P)))"

text \<open>Every stored record of the filled prefix has its objective value equal to its rank.\<close>

definition objs_ok :: "pop \<Rightarrow> bool" where
  "objs_ok P = (\<forall>x\<in>set (take (CurPopPos P) (PopParams P)). item_obj x = item_rank x)"

definition pop_ok :: "pop \<Rightarrow> bool" where
  "pop_ok P = (pop_wf P \<and> pop_sorted P \<and> objs_ok P)"

text \<open>
  An object after \<open>updateDims\<close>: its population and the two old-solution populations
  are allocated with at least two records (the default sizes start at 10), and there is
  at least one parallel population (\<open>setParPopCount( 5 )\<close>).
\<close>

definition core_alloc :: "core \<Rightarrow> bool" where
  "core_alloc s =
     (2 \<le> PopSize (own s) \<and> length (PopParams (own s)) = PopSize (own s) \<and>
      ParPops s \<noteq> [] \<and> length (OldPops s) = 2 \<and>
      (\<forall>P\<in>set (OldPops s). 0 < PopSize P \<and> length (PopParams P) = PopSize P))"

text \<open>
  The invariant of an initialized object. No NaN is stored in the filled part of any of
  its populations (\<open>pop_ok\<close> includes \<open>pop_sorted\<close>, and so \<open>ranks_num\<close>); once the own
  population holds a record, the best cost is a number not below the rank at index 0.
\<close>

definition core_inv :: "core \<Rightarrow> bool" where
  "core_inv s =
     (pop_ok (own s) \<and> 2 \<le> PopSize (own s) \<and>
      1 \<le> CurPopSize (own s) \<and> CurPopSize (own s) \<le> PopSize (own s) \<and>
      (DoInitEvals s \<longrightarrow> CurPopPos (own s) < PopSize (own s)) \<and>
      (\<not> DoInitEvals s \<longrightarrow> CurPopPos (own s) = PopSize (own s) \<and>
          (\<forall>P\<in>set (ParPops s). pop_ok P \<and> CurPopPos P = PopSize P)) \<and>
      ParPops s \<noteq> [] \<and> length (OldPops s) = 2 \<and> (\<forall>P\<in>set (OldPops s). pop_ok P) \<and>
      BestCost s \<noteq> NaN \<and>
      (0 < CurPopPos (own s) \<longrightarrow> dle (item_rank (PopParams (own s) ! 0)) (BestCost s)))"

text \<open>
  An object past its initial evaluations, with two records of one coordinate, on the
  bounds \<open>[-10, 10]\<close>.
\<close>

definition core_ex :: core where
  "core_ex =
     \<lparr>own = pop_ex2, ParPops = replicate 5 pop_ex2, OldPops = [pop_ex2, pop_ex2],
      MinValues = [- 10], MaxValues = [10], DiffValues = updateDiffValues_int [- 10] [10],
      BestCost = Fin 1, BestValues = [- 10], NewValues = [- 10], LastCosts0 = Fin 1,
      LastValues = [- 10], DoInitEvals = False, StallCount = 0\<rparr>"

definition step_ex :: step_in where
  "step_ex =
     \<lparr>gi_Params = [2 ^ 57], gen_DoEval = True, gen_Params = [2 ^ 56],
      par_Cost = Fin 0, par_Values = [0], wrap_raw = (\<lambda>i. 0), raw_old0 = 0, raw_old1 = 0,
      sel_PopChangeIncr = 0, sel_PopChangeDecr = 0\<rparr>"


section \<open>Ensemble and driver: runs and invariants\<close>

text \<open>The stall counts returned along a run of one plain optimizer.\<close>

fun core_run_sc :: "(real list \<Rightarrow> double) \<Rightarrow> step_in list \<Rightarrow> core \<Rightarrow> nat list" where
  "core_run_sc optcost [] s = []"
| "core_run_sc optcost (inp # inps) s =
     fst (CBiteOpt_optimize optcost inp s None)
       # core_run_sc optcost inps (fst (snd (CBiteOpt_optimize optcost inp s None)))"

text \<open>
  A run of the ensemble: the calls of \<open>optimize\<close> in order, each with its inputs; the
  result holds the returned stall counts and the final object.
\<close>

fun deep_run ::
    "(real list \<Rightarrow> double) \<Rightarrow> (step_in \<times> rng) list \<Rightarrow> deep \<Rightarrow> (nat list \<times> deep) option" where
  "deep_run optcost [] d = Some ([], d)"
| "deep_run optcost (i # ins) d =
     (case deep_optimize optcost (fst i) (snd i) d of
        None \<Rightarrow> None
      | Some (sc, d') \<Rightarrow>
          (case deep_run optcost ins d' of
             None \<Rightarrow> None
           | Some (scs, d'') \<Rightarrow> Some (sc # scs, d'')))"

text \<open>
  An ensemble after \<open>updateDims\<close>, and the invariant of an initialized one: every
  object satisfies the invariant of the core optimizer and the pointers are in range.
  \<open>best_known\<close> says that the object \<open>BestOpt\<close> points to holds an evaluated solution.
\<close>

definition deep_alloc :: "deep \<Rightarrow> bool" where
  "deep_alloc d =
     (OptCount d = length (Opts d) \<and> 0 < OptCount d \<and> (\<forall>s\<in>set (Opts d). core_alloc s))"

definition deep_inv :: "deep \<Rightarrow> bool" where
  "deep_inv d =
     (OptCount d = length (Opts d) \<and> 0 < OptCount d \<and> (\<forall>s\<in>set (Opts d). core_inv s) \<and>
      BestOpt d < OptCount d \<and> CurOpt d < OptCount d \<and> PushOpt d < OptCount d)"

definition best_known :: "deep \<Rightarrow> bool" where
  "best_known d = (0 < CurPopPos (own (Opts d ! BestOpt d)))"

text \<open>
  The best costs of the attempts the driver performs, in order: the value of
  \<open>opt.getBestCost()\<close> at the end of each attempt.
\<close>

fun attempt_bests ::
    "(real list \<Rightarrow> double) \<Rightarrow> real list \<Rightarrow> real list \<Rightarrow> double option \<Rightarrow> int \<Rightarrow> nat \<Rightarrow>
     (nat \<Rightarrow> rng) \<Rightarrow> (nat \<Rightarrow> nat \<Rightarrow> step_in \<times> rng) \<Rightarrow>
     nat \<Rightarrow> nat \<Rightarrow> deep \<Rightarrow> double list option" where
  "attempt_bests optcost lb ub f_minp sct useiter init_rnd ins 0 k d = Some []"
| "attempt_bests optcost lb ub f_minp sct useiter init_rnd ins (Suc n) k d =
     (case run_attempt optcost lb ub f_minp sct useiter (init_rnd k) (ins k) d of
        None \<Rightarrow> None
      | Some (i, extra, fin, d1) \<Rightarrow>
          if fin then Some [getBestCost_deep d1]
          else (case attempt_bests optcost lb ub f_minp sct useiter init_rnd ins n (k + 1) d1 of
                  None \<Rightarrow> None
                | Some bs \<Rightarrow> Some (getBestCost_deep d1 # bs)))"

definition minimize_bests ::
    "int \<Rightarrow> (real list \<Rightarrow> double) \<Rightarrow> real list \<Rightarrow> real list \<Rightarrow>
     int \<Rightarrow> int \<Rightarrow> int \<Rightarrow> int \<Rightarrow> double option \<Rightarrow>
     (nat \<Rightarrow> rng) \<Rightarrow> (nat \<Rightarrow> nat \<Rightarrow> step_in \<times> rng) \<Rightarrow> deep \<Rightarrow> double list option" where
  "minimize_bests N optcost lb ub iter M attc stopc f_minp init_rnd ins d =
     (let sct = (if stopc \<le> 0 then 0 else 128 * N * stopc);
          useiter = nat (trunc (real_of_int iter * sqrt (real_of_int M)))
      in attempt_bests optcost lb ub f_minp sct useiter init_rnd ins (nat attc) 0 d)"

text \<open>\<open>m\<close> is a least element of \<open>bs\<close>.\<close>

definition least_of :: "double \<Rightarrow> double list \<Rightarrow> bool" where
  "least_of m bs = (m \<in> set bs \<and> (\<forall>b\<in>set bs. dle m b))"

text \<open>
  The inputs of a driver run: every generator returns 64-bit values, and every solution
  taken over from an embedded optimizer has a cost that is a number.
\<close>

definition inputs_ok :: "(nat \<Rightarrow> rng) \<Rightarrow> (nat \<Rightarrow> nat \<Rightarrow> step_in \<times> rng) \<Rightarrow> bool" where
  "inputs_ok init_rnd ins =
     ((\<forall>k. rng_ok (init_rnd k)) \<and> (\<forall>k i. par_num (fst (ins k i)) \<and> rng_ok (snd (ins k i))))"

text \<open>Ensembles of one and of two objects, and constant inputs.\<close>

definition deep_ex1 :: deep where
  "deep_ex1 = \<lparr>OptCount = 1, Opts = [core_ex], BestOpt = 0, CurOpt = 0, LastOpt = 0,
               PushOpt = 0, StallCount_deep = 0\<rparr>"

definition deep_ex2 :: deep where
  "deep_ex2 = \<lparr>OptCount = 2, Opts = [core_ex, core_ex], BestOpt = 0, CurOpt = 0, LastOpt = 0,
               PushOpt = 1, StallCount_deep = 0\<rparr>"

definition rng_ex :: rng where
  "rng_ex = (\<lambda>k. 0)"


section \<open>Rounding: exponent, grid and bounds\<close>

lemma pow2_powr: "pow2 e = 2 powr real_of_int e"
proof (cases "0 \<le> e")
  case True
  then have "2 powr real_of_int e = 2 powr real (nat e)" by simp
  also have "\<dots> = 2 ^ nat e" by (simp add: powr_realpow)
  finally show ?thesis unfolding pow2_def using True by simp
next
  case False
  then have "2 powr real_of_int e = 2 powr (- real (nat (- e)))" by simp
  also have "\<dots> = inverse (2 powr real (nat (- e)))" by (rule powr_minus)
  also have "\<dots> = inverse (2 ^ nat (- e))" by (simp add: powr_realpow)
  finally show ?thesis unfolding pow2_def using False by (simp add: divide_inverse)
qed

lemma pow2_pos [simp]: "0 < pow2 e"
  by (simp add: pow2_powr)

lemma pow2_nonneg [simp]: "0 \<le> pow2 e"
  using pow2_pos[of e] by linarith

lemma pow2_neq0 [simp]: "pow2 e \<noteq> 0"
  using pow2_pos[of e] by linarith

lemma abs_pow2 [simp]: "\<bar>pow2 e\<bar> = pow2 e"
  by simp

lemma pow2_add: "pow2 (a + b) = pow2 a * pow2 b"
  by (simp add: pow2_powr powr_add)

lemma pow2_0 [simp]: "pow2 0 = 1"
  by (simp add: pow2_def)

lemma pow2_1 [simp]: "pow2 1 = 2"
  by (simp add: pow2_def)

lemma pow2_53: "pow2 53 = 2 ^ 53"
  by (simp add: pow2_def)

lemma pow2_Suc: "pow2 (e + 1) = 2 * pow2 e"
  by (simp add: pow2_add)

lemma pow2_nat: "0 \<le> e \<Longrightarrow> pow2 e = real_of_int (2 ^ nat e)"
  by (simp add: pow2_def)

lemma pow2_mono: "a \<le> b \<Longrightarrow> pow2 a \<le> pow2 b"
  by (simp add: pow2_powr)

lemma pow2_strict_mono: "a < b \<Longrightarrow> pow2 a < pow2 b"
  by (simp add: pow2_powr)

lemma pow2_diff: "pow2 (a - b) = pow2 a / pow2 b"
  by (simp add: pow2_powr powr_diff)

lemma flog2_up_bounds:
  "1 \<le> x \<Longrightarrow> k \<le> flog2_up x k \<and> pow2 (flog2_up x k - k) \<le> x \<and> x < pow2 (flog2_up x k - k + 1)"
proof (induction x k rule: flog2_up.induct)
  case (1 x k)
  show ?case
  proof (cases "x < 2")
    case True
    then have e: "flog2_up x k = k" by (simp add: flog2_up.simps[of x k])
    show ?thesis unfolding e using True "1.prems" by simp
  next
    case False
    then have e: "flog2_up x k = flog2_up (x / 2) (k + 1)" by (simp add: flog2_up.simps[of x k])
    from False have h: "1 \<le> x / 2" by simp
    note ih = "1.IH"[OF False h]
    let ?r = "flog2_up (x / 2) (k + 1)"
    have a: "pow2 (?r - k) = 2 * pow2 (?r - (k + 1))"
      using pow2_Suc[of "?r - (k + 1)"] by (simp add: algebra_simps)
    have b: "pow2 (?r - k + 1) = 2 * pow2 (?r - (k + 1) + 1)"
      using pow2_Suc[of "?r - (k + 1) + 1"] by (simp add: algebra_simps)
    show ?thesis unfolding e a b using ih by simp
  qed
qed

lemma flog2_dn_bounds:
  "0 < x \<Longrightarrow> x < 2 \<Longrightarrow> - 1022 \<le> k \<Longrightarrow>
   - 1022 \<le> flog2_dn x k \<and> flog2_dn x k \<le> k \<and> x * pow2 (k - flog2_dn x k) < 2 \<and>
   (1 \<le> x * pow2 (k - flog2_dn x k) \<or> flog2_dn x k = - 1022)"
proof (induction x k rule: flog2_dn.induct)
  case (1 x k)
  show ?case
  proof (cases "1 \<le> x \<or> k \<le> - 1022")
    case True
    then have e: "flog2_dn x k = k" by (simp add: flog2_dn.simps[of x k])
    show ?thesis unfolding e using True "1.prems" by auto
  next
    case False
    then have e: "flog2_dn x k = flog2_dn (2 * x) (k - 1)" by (simp add: flog2_dn.simps[of x k])
    from False "1.prems" have h: "0 < 2 * x" "2 * x < 2" "- 1022 \<le> k - 1" by simp_all
    note ih = "1.IH"[OF False h]
    let ?r = "flog2_dn (2 * x) (k - 1)"
    have a: "x * pow2 (k - ?r) = 2 * x * pow2 (k - 1 - ?r)"
      using pow2_Suc[of "k - 1 - ?r"] by (simp add: algebra_simps)
    show ?thesis unfolding e a using ih by simp
  qed
qed

lemma dexp_bounds:
  assumes "x \<noteq> 0"
  shows "- 1022 \<le> dexp x" and "\<bar>x\<bar> < pow2 (dexp x + 1)"
    and "pow2 (dexp x) \<le> \<bar>x\<bar> \<or> dexp x = - 1022"
proof -
  have r: "- 1022 \<le> dexp x \<and> \<bar>x\<bar> < pow2 (dexp x + 1) \<and> (pow2 (dexp x) \<le> \<bar>x\<bar> \<or> dexp x = - 1022)"
  proof (cases "1 \<le> \<bar>x\<bar>")
    case True
    then have e: "dexp x = flog2_up \<bar>x\<bar> 0" by (simp add: dexp_def)
    from flog2_up_bounds[OF True, of 0] show ?thesis unfolding e by simp
  next
    case False
    then have e: "dexp x = flog2_dn \<bar>x\<bar> 0" by (simp add: dexp_def)
    from assms have p: "0 < \<bar>x\<bar>" by simp
    from False have l: "\<bar>x\<bar> < 2" by simp
    let ?d = "flog2_dn \<bar>x\<bar> 0"
    from flog2_dn_bounds[OF p l, of 0]
    have b: "- 1022 \<le> ?d" "?d \<le> 0" "\<bar>x\<bar> * pow2 (0 - ?d) < 2"
      "1 \<le> \<bar>x\<bar> * pow2 (0 - ?d) \<or> ?d = - 1022" by simp_all
    have m: "pow2 (0 - ?d) = 1 / pow2 ?d" using pow2_diff[of 0 ?d] by simp
    have "\<bar>x\<bar> < 2 * pow2 ?d" using b(3) unfolding m by (simp add: field_simps)
    then have u: "\<bar>x\<bar> < pow2 (?d + 1)" by (simp add: pow2_Suc)
    have "pow2 ?d \<le> \<bar>x\<bar> \<or> ?d = - 1022" using b(4) unfolding m by (simp add: field_simps)
    with b(1) u show ?thesis unfolding e by simp
  qed
  then show "- 1022 \<le> dexp x" and "\<bar>x\<bar> < pow2 (dexp x + 1)"
    and "pow2 (dexp x) \<le> \<bar>x\<bar> \<or> dexp x = - 1022" by simp_all
qed

lemma dexp_unique:
  assumes "x \<noteq> 0" and "- 1022 \<le> e" and "\<bar>x\<bar> < pow2 (e + 1)"
    and "pow2 e \<le> \<bar>x\<bar> \<or> e = - 1022"
  shows "dexp x = e"
proof (rule ccontr)
  assume ne: "dexp x \<noteq> e"
  note b = dexp_bounds[OF assms(1)]
  show False
  proof (cases "dexp x < e")
    case True
    then have "pow2 (dexp x + 1) \<le> pow2 e" by (intro pow2_mono) simp
    with b(2) have "\<bar>x\<bar> < pow2 e" by linarith
    with assms(4) have "e = - 1022" by simp
    with True b(1) show False by simp
  next
    case False
    with ne have g: "e < dexp x" by simp
    then have "dexp x \<noteq> - 1022" using assms(2) by simp
    with b(3) have "pow2 (dexp x) \<le> \<bar>x\<bar>" by simp
    moreover from g have "pow2 (e + 1) \<le> pow2 (dexp x)" by (intro pow2_mono) simp
    ultimately show False using assms(3) by linarith
  qed
qed

lemma round_even_int [simp]: "round_even (real_of_int n) = n"
  by (simp add: round_even_def)

lemma round_even_ge_floor: "\<lfloor>t\<rfloor> \<le> round_even t"
  by (simp add: round_even_def Let_def)

lemma round_even_le_ceiling: "round_even t \<le> \<lceil>t\<rceil>"
proof (cases "t = real_of_int \<lfloor>t\<rfloor>")
  case True
  then have "round_even t = \<lfloor>t\<rfloor>" by (simp add: round_even_def)
  then show ?thesis by (simp add: floor_le_ceiling)
next
  case False
  then have "\<lceil>t\<rceil> = \<lfloor>t\<rfloor> + 1" by (simp add: ceiling_altdef)
  then show ?thesis by (simp add: round_even_def Let_def)
qed

lemma round_even_le: "t \<le> real_of_int M \<Longrightarrow> round_even t \<le> M"
proof -
  assume "t \<le> real_of_int M"
  then have "\<lceil>t\<rceil> \<le> M" by (rule ceiling_le)
  with round_even_le_ceiling[of t] show ?thesis by linarith
qed

lemma round_even_nonneg: "0 \<le> t \<Longrightarrow> 0 \<le> round_even t"
  using round_even_ge_floor[of t] by (simp add: order_trans[of 0 "\<lfloor>t\<rfloor>"])

lemma round_even_cases:
  "round_even t = \<lfloor>t\<rfloor> \<and> t - real_of_int \<lfloor>t\<rfloor> \<le> 1 / 2 \<or>
   round_even t = \<lfloor>t\<rfloor> + 1 \<and> 1 / 2 \<le> t - real_of_int \<lfloor>t\<rfloor>"
  unfolding round_even_def Let_def by simp

lemma round_even_half: "real_of_int (round_even t) \<le> t + 1 / 2"
proof -
  have f: "real_of_int \<lfloor>t\<rfloor> \<le> t" by (rule of_int_floor_le)
  from round_even_cases[of t] show ?thesis
  proof (elim disjE conjE)
    assume "round_even t = \<lfloor>t\<rfloor>"
    then show ?thesis using f by linarith
  next
    assume "round_even t = \<lfloor>t\<rfloor> + 1" and "1 / 2 \<le> t - real_of_int \<lfloor>t\<rfloor>"
    then show ?thesis by simp
  qed
qed

lemma round_even_below: "t < real_of_int M - 1 / 2 \<Longrightarrow> round_even t \<le> M - 1"
proof -
  assume a: "t < real_of_int M - 1 / 2"
  from round_even_half[of t] a have "real_of_int (round_even t) < real_of_int M" by linarith
  then show ?thesis by simp
qed

lemma round_even_minus: "round_even (- t) = - round_even t"
proof (cases "t = real_of_int \<lfloor>t\<rfloor>")
  case True
  define n where "n = \<lfloor>t\<rfloor>"
  have t: "t = real_of_int n" using True n_def by simp
  have "round_even (- real_of_int n) = round_even (real_of_int (- n))" by simp
  also have "\<dots> = - n" by (rule round_even_int)
  finally show ?thesis unfolding t by simp
next
  case False
  let ?f = "\<lfloor>t\<rfloor>"
  have fl: "real_of_int ?f < t"
    by (rule less_le[THEN iffD2]) (rule conjI[OF of_int_floor_le False[symmetric]])
  have fu: "t < real_of_int ?f + 1" by linarith
  have ci: "real_of_int (- ?f - 1) = - real_of_int ?f - 1" by simp
  have nf: "\<lfloor>- t\<rfloor> = - ?f - 1"
  proof (rule floor_unique)
    show "real_of_int (- ?f - 1) \<le> - t" unfolding ci using fu by linarith
    show "- t < real_of_int (- ?f - 1) + 1" unfolding ci using fl by linarith
  qed
  have fr: "- t - real_of_int (- ?f - 1) = 1 - (t - real_of_int ?f)" by simp
  show ?thesis
    unfolding round_even_def[of "- t"] round_even_def[of t] Let_def nf fr
    by auto
qed

lemma rd_0 [simp]: "rd 0 = 0"
  by (simp add: rd_def)

lemma rd_minus: "rd (- x) = - rd x"
proof (cases "x = 0")
  case True
  then show ?thesis by simp
next
  case False
  have d: "dexp (- x) = dexp x" by (simp add: dexp_def)
  show ?thesis unfolding rd_def Let_def d using False
    by (simp add: round_even_minus)
qed

lemma rd_nonneg: "0 \<le> x \<Longrightarrow> 0 \<le> rd x"
proof (cases "x = 0")
  case True
  then show ?thesis by simp
next
  case False
  assume "0 \<le> x"
  then have "0 \<le> x / pow2 (dexp x - 52)" by simp
  then have "0 \<le> round_even (x / pow2 (dexp x - 52))" by (rule round_even_nonneg)
  then show ?thesis unfolding rd_def Let_def using False by simp
qed

text \<open>Numbers with a significand of at most 53 bits above the subnormal grid.\<close>

lemma pow2_int: "0 \<le> e \<Longrightarrow> \<exists>n::int. pow2 e = real_of_int n"
  using pow2_nat by blast

lemma repr_grid:
  assumes x: "x = real_of_int m * pow2 k" and m: "\<bar>m\<bar> < 2 ^ 53" and k: "- 1074 \<le> k"
    and e: "- 1022 \<le> e" and lo: "pow2 e \<le> \<bar>x\<bar> \<or> e = - 1022"
  shows "\<exists>n::int. x / pow2 (e - 52) = real_of_int n"
proof -
  have ke: "e - 52 \<le> k"
  proof (rule ccontr)
    assume "\<not> e - 52 \<le> k"
    then have k53: "k + 53 \<le> e" by simp
    then have ne: "e \<noteq> - 1022" using k by simp
    have "\<bar>x\<bar> = real_of_int \<bar>m\<bar> * pow2 k" unfolding x by (simp add: abs_mult)
    also have "\<dots> < 2 ^ 53 * pow2 k"
    proof -
      from m have "real_of_int \<bar>m\<bar> < 2 ^ 53"
        by (metis of_int_less_iff of_int_numeral of_int_power)
      then show ?thesis by simp
    qed
    also have "\<dots> = pow2 (k + 53)" unfolding pow2_add pow2_53 by simp
    also have "\<dots> \<le> pow2 e" using k53 by (rule pow2_mono)
    finally have "\<bar>x\<bar> < pow2 e" .
    with lo ne show False by simp
  qed
  then obtain n :: int where n: "pow2 (k - (e - 52)) = real_of_int n"
    using pow2_int[of "k - (e - 52)"] by auto
  have "x / pow2 (e - 52) = real_of_int m * pow2 (k - (e - 52))"
    unfolding x pow2_diff by simp
  also have "\<dots> = real_of_int (m * n)" unfolding n by simp
  finally show ?thesis by blast
qed

lemma rd_repr:
  assumes x: "x = real_of_int m * pow2 k" and m: "\<bar>m\<bar> < 2 ^ 53" and k: "- 1074 \<le> k"
  shows "rd x = x"
proof (cases "x = 0")
  case True
  then show ?thesis by simp
next
  case False
  note b = dexp_bounds[OF False]
  from repr_grid[OF x m k b(1) b(3)] obtain n :: int where
    n: "x / pow2 (dexp x - 52) = real_of_int n" by blast
  have "rd x = pow2 (dexp x - 52) * (x / pow2 (dexp x - 52))"
    unfolding rd_def Let_def n using False by simp
  then show ?thesis by simp
qed

lemma rd_le_repr:
  assumes x0: "0 \<le> x" and xy: "x \<le> y"
    and y: "y = real_of_int m * pow2 k" and m: "\<bar>m\<bar> < 2 ^ 53" and k: "- 1074 \<le> k"
  shows "rd x \<le> y"
proof (cases "x = 0")
  case True
  then show ?thesis using x0 xy by simp
next
  case False
  note b = dexp_bounds[OF False]
  let ?e = "dexp x" and ?u = "pow2 (dexp x - 52)"
  have ax: "\<bar>x\<bar> = x" using x0 by simp
  have up: "pow2 (?e + 1) = ?u * 2 ^ 53"
  proof -
    have "?e + 1 = (?e - 52) + 53" by simp
    then have "pow2 (?e + 1) = pow2 ((?e - 52) + 53)" by (rule arg_cong)
    also have "\<dots> = ?u * pow2 53" by (rule pow2_add)
    finally show ?thesis unfolding pow2_53 .
  qed
  show ?thesis
  proof (cases "pow2 (?e + 1) \<le> y")
    case True
    have "x / ?u \<le> 2 ^ 53" using b(2) unfolding ax up by (simp add: field_simps)
    then have "x / ?u \<le> real_of_int (2 ^ 53)" by simp
    then have "round_even (x / ?u) \<le> 2 ^ 53" by (rule round_even_le)
    then have "real_of_int (round_even (x / ?u)) \<le> 2 ^ 53"
      by (metis of_int_le_iff of_int_numeral of_int_power)
    then have "?u * real_of_int (round_even (x / ?u)) \<le> ?u * 2 ^ 53" by simp
    then have "rd x \<le> pow2 (?e + 1)" unfolding rd_def Let_def up using False by simp
    with True show ?thesis by linarith
  next
    case F: False
    have ay: "\<bar>y\<bar> = y" using x0 xy by simp
    have lo: "pow2 ?e \<le> \<bar>y\<bar> \<or> ?e = - 1022" using b(3) xy unfolding ax ay by auto
    from repr_grid[OF y m k b(1) lo] obtain n :: int where n: "y / ?u = real_of_int n" by blast
    have "x / ?u \<le> y / ?u" using xy by (simp add: divide_right_mono)
    then have "round_even (x / ?u) \<le> n" unfolding n by (rule round_even_le)
    then have "real_of_int (round_even (x / ?u)) \<le> y / ?u" unfolding n by simp
    then have "?u * real_of_int (round_even (x / ?u)) \<le> y" by (simp add: field_simps)
    then show ?thesis unfolding rd_def Let_def using False by simp
  qed
qed

lemma rd_upper_half:
  assumes "x \<noteq> 0"
  shows "rd x \<le> x + pow2 (dexp x - 52) / 2"
proof -
  let ?u = "pow2 (dexp x - 52)"
  have "real_of_int (round_even (x / ?u)) \<le> x / ?u + 1 / 2" by (rule round_even_half)
  then have "?u * real_of_int (round_even (x / ?u)) \<le> ?u * (x / ?u + 1 / 2)"
    by (simp del: times_divide_eq_right)
  also have "\<dots> = x + ?u / 2" by (simp add: algebra_simps)
  finally show ?thesis unfolding rd_def Let_def using assms by simp
qed

lemma dexp_ge1:
  assumes "1 \<le> \<bar>x\<bar>"
  shows "0 \<le> dexp x" and "pow2 (dexp x) \<le> \<bar>x\<bar>" and "\<bar>x\<bar> < pow2 (dexp x + 1)"
proof -
  have e: "dexp x = flog2_up \<bar>x\<bar> 0" using assms by (simp add: dexp_def)
  from flog2_up_bounds[OF assms, of 0]
  show "0 \<le> dexp x" and "pow2 (dexp x) \<le> \<bar>x\<bar>" and "\<bar>x\<bar> < pow2 (dexp x + 1)"
    unfolding e by simp_all
qed

lemma pow2_split53: "pow2 e = 2 ^ 53 * pow2 (e - 53)"
proof -
  have "e = 53 + (e - 53)" by simp
  then have "pow2 e = pow2 (53 + (e - 53))" by (rule arg_cong)
  also have "\<dots> = pow2 53 * pow2 (e - 53)" by (rule pow2_add)
  finally show ?thesis unfolding pow2_53 .
qed

lemma pow2_half: "pow2 (e - 52) / 2 = pow2 (e - 53)"
proof -
  have "e - 52 = (e - 53) + 1" by simp
  then have "pow2 (e - 52) = pow2 ((e - 53) + 1)" by (rule arg_cong)
  also have "\<dots> = 2 * pow2 (e - 53)" by (rule pow2_Suc)
  finally show ?thesis by simp
qed

lemma rd_lt_nat:
  assumes x0: "0 \<le> x" and N: "0 < N" and xN: "x \<le> real N * (1 - 1 / 2 ^ 53)"
  shows "rd x < real N"
proof (cases "x = 0")
  case True
  then show ?thesis using N by simp
next
  case False
  let ?e = "dexp (real N)"
  have N1: "1 \<le> \<bar>real N\<bar>" using N by simp
  note bN = dexp_ge1[OF N1]
  have aN: "\<bar>real N\<bar> = real N" by simp
  have lt: "real N * (1 - 1 / 2 ^ 53) < real N" using N by simp
  have xltN: "x < real N" using xN lt by linarith
  show ?thesis
  proof (cases "x < pow2 ?e")
    case True
    let ?y = "real_of_int (2 ^ 53 - 1) * pow2 (?e - 53)"
    have y: "?y = pow2 ?e * (1 - 1 / 2 ^ 53)"
      using pow2_split53[of ?e] by (simp add: algebra_simps)
    have ylt: "?y < pow2 ?e" unfolding y by simp
    show ?thesis
    proof (cases "x \<le> ?y")
      case T: True
      have "rd x \<le> ?y"
        by (rule rd_le_repr[OF x0 T refl]) (use bN(1) in simp_all)
      with ylt bN(2) show ?thesis unfolding aN by linarith
    next
      case F: False
      then have "pow2 ?e * (1 - 1 / 2 ^ 53) < real N * (1 - 1 / 2 ^ 53)"
        using xN unfolding y by linarith
      then have g: "pow2 ?e < real N" by simp
      have p: "pow2 ?e = real_of_int 1 * pow2 ?e" by simp
      have "x \<le> pow2 ?e" using True by simp
      then have "rd x \<le> pow2 ?e"
        by (rule rd_le_repr[OF x0 _ p]) (use bN(1) in simp_all)
      with g show ?thesis by linarith
    qed
  next
    case F: False
    then have lo: "pow2 ?e \<le> x" by simp
    have ax: "\<bar>x\<bar> = x" using x0 by simp
    have up: "\<bar>x\<bar> < pow2 (?e + 1)" using xltN bN(3) unfolding ax aN by linarith
    have e1022: "- 1022 \<le> ?e" using bN(1) by simp
    have lo': "pow2 ?e \<le> \<bar>x\<bar> \<or> ?e = - 1022" using lo ax by simp
    have d: "dexp x = ?e" by (rule dexp_unique[OF False e1022 up lo'])
    have h: "rd x \<le> x + pow2 (?e - 53)"
      using rd_upper_half[OF False] unfolding d pow2_half .
    have g: "pow2 ?e < real N" using lo xltN by linarith
    then have "pow2 (?e - 53) < real N / 2 ^ 53"
      using pow2_split53[of ?e] by (simp add: field_simps)
    moreover have "x + real N / 2 ^ 53 \<le> real N" using xN by (simp add: algebra_simps)
    ultimately show ?thesis using h by linarith
  qed
qed

text \<open>Integers below \<open>2^53\<close> and their quotients by powers of two are not rounded.\<close>

lemma rd_int: "\<bar>n\<bar> < 2 ^ 53 \<Longrightarrow> rd (real_of_int n) = real_of_int n"
  by (rule rd_repr[of _ n 0]) simp_all

lemma rd_int_div: "\<bar>n\<bar> < 2 ^ 53 \<Longrightarrow> k \<le> 1074 \<Longrightarrow> rd (real_of_int n / 2 ^ k) = real_of_int n / 2 ^ k"
proof -
  assume n: "\<bar>n\<bar> < 2 ^ 53" and k: "k \<le> 1074"
  have p: "pow2 (- int k) = 1 / 2 ^ k" by (simp add: pow2_def)
  show ?thesis
    by (rule rd_repr[of _ n "- int k"]) (use n k p in simp_all)
qed

lemma rd_numeral [simp]: "(numeral w :: int) < 2 ^ 53 \<Longrightarrow> rd (numeral w) = numeral w"
  using rd_int[of "numeral w"] by simp

lemma rd_1 [simp]: "rd 1 = 1"
  using rd_int[of 1] by simp

lemma rd_half [simp]: "rd (1 / 2) = 1 / 2"
  using rd_int_div[of 1 1] by simp

lemma rd_minus_numeral [simp]: "(numeral w :: int) < 2 ^ 53 \<Longrightarrow> rd (- numeral w) = - numeral w"
  by (simp add: rd_minus)

lemma to_double_int_div:
  assumes n: "\<bar>n\<bar> < 2 ^ 53" and k: "k \<le> 1074"
  shows "to_double (real_of_int n / 2 ^ k) = Fin (real_of_int n / 2 ^ k)"
proof -
  have r: "rd (real_of_int n / 2 ^ k) = real_of_int n / 2 ^ k" by (rule rd_int_div[OF n k])
  have "\<bar>real_of_int n / 2 ^ k\<bar> = \<bar>real_of_int n\<bar> / 2 ^ k" by simp
  also have "\<dots> \<le> \<bar>real_of_int n\<bar>"
  proof -
    have "(1::real) \<le> 2 ^ k" by simp
    then have "\<bar>real_of_int n\<bar> * 1 \<le> \<bar>real_of_int n\<bar> * 2 ^ k"
      by (intro mult_left_mono) simp_all
    then show ?thesis by (simp add: divide_le_eq)
  qed
  also have "\<dots> < 2 ^ 53"
  proof -
    from n have "real_of_int \<bar>n\<bar> < real_of_int (2 ^ 53)" by (simp only: of_int_less_iff)
    then show ?thesis by simp
  qed
  also have "\<dots> < (2 :: real) ^ 1024" by simp
  finally have b: "\<bar>real_of_int n / 2 ^ k\<bar> < 2 ^ 1024" .
  then have "\<not> 2 ^ 1024 \<le> real_of_int n / 2 ^ k" and "\<not> real_of_int n / 2 ^ k \<le> - (2 ^ 1024)"
    by linarith+
  then show ?thesis unfolding to_double_def Let_def r by simp
qed

section \<open>Population: the sort invariant of updatePop\<close>

lemma dle_refl_iff: "dle a a = (a \<noteq> NaN)"
  by (cases a) auto

lemma not_dge_dle: "a \<noteq> NaN \<Longrightarrow> c \<noteq> NaN \<Longrightarrow> \<not> dge a c \<Longrightarrow> dle a c"
  by (cases a; cases c) auto

lemma dge_dle: "dge a c \<Longrightarrow> dle c a"
  by (cases a; cases c) auto

lemma dle_trans: "dle a b \<Longrightarrow> dle b c \<Longrightarrow> dle a c"
  by (cases a; cases b; cases c) auto

lemma not_dgt_dle: "a \<noteq> NaN \<Longrightarrow> c \<noteq> NaN \<Longrightarrow> \<not> dgt c a \<Longrightarrow> dle c a"
  by (cases a; cases c) auto

lemma ranks_sorted_conv:
  assumes "n \<le> length P"
  shows "ranks_sorted P n = sorted_wrt dle (map item_rank (take n P))"
proof -
  have len: "length (map item_rank (take n P)) = n" using assms by simp
  have nth: "\<And>k. k < n \<Longrightarrow> map item_rank (take n P) ! k = item_rank (P ! k)"
    using assms by simp
  show ?thesis
  proof
    assume a: "ranks_sorted P n"
    show "sorted_wrt dle (map item_rank (take n P))"
      unfolding sorted_wrt_iff_nth_less len
    proof (intro allI impI)
      fix i j assume "i < j" "j < n"
      then show "dle (map item_rank (take n P) ! i) (map item_rank (take n P) ! j)"
        using a nth[of i] nth[of j] unfolding ranks_sorted_def by simp
    qed
  next
    assume a: "sorted_wrt dle (map item_rank (take n P))"
    show "ranks_sorted P n"
      unfolding ranks_sorted_def
    proof (intro allI impI)
      fix i j assume ij: "i < j \<and> j < n"
      then have "dle (map item_rank (take n P) ! i) (map item_rank (take n P) ! j)"
        using a unfolding sorted_wrt_iff_nth_less len by blast
      then show "dle (item_rank (P ! i)) (item_rank (P ! j))"
        using ij nth[of i] nth[of j] by simp
    qed
  qed
qed

lemma ranks_num_conv:
  assumes "n \<le> length P"
  shows "ranks_num P n = (NaN \<notin> set (map item_rank (take n P)))"
proof -
  have len: "length (map item_rank (take n P)) = n" using assms by simp
  have nth: "\<And>k. k < n \<Longrightarrow> map item_rank (take n P) ! k = item_rank (P ! k)"
    using assms by simp
  show ?thesis
  proof
    assume a: "ranks_num P n"
    show "NaN \<notin> set (map item_rank (take n P))"
    proof
      assume "NaN \<in> set (map item_rank (take n P))"
      then obtain k where "k < n" "map item_rank (take n P) ! k = NaN"
        unfolding in_set_conv_nth len by blast
      then show False using a nth[of k] unfolding ranks_num_def by simp
    qed
  next
    assume a: "NaN \<notin> set (map item_rank (take n P))"
    show "ranks_num P n"
      unfolding ranks_num_def
    proof (intro allI impI)
      fix i assume i: "i < n"
      then have "map item_rank (take n P) ! i \<in> set (map item_rank (take n P))"
        using len by (metis nth_mem)
      then show "item_rank (P ! i) \<noteq> NaN" using a nth[OF i] by metis
    qed
  qed
qed

lemma bsearch_inv:
  assumes "p \<le> i"
  shows "p \<le> bsearch P c p i \<and> bsearch P c p i \<le> i"
  using assms
proof (induction P c p i rule: bsearch.induct)
  case (1 P UpdCost p i)
  show ?case
  proof (cases "p < i")
    case True
    let ?mid = "(p + i) div 2"
    from True have m: "p \<le> ?mid" "?mid < i" "?mid + 1 \<le> i" by auto
    show ?thesis
    proof (cases "dge (item_rank (P ! ?mid)) UpdCost")
      case T2: True
      have eq: "bsearch P UpdCost p i = bsearch P UpdCost p ?mid"
        using True T2 by (simp add: bsearch.simps[of P UpdCost p i] Let_def)
      from 1(1)[OF True refl T2 m(1)] m show ?thesis unfolding eq by linarith
    next
      case F2: False
      have eq: "bsearch P UpdCost p i = bsearch P UpdCost (?mid + 1) i"
        using True F2 by (simp add: bsearch.simps[of P UpdCost p i] Let_def)
      from 1(2)[OF True refl F2 m(3)] m show ?thesis unfolding eq by linarith
    qed
  next
    case False
    then have eq: "bsearch P UpdCost p i = p"
      by (simp add: bsearch.simps[of P UpdCost p i])
    from False 1(3) show ?thesis unfolding eq by simp
  qed
qed

lemma dge_mono_right: "dge a c \<Longrightarrow> dle a b \<Longrightarrow> dge b c"
  by (cases a; cases b; cases c) simp_all

lemma not_dge_mono_left: "\<not> dge b c \<Longrightarrow> dle a b \<Longrightarrow> \<not> dge a c"
  by (cases a; cases b; cases c) simp_all

lemma bsearch_spec:
  assumes "ranks_sorted P ri" and "p \<le> i" and "i \<le> ri"
    and "\<forall>k<p. \<not> dge (item_rank (P ! k)) c"
    and "\<forall>k. i \<le> k \<and> k < ri \<longrightarrow> dge (item_rank (P ! k)) c"
  shows "(\<forall>k<bsearch P c p i. \<not> dge (item_rank (P ! k)) c) \<and>
         (\<forall>k. bsearch P c p i \<le> k \<and> k < ri \<longrightarrow> dge (item_rank (P ! k)) c)"
  using assms
proof (induction P c p i rule: bsearch.induct)
  case (1 P UpdCost p i)
  show ?case
  proof (cases "p < i")
    case True
    let ?mid = "(p + i) div 2"
    from True have m: "p \<le> ?mid" "?mid < i" "?mid + 1 \<le> i" by auto
    from m 1(5) have mri: "?mid < ri" "?mid \<le> ri" by linarith+
    show ?thesis
    proof (cases "dge (item_rank (P ! ?mid)) UpdCost")
      case T2: True
      have up: "\<forall>k. ?mid \<le> k \<and> k < ri \<longrightarrow> dge (item_rank (P ! k)) UpdCost"
      proof (intro allI impI)
        fix k assume k: "?mid \<le> k \<and> k < ri"
        show "dge (item_rank (P ! k)) UpdCost"
        proof (cases "k = ?mid")
          case True then show ?thesis using T2 by simp
        next
          case False
          with k have "?mid < k \<and> k < ri" by auto
          with 1(3) have "dle (item_rank (P ! ?mid)) (item_rank (P ! k))"
            unfolding ranks_sorted_def by blast
          with T2 show ?thesis by (rule dge_mono_right)
        qed
      qed
      have eq: "bsearch P UpdCost p i = bsearch P UpdCost p ?mid"
        using True T2 by (simp add: bsearch.simps[of P UpdCost p i] Let_def)
      show ?thesis unfolding eq
        by (rule 1(1)[OF True refl T2 1(3) m(1) mri(2) 1(6) up])
    next
      case F2: False
      have lo: "\<forall>k<?mid + 1. \<not> dge (item_rank (P ! k)) UpdCost"
      proof (intro allI impI)
        fix k assume k: "k < ?mid + 1"
        show "\<not> dge (item_rank (P ! k)) UpdCost"
        proof (cases "k = ?mid")
          case True then show ?thesis using F2 by simp
        next
          case False
          with k mri have "k < ?mid \<and> ?mid < ri" by auto
          with 1(3) have "dle (item_rank (P ! k)) (item_rank (P ! ?mid))"
            unfolding ranks_sorted_def by blast
          with F2 show ?thesis by (rule not_dge_mono_left)
        qed
      qed
      have eq: "bsearch P UpdCost p i = bsearch P UpdCost (?mid + 1) i"
        using True F2 by (simp add: bsearch.simps[of P UpdCost p i] Let_def)
      show ?thesis unfolding eq
        by (rule 1(2)[OF True refl F2 1(3) m(3) 1(5) lo 1(7)])
    qed
  next
    case False
    then have eq: "bsearch P UpdCost p i = p"
      by (simp add: bsearch.simps[of P UpdCost p i])
    from False 1(4) have pi: "p = i" by simp
    show ?thesis unfolding eq using 1(6) 1(7) pi by blast
  qed
qed

lemma insert_sorted:
  assumes "sorted_wrt dle (map item_rank A)" and "sorted_wrt dle (map item_rank B)"
    and "\<forall>a\<in>set A. dle (item_rank a) c" and "\<forall>b\<in>set B. dle c (item_rank b)"
    and "item_rank rp = c"
  shows "sorted_wrt dle (map item_rank (A @ [rp] @ B))"
  using assms by (auto simp: sorted_wrt_append intro: dle_trans)

lemma insert_num:
  assumes "NaN \<notin> set (map item_rank A)" and "NaN \<notin> set (map item_rank B)"
    and "item_rank rp \<noteq> NaN"
  shows "NaN \<notin> set (map item_rank (A @ [rp] @ B))"
  using assms by auto

text \<open>The list surgery of updatePop, on a sorted prefix of length n split at p.\<close>

lemma split_sorted:
  assumes "p \<le> n" "n \<le> length P" "sorted_wrt dle (map item_rank (take n P))"
  shows "sorted_wrt dle (map item_rank (take p P))"
    and "sorted_wrt dle (map item_rank (take (n - p) (drop p P)))"
proof -
  have "take n P = take p P @ take (n - p) (drop p P)"
    using assms(1) by (metis le_add_diff_inverse take_add)
  with assms(3) show "sorted_wrt dle (map item_rank (take p P))"
    and "sorted_wrt dle (map item_rank (take (n - p) (drop p P)))"
    by (simp_all add: sorted_wrt_append)
qed

lemma split_num:
  assumes "p \<le> n" "n \<le> length P" "NaN \<notin> set (map item_rank (take n P))"
  shows "NaN \<notin> set (map item_rank (take p P))"
    and "NaN \<notin> set (map item_rank (take (n - p) (drop p P)))"
proof -
  have "take n P = take p P @ take (n - p) (drop p P)"
    using assms(1) by (metis le_add_diff_inverse take_add)
  with assms(3) show "NaN \<notin> set (map item_rank (take p P))"
    and "NaN \<notin> set (map item_rank (take (n - p) (drop p P)))"
    by auto
qed

lemma set_take_nthE:
  assumes "x \<in> set (take p P)"
  obtains k where "k < p" and "k < length P" and "x = P ! k"
proof -
  from assms obtain j where j: "j < length (take p P)" "x = take p P ! j"
    unfolding in_set_conv_nth by blast
  then have "j < p" "j < length P" by simp_all
  moreover from j this have "x = P ! j" by simp
  ultimately show thesis by (rule that)
qed

lemma set_take_drop_nthE:
  assumes "x \<in> set (take m (drop p P))"
  obtains k where "p \<le> k" and "k < p + m" and "k < length P" and "x = P ! k"
proof -
  from assms obtain j where j: "j < length (take m (drop p P))" "x = take m (drop p P) ! j"
    unfolding in_set_conv_nth by blast
  then have jm: "j < m" and jl: "p + j < length P" by auto
  with j have x: "x = P ! (p + j)" by simp
  show thesis
    by (rule that[of "p + j"]) (use jm jl x in simp_all)
qed

lemma updatePop_sizes [simp]:
  "PopSize (snd (updatePop c ps d t s)) = PopSize s"
  "CurPopSize (snd (updatePop c ps d t s)) = CurPopSize s"
  "ParamCount (snd (updatePop c ps d t s)) = ParamCount s"
  "TmpParams (snd (updatePop c ps d t s)) = TmpParams s"
  "CentLPC (snd (updatePop c ps d t s)) = CentLPC s"
  by (simp_all add: updatePop_def Let_def)

lemma updatePop_CurPopPos:
  "CurPopPos (snd (updatePop c ps d t s)) =
     (if CurPopPos s < PopSize s then CurPopPos s + 1 else CurPopPos s)"
  by (simp add: updatePop_def Let_def)

lemma updatePop_PopParams:
  "PopParams (snd (updatePop c ps d t s)) =
     (let P = PopParams s; ri = upd_ri s; p = bsearch P c 0 ri in
      if \<not> CurPopPos s < PopSize s \<and> dgt c (item_rank (P ! ri)) then P
      else if \<not> CurPopPos s < PopSize s \<and> isEqual c (item_rank (P ! p)) \<and> p \<noteq> 0 \<and>
              p < CurPopSize s * t div 8 \<and>
              isParams1FartherThan2 (ParamCount s) (item_params (P ! p)) ps (item_params (P ! 0))
           then P[p := upd_rp c ps]
      else take p P @ [upd_rp c ps] @ take (ri - p) (drop p P) @ drop (ri + 1) P)"
  by (simp add: updatePop_def Let_def upd_ri_def upd_rp_def)

lemma updatePop_wf:
  assumes "pop_wf s"
  shows "pop_wf (snd (updatePop c ps d t s))"
proof -
  let ?P = "PopParams s" and ?ri = "upd_ri s"
  let ?p = "bsearch ?P c 0 ?ri"
  from assms have ri: "?ri < length ?P" unfolding pop_wf_def upd_ri_def by auto
  have p: "?p \<le> ?ri" using bsearch_inv[of 0 ?ri ?P c] by simp
  have "length (PopParams (snd (updatePop c ps d t s))) = length ?P"
    unfolding updatePop_PopParams Let_def using ri p by auto
  then show ?thesis
    using assms unfolding pop_wf_def updatePop_CurPopPos by auto
qed

lemma updatePop_PopParams_ex:
  "\<exists>rep. (rep \<longrightarrow> \<not> CurPopPos s < PopSize s) \<and>
     PopParams (snd (updatePop c ps d t s)) =
       (if \<not> CurPopPos s < PopSize s \<and> dgt c (item_rank (PopParams s ! upd_ri s)) then PopParams s
        else if rep then (PopParams s)[bsearch (PopParams s) c 0 (upd_ri s) := upd_rp c ps]
        else take (bsearch (PopParams s) c 0 (upd_ri s)) (PopParams s) @ [upd_rp c ps] @
             take (upd_ri s - bsearch (PopParams s) c 0 (upd_ri s))
               (drop (bsearch (PopParams s) c 0 (upd_ri s)) (PopParams s)) @
             drop (upd_ri s + 1) (PopParams s))"
  unfolding updatePop_PopParams Let_def
  by (rule exI[of _ "\<not> CurPopPos s < PopSize s \<and>
        isEqual c (item_rank (PopParams s ! bsearch (PopParams s) c 0 (upd_ri s))) \<and>
        bsearch (PopParams s) c 0 (upd_ri s) \<noteq> 0 \<and>
        bsearch (PopParams s) c 0 (upd_ri s) < CurPopSize s * t div 8 \<and>
        isParams1FartherThan2 (ParamCount s)
          (item_params (PopParams s ! bsearch (PopParams s) c 0 (upd_ri s))) ps
          (item_params (PopParams s ! 0))"]) simp

lemma updatePop_sorted:
  assumes wf: "pop_wf s" and so: "pop_sorted s" and c: "c \<noteq> NaN"
  shows "pop_sorted (snd (updatePop c ps d t s))"
proof -
  let ?P = "PopParams s" and ?ri = "upd_ri s" and ?n = "CurPopPos s"
  let ?p = "bsearch ?P c 0 ?ri"
  let ?rp = "upd_rp c ps"
  let ?s' = "snd (updatePop c ps d t s)"
  from wf have len: "length ?P = PopSize s" and pos: "0 < PopSize s" and nle: "?n \<le> PopSize s"
    unfolding pop_wf_def by auto
  have ri: "?ri < length ?P" "?ri \<le> ?n" using len pos nle unfolding upd_ri_def by auto
  from so have srt: "ranks_sorted ?P ?n" and num: "ranks_num ?P ?n"
    unfolding pop_sorted_def by auto
  have srt_ri: "ranks_sorted ?P ?ri" using srt ri(2) unfolding ranks_sorted_def by auto
  have p: "?p \<le> ?ri" using bsearch_inv[of 0 ?ri ?P c] by simp
  have spec: "(\<forall>k<?p. \<not> dge (item_rank (?P ! k)) c) \<and>
              (\<forall>k. ?p \<le> k \<and> k < ?ri \<longrightarrow> dge (item_rank (?P ! k)) c)"
  proof (rule bsearch_spec[OF srt_ri])
    show "(0::nat) \<le> ?ri" by simp
    show "?ri \<le> ?ri" by simp
    show "\<forall>k<0::nat. \<not> dge (item_rank (?P ! k)) c" by simp
    show "\<forall>k. ?ri \<le> k \<and> k < ?ri \<longrightarrow> dge (item_rank (?P ! k)) c"
    proof (intro allI impI)
      fix k assume "?ri \<le> k \<and> k < ?ri"
      then have False by linarith
      then show "dge (item_rank (?P ! k)) c" by simp
    qed
  qed
  have lo: "\<forall>a\<in>set (take ?p ?P). dle (item_rank a) c"
  proof
    fix a assume "a \<in> set (take ?p ?P)"
    then obtain k where k: "k < ?p" "a = ?P ! k" by (rule set_take_nthE)
    with p ri have "k < ?n" by linarith
    with num have "item_rank (?P ! k) \<noteq> NaN" unfolding ranks_num_def by blast
    moreover from spec k have "\<not> dge (item_rank (?P ! k)) c" by blast
    ultimately show "dle (item_rank a) c" using c k(2) not_dge_dle by blast
  qed
  have hi: "\<forall>b\<in>set (take (?ri - ?p) (drop ?p ?P)). dle c (item_rank b)"
  proof
    fix b assume "b \<in> set (take (?ri - ?p) (drop ?p ?P))"
    then obtain k where k: "?p \<le> k" "k < ?p + (?ri - ?p)" "b = ?P ! k"
      by (rule set_take_drop_nthE)
    with p have "?p \<le> k \<and> k < ?ri" by linarith
    with spec have "dge (item_rank (?P ! k)) c" by blast
    then show "dle c (item_rank b)" using k(3) dge_dle by blast
  qed
  have nl: "?n \<le> length ?P" using nle len by simp
  have sn: "sorted_wrt dle (map item_rank (take ?n ?P))" "NaN \<notin> set (map item_rank (take ?n ?P))"
    using srt num ranks_sorted_conv[OF nl] ranks_num_conv[OF nl] by blast+
  have sri: "sorted_wrt dle (map item_rank (take ?ri ?P))" "NaN \<notin> set (map item_rank (take ?ri ?P))"
    by (rule split_sorted(1)[OF ri(2) nl sn(1)], rule split_num(1)[OF ri(2) nl sn(2)])
  have rle: "?ri \<le> length ?P" using ri(1) by simp
  note A = split_sorted(1)[OF p rle sri(1)] split_num(1)[OF p rle sri(2)]
  note B = split_sorted(2)[OF p rle sri(1)] split_num(2)[OF p rle sri(2)]
  have rp: "item_rank ?rp = c" by (simp add: upd_rp_def)
  have rpn: "item_rank ?rp \<noteq> NaN" using rp c by simp
  have ins: "sorted_wrt dle (map item_rank (take ?p ?P @ [?rp] @ take (?ri - ?p) (drop ?p ?P)))"
    by (rule insert_sorted[OF A(1) B(1) lo hi rp])
  have insn: "NaN \<notin> set (map item_rank (take ?p ?P @ [?rp] @ take (?ri - ?p) (drop ?p ?P)))"
    by (rule insert_num[OF A(2) B(2) rpn])
  have wf': "pop_wf ?s'" by (rule updatePop_wf[OF wf])
  then have n'le: "CurPopPos ?s' \<le> length (PopParams ?s')" unfolding pop_wf_def by simp
  obtain rep where rep: "rep \<longrightarrow> \<not> ?n < PopSize s"
    and PP: "PopParams ?s' =
       (if \<not> ?n < PopSize s \<and> dgt c (item_rank (?P ! ?ri)) then ?P
        else if rep then ?P[?p := ?rp]
        else take ?p ?P @ [?rp] @ take (?ri - ?p) (drop ?p ?P) @ drop (?ri + 1) ?P)"
    using updatePop_PopParams_ex[of s c ps d t] by blast
  have goal: "sorted_wrt dle (map item_rank (take (CurPopPos ?s') (PopParams ?s'))) \<and>
        NaN \<notin> set (map item_rank (take (CurPopPos ?s') (PopParams ?s')))"
  proof (cases "?n < PopSize s")
    case True
    then have r: "?ri = ?n" unfolding upd_ri_def by simp
    have np: "CurPopPos ?s' = ?n + 1" unfolding updatePop_CurPopPos using True by simp
    have P1: "PopParams ?s' = (take ?p ?P @ [?rp] @ take (?ri - ?p) (drop ?p ?P)) @ drop (?ri + 1) ?P"
      unfolding PP using True rep by simp
    have l1: "length (take ?p ?P @ [?rp] @ take (?ri - ?p) (drop ?p ?P)) = ?n + 1"
      using p r ri by simp
    have "take (?n + 1) (PopParams ?s') = take ?p ?P @ [?rp] @ take (?ri - ?p) (drop ?p ?P)"
      unfolding P1 using l1 by (metis append_eq_conv_conj)
    then show ?thesis unfolding np using ins insn by simp
  next
    case False
    then have full: "?n = PopSize s" using nle by simp
    then have r: "?ri = PopSize s - 1" unfolding upd_ri_def by simp
    have np: "CurPopPos ?s' = length (PopParams ?s')"
      using wf' full False unfolding pop_wf_def updatePop_CurPopPos by simp
    have tk: "take (CurPopPos ?s') (PopParams ?s') = PopParams ?s'" unfolding np by simp
    have tkP: "take ?n ?P = ?P" using full len by simp
    show ?thesis
    proof (cases "dgt c (item_rank (?P ! ?ri))")
      case True
      then have "PopParams ?s' = ?P" unfolding PP using False by simp
      then show ?thesis unfolding tk using sn tkP by simp
    next
      case ndgt: False
      have "?ri < ?n" using full r pos by simp
      with num have "item_rank (?P ! ?ri) \<noteq> NaN" unfolding ranks_num_def by blast
      with ndgt c have last: "dle c (item_rank (?P ! ?ri))" using not_dgt_dle by blast
      show ?thesis
      proof (cases rep)
        case True
        have plen: "?p < length ?P" using p ri by linarith
        have "PopParams ?s' = ?P[?p := ?rp]" unfolding PP using True ndgt by simp
        then have eq: "PopParams ?s' = take ?p ?P @ [?rp] @ drop (?p + 1) ?P"
          using plen by (simp add: upd_conv_take_nth_drop)
        have hi2: "\<forall>b\<in>set (drop (?p + 1) ?P). dle c (item_rank b)"
        proof
          fix b assume "b \<in> set (drop (?p + 1) ?P)"
          then obtain j where j: "j < length (drop (?p + 1) ?P)" "b = drop (?p + 1) ?P ! j"
            unfolding in_set_conv_nth by blast
          then have jl: "?p + 1 + j < length ?P" by simp
          then have b: "b = ?P ! (?p + 1 + j)" using j(2) by simp
          show "dle c (item_rank b)"
          proof (cases "?p + 1 + j < ?ri")
            case True
            then have "?p \<le> ?p + 1 + j \<and> ?p + 1 + j < ?ri" by simp
            with spec have "dge (item_rank (?P ! (?p + 1 + j))) c" by blast
            then show ?thesis unfolding b by (rule dge_dle)
          next
            case False
            with jl r len have "?p + 1 + j = ?ri" by simp
            with last show ?thesis unfolding b by simp
          qed
        qed
        have sP: "sorted_wrt dle (map item_rank ?P)" "NaN \<notin> set (map item_rank ?P)"
          using sn tkP by simp_all
        have "sorted_wrt dle (drop (?p + 1) (map item_rank ?P))"
          using sP(1) by (rule sorted_wrt_drop)
        then have B2a: "sorted_wrt dle (map item_rank (drop (?p + 1) ?P))"
          by (simp add: drop_map)
        have B2b: "NaN \<notin> set (map item_rank (drop (?p + 1) ?P))"
          using sP(2) by (metis drop_map in_set_dropD)
        have "sorted_wrt dle (map item_rank (PopParams ?s'))"
          unfolding eq by (rule insert_sorted[OF A(1) B2a lo hi2 rp])
        moreover have "NaN \<notin> set (map item_rank (PopParams ?s'))"
          unfolding eq by (rule insert_num[OF A(2) B2b rpn])
        ultimately show ?thesis unfolding tk by simp
      next
        case nrep: False
        have dr0: "drop (?ri + 1) ?P = []" using r len pos by simp
        have eq: "PopParams ?s' = take ?p ?P @ [?rp] @ take (?ri - ?p) (drop ?p ?P)"
          unfolding PP using nrep ndgt dr0 by simp
        from tk eq have tke: "take (CurPopPos ?s') (PopParams ?s') =
            take ?p ?P @ [?rp] @ take (?ri - ?p) (drop ?p ?P)" by simp
        show ?thesis unfolding tke using ins insn by blast
      qed
    qed
  qed
  show ?thesis
    unfolding pop_sorted_def ranks_sorted_conv[OF n'le] ranks_num_conv[OF n'le] by (rule goal)
qed

lemma resetCurPopPos_inv:
  assumes "0 < PopSize s0" and "length (PopParams s0) = PopSize s0"
  shows "pop_wf (resetCurPopPos s0)" and "pop_sorted (resetCurPopPos s0)"
    and "CurPopPos (resetCurPopPos s0) = 0" and "CurPopSize (resetCurPopPos s0) = PopSize s0"
    and "PopSize (resetCurPopPos s0) = PopSize s0"
  using assms
  by (simp_all add: resetCurPopPos_def pop_wf_def pop_sorted_def ranks_sorted_def ranks_num_def)

lemma runUpdates_Nil [simp]: "runUpdates [] s = s"
  by (simp add: runUpdates_def)

lemma runUpdates_Cons [simp]:
  "runUpdates ((c, ps, d, t) # calls) s = runUpdates calls (snd (updatePop c ps d t s))"
  by (simp add: runUpdates_def)

lemma runUpdates_inv:
  assumes "pop_wf s" and "pop_sorted s" and "costs_num calls"
  shows "pop_wf (runUpdates calls s) \<and> pop_sorted (runUpdates calls s) \<and>
         PopSize (runUpdates calls s) = PopSize s \<and>
         CurPopSize (runUpdates calls s) = CurPopSize s \<and>
         CurPopPos (runUpdates calls s) = min (CurPopPos s + length calls) (PopSize s)"
  using assms
proof (induction calls arbitrary: s)
  case Nil
  then show ?case by (simp add: pop_wf_def)
next
  case (Cons call calls)
  obtain c ps d t where call: "call = (c, ps, d, t)" by (cases call) auto
  let ?s1 = "snd (updatePop c ps d t s)"
  from Cons.prems(3) have c: "c \<noteq> NaN" and rest: "costs_num calls"
    unfolding costs_num_def call by auto
  have wf1: "pop_wf ?s1" by (rule updatePop_wf[OF Cons.prems(1)])
  have so1: "pop_sorted ?s1" by (rule updatePop_sorted[OF Cons.prems(1) Cons.prems(2) c])
  have pos1: "CurPopPos ?s1 = min (CurPopPos s + 1) (PopSize s)"
    using Cons.prems(1) unfolding updatePop_CurPopPos pop_wf_def by auto
  from Cons.IH[OF wf1 so1 rest] pos1 show ?case
    unfolding call by (simp add: min_def)
qed

text \<open>
  Claim C1, as amended. From an initialized population (\<open>resetCurPopPos\<close> on an
  allocated one, whatever its slots hold) and through every sequence of \<open>updatePop\<close>
  calls whose costs are not NaN, the records stay in ascending rank order on the filled
  prefix \<open>[0, CurPopPos)\<close>, where \<open>CurPopPos\<close> is the number of calls capped at
  \<open>PopSize\<close>; \<open>CurPopSize\<close> stays \<open>PopSize\<close>, so once \<open>PopSize\<close> calls were made
  the order holds for all \<open>i < j\<close> within \<open>[0, CurPopSize)\<close>.
\<close>

theorem updatePop_sorted_prefix:
  assumes "0 < PopSize s0" and "length (PopParams s0) = PopSize s0" and "costs_num calls"
  shows "ranks_sorted (PopParams (runUpdates calls (resetCurPopPos s0)))
           (CurPopPos (runUpdates calls (resetCurPopPos s0))) \<and>
         CurPopPos (runUpdates calls (resetCurPopPos s0)) = min (length calls) (PopSize s0) \<and>
         CurPopSize (runUpdates calls (resetCurPopPos s0)) = PopSize s0 \<and>
         (PopSize s0 \<le> length calls \<longrightarrow>
            ranks_sorted (PopParams (runUpdates calls (resetCurPopPos s0)))
              (CurPopSize (runUpdates calls (resetCurPopPos s0))))"
proof -
  note r = resetCurPopPos_inv[OF assms(1,2)]
  from runUpdates_inv[OF r(1) r(2) assms(3)] r(3,4,5)
  have inv: "pop_sorted (runUpdates calls (resetCurPopPos s0))"
    and sz: "CurPopSize (runUpdates calls (resetCurPopPos s0)) = PopSize s0"
    and pos: "CurPopPos (runUpdates calls (resetCurPopPos s0)) = min (length calls) (PopSize s0)"
    by simp_all
  from inv have srt: "ranks_sorted (PopParams (runUpdates calls (resetCurPopPos s0)))
           (CurPopPos (runUpdates calls (resetCurPopPos s0)))"
    unfolding pop_sorted_def by simp
  show ?thesis
  proof (intro conjI impI)
    show "ranks_sorted (PopParams (runUpdates calls (resetCurPopPos s0)))
           (CurPopPos (runUpdates calls (resetCurPopPos s0)))" by (rule srt)
    show "CurPopPos (runUpdates calls (resetCurPopPos s0)) = min (length calls) (PopSize s0)"
      by (rule pos)
    show "CurPopSize (runUpdates calls (resetCurPopPos s0)) = PopSize s0" by (rule sz)
    assume "PopSize s0 \<le> length calls"
    then have "CurPopPos (runUpdates calls (resetCurPopPos s0)) =
               CurPopSize (runUpdates calls (resetCurPopPos s0))"
      unfolding pos sz by simp
    with srt show "ranks_sorted (PopParams (runUpdates calls (resetCurPopPos s0)))
              (CurPopSize (runUpdates calls (resetCurPopPos s0)))" by simp
  qed
qed

lemma ex_calls_eval:
  "runUpdates [(Fin 5, [3], False, 0), (Fin 4, [2], False, 0), (Fin 9, [1], True, 3)]
     (resetCurPopPos pop_ex2) =
   (resetCurPopPos pop_ex2)\<lparr>CurPopPos := 2, NeedCentUpdate := True,
      PopParams := [\<lparr>item_params = [2], item_obj = Fin 4, item_rank = Fin 4\<rparr>,
                    \<lparr>item_params = [3], item_obj = Fin 5, item_rank = Fin 5\<rparr>]\<rparr>"
  by (simp add: updatePop_def resetCurPopPos_def pop_ex2_def bsearch.simps Let_def)

theorem updatePop_sorted_prefix_witness:
  "0 < PopSize pop_ex2 \<and> length (PopParams pop_ex2) = PopSize pop_ex2 \<and>
   costs_num [(Fin 5, [3], False, 0), (Fin 4, [2], False, 0), (Fin 9, [1], True, 3)] \<and>
   PopSize pop_ex2 \<le> length [(Fin 5, [3::int], False, 0::nat), (Fin 4, [2], False, 0), (Fin 9, [1], True, 3)] \<and>
   ranks_sorted (PopParams (runUpdates [(Fin 5, [3], False, 0), (Fin 4, [2], False, 0), (Fin 9, [1], True, 3)]
        (resetCurPopPos pop_ex2)))
     (CurPopSize (runUpdates [(Fin 5, [3], False, 0), (Fin 4, [2], False, 0), (Fin 9, [1], True, 3)]
        (resetCurPopPos pop_ex2)))"
proof -
  have h1: "0 < PopSize pop_ex2" by (simp add: pop_ex2_def)
  have h2: "length (PopParams pop_ex2) = PopSize pop_ex2" by (simp add: pop_ex2_def)
  have h3: "costs_num [(Fin 5, [3], False, 0), (Fin 4, [2], False, 0), (Fin 9, [1], True, 3)]"
    by (simp add: costs_num_def)
  have h4: "PopSize pop_ex2 \<le> length [(Fin 5, [3::int], False, 0::nat), (Fin 4, [2], False, 0), (Fin 9, [1], True, 3)]"
    by (simp add: pop_ex2_def)
  from updatePop_sorted_prefix[OF h1 h2 h3] h4 h1 h2 h3 show ?thesis by blast
qed

text \<open>
  Claim C1 as stated fails during the fill phase. \<open>resetCurPopPos\<close> sets
  \<open>CurPopSize = PopSize\<close> and \<open>CurPopPos = 0\<close> and leaves the slots as they are (the
  records of the previous run, as on every \<open>init\<close> after the first); one insertion of
  cost 5 later, index 0 holds rank 5 and index 1 still the old rank 2, both below
  \<open>CurPopSize = 2\<close>.
\<close>

theorem updatePop_sorted_counterexample:
  "\<not> ranks_sorted (PopParams (runUpdates [(Fin 5, [3], False, 0)] (resetCurPopPos pop_ex2)))
        (CurPopSize (runUpdates [(Fin 5, [3], False, 0)] (resetCurPopPos pop_ex2)))"
proof -
  have e: "runUpdates [(Fin 5, [3], False, 0)] (resetCurPopPos pop_ex2) =
     (resetCurPopPos pop_ex2)\<lparr>CurPopPos := 1, NeedCentUpdate := True,
      PopParams := [\<lparr>item_params = [3], item_obj = Fin 5, item_rank = Fin 5\<rparr>,
                    \<lparr>item_params = [8], item_obj = Fin 2, item_rank = Fin 2\<rparr>]\<rparr>"
    by (simp add: updatePop_def resetCurPopPos_def pop_ex2_def bsearch.simps Let_def)
  have "\<not> dle (Fin 5) (Fin 2)" by simp
  then have "\<not> ranks_sorted [\<lparr>item_params = [3], item_obj = Fin 5, item_rank = Fin 5\<rparr>,
                    \<lparr>item_params = [8], item_obj = Fin 2, item_rank = Fin 2\<rparr>] 2"
    unfolding ranks_sorted_def
    by (intro notI) (drule spec[of _ 0], drule spec[of _ 1], simp)
  then show ?thesis unfolding e by (simp add: resetCurPopPos_def pop_ex2_def)
qed

section \<open>Population: rejection and the returned index\<close>

lemma updatePop_fst:
  "fst (updatePop c ps d t s) =
     (if \<not> CurPopPos s < PopSize s \<and> dgt c (item_rank (PopParams s ! upd_ri s)) then PopSize s
      else if \<not> CurPopPos s < PopSize s \<and>
              isEqual c (item_rank (PopParams s ! bsearch (PopParams s) c 0 (upd_ri s)))
           then PopSize s
      else bsearch (PopParams s) c 0 (upd_ri s))"
  by (simp add: updatePop_def Let_def upd_ri_def)

lemma updatePop_reject:
  assumes "\<not> CurPopPos s < PopSize s" and "dgt c (item_rank (PopParams s ! (PopSize s - 1)))"
  shows "updatePop c ps d t s = (PopSize s, s)"
  using assms by (simp add: updatePop_def Let_def)

lemma updatePop_stored:
  assumes wf: "pop_wf s"
    and acc: "CurPopPos s < PopSize s \<or> \<not> dgt c (item_rank (PopParams s ! (PopSize s - 1)))"
  shows "bsearch (PopParams s) c 0 (upd_ri s) < PopSize s \<and>
         PopParams (snd (updatePop c ps d t s)) ! bsearch (PopParams s) c 0 (upd_ri s) = upd_rp c ps"
proof -
  let ?P = "PopParams s" and ?ri = "upd_ri s"
  let ?p = "bsearch ?P c 0 ?ri"
  let ?s' = "snd (updatePop c ps d t s)"
  from wf have len: "length ?P = PopSize s" and pos: "0 < PopSize s"
    and nle: "CurPopPos s \<le> PopSize s" unfolding pop_wf_def by auto
  have ri: "?ri < length ?P" using len pos nle unfolding upd_ri_def by auto
  have p: "?p \<le> ?ri" using bsearch_inv[of 0 ?ri ?P c] by simp
  have plen: "?p < length ?P" using p ri by linarith
  have nrej: "(\<not> CurPopPos s < PopSize s \<and> dgt c (item_rank (?P ! ?ri))) = False"
    using acc unfolding upd_ri_def by auto
  obtain rep where PP: "PopParams ?s' =
       (if \<not> CurPopPos s < PopSize s \<and> dgt c (item_rank (?P ! ?ri)) then ?P
        else if rep then ?P[?p := upd_rp c ps]
        else take ?p ?P @ [upd_rp c ps] @ take (?ri - ?p) (drop ?p ?P) @ drop (?ri + 1) ?P)"
    using updatePop_PopParams_ex[of s c ps d t] by blast
  have "PopParams ?s' ! ?p = upd_rp c ps"
  proof (cases rep)
    case True
    then have "PopParams ?s' = ?P[?p := upd_rp c ps]" unfolding PP nrej by simp
    then show ?thesis using plen by simp
  next
    case False
    then have e: "PopParams ?s' = take ?p ?P @ (upd_rp c ps # take (?ri - ?p) (drop ?p ?P) @ drop (?ri + 1) ?P)"
      unfolding PP nrej by simp
    have l: "length (take ?p ?P) = ?p" using plen by simp
    show ?thesis unfolding e using l by (metis nth_append_length)
  qed
  then show ?thesis using plen len by simp
qed

lemma to_double_0 [simp]: "to_double 0 = Fin 0"
  by (simp add: to_double_def)

lemma isEqual_refl: "isEqual (Fin x) (Fin x)"
  by (simp add: isEqual_def dsub_def)

lemma isEqual_inf: "\<not> isEqual PInf PInf" "\<not> isEqual NInf NInf"
  by (simp_all add: isEqual_def dsub_def)

lemma dle_antisym: "dle a b \<Longrightarrow> dle b a \<Longrightarrow> a = b"
  by (cases a; cases b) simp_all

text \<open>A full, sorted population: the binary search for the worst rank itself finds a
  record of exactly that rank.\<close>

lemma bsearch_worst:
  assumes wf: "pop_wf s" and so: "pop_sorted s" and full: "CurPopPos s = PopSize s"
    and c: "c = item_rank (PopParams s ! (PopSize s - 1))"
  shows "item_rank (PopParams s ! bsearch (PopParams s) c 0 (PopSize s - 1)) = c"
proof -
  let ?P = "PopParams s" and ?ri = "PopSize s - 1"
  let ?p = "bsearch ?P c 0 ?ri"
  from wf have len: "length ?P = PopSize s" and pos: "0 < PopSize s" unfolding pop_wf_def by auto
  from so full have srt: "ranks_sorted ?P (PopSize s)" and num: "ranks_num ?P (PopSize s)"
    unfolding pop_sorted_def by auto
  have riN: "?ri < PopSize s" using pos by simp
  have cn: "c \<noteq> NaN" using num riN unfolding c ranks_num_def by blast
  have srt_ri: "ranks_sorted ?P ?ri" using srt unfolding ranks_sorted_def by auto
  have p: "?p \<le> ?ri" using bsearch_inv[of 0 ?ri ?P c] by simp
  show ?thesis
  proof (cases "?p = ?ri")
    case True
    then show ?thesis using c by simp
  next
    case False
    with p have plt: "?p < ?ri" by simp
    have spec: "(\<forall>k<?p. \<not> dge (item_rank (?P ! k)) c) \<and>
              (\<forall>k. ?p \<le> k \<and> k < ?ri \<longrightarrow> dge (item_rank (?P ! k)) c)"
    proof (rule bsearch_spec[OF srt_ri])
      show "(0::nat) \<le> ?ri" by simp
      show "?ri \<le> ?ri" by simp
      show "\<forall>k<0::nat. \<not> dge (item_rank (?P ! k)) c" by simp
      show "\<forall>k. ?ri \<le> k \<and> k < ?ri \<longrightarrow> dge (item_rank (?P ! k)) c"
      proof (intro allI impI)
        fix k assume "?ri \<le> k \<and> k < ?ri"
        then have False by linarith
        then show "dge (item_rank (?P ! k)) c" by simp
      qed
    qed
    from spec plt have "dge (item_rank (?P ! ?p)) c" by blast
    then have a: "dle c (item_rank (?P ! ?p))" by (rule dge_dle)
    from srt plt riN have "dle (item_rank (?P ! ?p)) (item_rank (?P ! ?ri))"
      unfolding ranks_sorted_def by blast
    then have b: "dle (item_rank (?P ! ?p)) c" unfolding c .
    from dle_antisym[OF b a] show ?thesis .
  qed
qed

text \<open>
  Claim C2, as amended. On a full, sorted population: a candidate whose cost strictly
  exceeds the rank of the last stored record (index \<open>PopSize - 1\<close>) is rejected, the
  population is returned unchanged and the result is \<open>PopSize\<close>. Every other candidate
  is stored, at the position \<open>p\<close> the binary search finds, and the result is \<open>p\<close>,
  except that it is \<open>PopSize\<close> when the cost is \<open>isEqual\<close> to the rank the search
  found at \<open>p\<close>. In particular a candidate whose finite cost equals the worst rank is
  stored and reported with \<open>PopSize\<close>, an index not below the current size; an infinite
  cost that equals the worst rank is not \<open>isEqual\<close> to it (the difference is NaN), and
  it is stored and reported with its position.
\<close>

theorem updatePop_full_outcome:
  assumes wf: "pop_wf s" and so: "pop_sorted s" and full: "CurPopPos s = PopSize s"
    and cs: "CurPopSize s \<le> PopSize s"
  shows "(dgt c (item_rank (PopParams s ! (PopSize s - 1))) \<longrightarrow>
            updatePop c ps d t s = (PopSize s, s)) \<and>
         (\<not> dgt c (item_rank (PopParams s ! (PopSize s - 1))) \<longrightarrow>
            bsearch (PopParams s) c 0 (PopSize s - 1) < PopSize s \<and>
            PopParams (snd (updatePop c ps d t s)) ! bsearch (PopParams s) c 0 (PopSize s - 1) =
              \<lparr>item_params = ps, item_obj = c, item_rank = c\<rparr> \<and>
            fst (updatePop c ps d t s) =
              (if isEqual c (item_rank (PopParams s ! bsearch (PopParams s) c 0 (PopSize s - 1)))
               then PopSize s else bsearch (PopParams s) c 0 (PopSize s - 1))) \<and>
         (c = Fin x \<and> c = item_rank (PopParams s ! (PopSize s - 1)) \<longrightarrow>
            fst (updatePop c ps d t s) = PopSize s \<and> CurPopSize s \<le> fst (updatePop c ps d t s) \<and>
            PopParams (snd (updatePop c ps d t s)) ! bsearch (PopParams s) c 0 (PopSize s - 1) =
              \<lparr>item_params = ps, item_obj = c, item_rank = c\<rparr>) \<and>
         ((c = PInf \<or> c = NInf) \<and> c = item_rank (PopParams s ! (PopSize s - 1)) \<longrightarrow>
            fst (updatePop c ps d t s) = bsearch (PopParams s) c 0 (PopSize s - 1) \<and>
            fst (updatePop c ps d t s) < PopSize s \<and>
            PopParams (snd (updatePop c ps d t s)) ! bsearch (PopParams s) c 0 (PopSize s - 1) =
              \<lparr>item_params = ps, item_obj = c, item_rank = c\<rparr>)"
proof -
  have nf: "\<not> CurPopPos s < PopSize s" using full by simp
  have ri: "upd_ri s = PopSize s - 1" using full by (simp add: upd_ri_def)
  have A: "dgt c (item_rank (PopParams s ! (PopSize s - 1))) \<longrightarrow>
            updatePop c ps d t s = (PopSize s, s)"
    using updatePop_reject[OF nf] by blast
  have B: "\<not> dgt c (item_rank (PopParams s ! (PopSize s - 1))) \<longrightarrow>
            bsearch (PopParams s) c 0 (PopSize s - 1) < PopSize s \<and>
            PopParams (snd (updatePop c ps d t s)) ! bsearch (PopParams s) c 0 (PopSize s - 1) =
              \<lparr>item_params = ps, item_obj = c, item_rank = c\<rparr> \<and>
            fst (updatePop c ps d t s) =
              (if isEqual c (item_rank (PopParams s ! bsearch (PopParams s) c 0 (PopSize s - 1)))
               then PopSize s else bsearch (PopParams s) c 0 (PopSize s - 1))"
  proof
    assume nd: "\<not> dgt c (item_rank (PopParams s ! (PopSize s - 1)))"
    then have acc: "CurPopPos s < PopSize s \<or> \<not> dgt c (item_rank (PopParams s ! (PopSize s - 1)))"
      by simp
    from updatePop_stored[OF wf acc, of ps d t]
    have st: "bsearch (PopParams s) c 0 (PopSize s - 1) < PopSize s"
      "PopParams (snd (updatePop c ps d t s)) ! bsearch (PopParams s) c 0 (PopSize s - 1) =
        \<lparr>item_params = ps, item_obj = c, item_rank = c\<rparr>"
      unfolding ri upd_rp_def by simp_all
    have f: "fst (updatePop c ps d t s) =
              (if isEqual c (item_rank (PopParams s ! bsearch (PopParams s) c 0 (PopSize s - 1)))
               then PopSize s else bsearch (PopParams s) c 0 (PopSize s - 1))"
      unfolding updatePop_fst ri using nf nd by simp
    from st f show "bsearch (PopParams s) c 0 (PopSize s - 1) < PopSize s \<and>
            PopParams (snd (updatePop c ps d t s)) ! bsearch (PopParams s) c 0 (PopSize s - 1) =
              \<lparr>item_params = ps, item_obj = c, item_rank = c\<rparr> \<and>
            fst (updatePop c ps d t s) =
              (if isEqual c (item_rank (PopParams s ! bsearch (PopParams s) c 0 (PopSize s - 1)))
               then PopSize s else bsearch (PopParams s) c 0 (PopSize s - 1))" by blast
  qed
  have W: "c = item_rank (PopParams s ! (PopSize s - 1)) \<longrightarrow>
            \<not> dgt c (item_rank (PopParams s ! (PopSize s - 1))) \<and>
            item_rank (PopParams s ! bsearch (PopParams s) c 0 (PopSize s - 1)) = c"
  proof
    assume c: "c = item_rank (PopParams s ! (PopSize s - 1))"
    have nd: "\<not> dgt c (item_rank (PopParams s ! (PopSize s - 1)))"
      unfolding c[symmetric] by (cases c) simp_all
    have "item_rank (PopParams s ! bsearch (PopParams s) c 0 (PopSize s - 1)) = c"
      by (rule bsearch_worst[OF wf so full c])
    with nd show "\<not> dgt c (item_rank (PopParams s ! (PopSize s - 1))) \<and>
            item_rank (PopParams s ! bsearch (PopParams s) c 0 (PopSize s - 1)) = c" by simp
  qed
  have C: "c = Fin x \<and> c = item_rank (PopParams s ! (PopSize s - 1)) \<longrightarrow>
            fst (updatePop c ps d t s) = PopSize s \<and> CurPopSize s \<le> fst (updatePop c ps d t s) \<and>
            PopParams (snd (updatePop c ps d t s)) ! bsearch (PopParams s) c 0 (PopSize s - 1) =
              \<lparr>item_params = ps, item_obj = c, item_rank = c\<rparr>"
  proof
    assume h: "c = Fin x \<and> c = item_rank (PopParams s ! (PopSize s - 1))"
    then have cw: "c = item_rank (PopParams s ! (PopSize s - 1))" by (rule conjunct2)
    from W cw have nd: "\<not> dgt c (item_rank (PopParams s ! (PopSize s - 1)))"
      and r: "item_rank (PopParams s ! bsearch (PopParams s) c 0 (PopSize s - 1)) = c" by blast+
    have eq: "isEqual c (item_rank (PopParams s ! bsearch (PopParams s) c 0 (PopSize s - 1)))"
      unfolding r using h isEqual_refl[of x] by simp
    from B nd eq have "fst (updatePop c ps d t s) = PopSize s"
      and "PopParams (snd (updatePop c ps d t s)) ! bsearch (PopParams s) c 0 (PopSize s - 1) =
              \<lparr>item_params = ps, item_obj = c, item_rank = c\<rparr>" by simp_all
    with cs show "fst (updatePop c ps d t s) = PopSize s \<and> CurPopSize s \<le> fst (updatePop c ps d t s) \<and>
            PopParams (snd (updatePop c ps d t s)) ! bsearch (PopParams s) c 0 (PopSize s - 1) =
              \<lparr>item_params = ps, item_obj = c, item_rank = c\<rparr>" by simp
  qed
  have D: "(c = PInf \<or> c = NInf) \<and> c = item_rank (PopParams s ! (PopSize s - 1)) \<longrightarrow>
            fst (updatePop c ps d t s) = bsearch (PopParams s) c 0 (PopSize s - 1) \<and>
            fst (updatePop c ps d t s) < PopSize s \<and>
            PopParams (snd (updatePop c ps d t s)) ! bsearch (PopParams s) c 0 (PopSize s - 1) =
              \<lparr>item_params = ps, item_obj = c, item_rank = c\<rparr>"
  proof
    assume h: "(c = PInf \<or> c = NInf) \<and> c = item_rank (PopParams s ! (PopSize s - 1))"
    then have cw: "c = item_rank (PopParams s ! (PopSize s - 1))" by (rule conjunct2)
    from W cw have nd: "\<not> dgt c (item_rank (PopParams s ! (PopSize s - 1)))"
      and r: "item_rank (PopParams s ! bsearch (PopParams s) c 0 (PopSize s - 1)) = c" by blast+
    have ne: "\<not> isEqual c (item_rank (PopParams s ! bsearch (PopParams s) c 0 (PopSize s - 1)))"
      unfolding r using h isEqual_inf by auto
    from B nd ne have "bsearch (PopParams s) c 0 (PopSize s - 1) < PopSize s"
      and "fst (updatePop c ps d t s) = bsearch (PopParams s) c 0 (PopSize s - 1)"
      and "PopParams (snd (updatePop c ps d t s)) ! bsearch (PopParams s) c 0 (PopSize s - 1) =
              \<lparr>item_params = ps, item_obj = c, item_rank = c\<rparr>" by simp_all
    then show "fst (updatePop c ps d t s) = bsearch (PopParams s) c 0 (PopSize s - 1) \<and>
            fst (updatePop c ps d t s) < PopSize s \<and>
            PopParams (snd (updatePop c ps d t s)) ! bsearch (PopParams s) c 0 (PopSize s - 1) =
              \<lparr>item_params = ps, item_obj = c, item_rank = c\<rparr>" by simp
  qed
  from A B C D show ?thesis by blast
qed

lemma pop_ex2_inv: "pop_wf pop_ex2" "pop_sorted pop_ex2" "CurPopPos pop_ex2 = PopSize pop_ex2"
  "CurPopSize pop_ex2 \<le> PopSize pop_ex2"
proof -
  show "pop_wf pop_ex2" by (simp add: pop_wf_def pop_ex2_def)
  have l: "CurPopPos pop_ex2 \<le> length (PopParams pop_ex2)" by (simp add: pop_ex2_def)
  show "pop_sorted pop_ex2"
    unfolding pop_sorted_def ranks_sorted_conv[OF l] ranks_num_conv[OF l]
    by (simp add: pop_ex2_def)
  show "CurPopPos pop_ex2 = PopSize pop_ex2" by (simp add: pop_ex2_def)
  show "CurPopSize pop_ex2 \<le> PopSize pop_ex2" by (simp add: pop_ex2_def)
qed

lemma pop_exinf_inv: "pop_wf pop_exinf" "pop_sorted pop_exinf" "CurPopPos pop_exinf = PopSize pop_exinf"
  "CurPopSize pop_exinf \<le> PopSize pop_exinf"
proof -
  show "pop_wf pop_exinf" by (simp add: pop_wf_def pop_exinf_def)
  have l: "CurPopPos pop_exinf \<le> length (PopParams pop_exinf)" by (simp add: pop_exinf_def)
  show "pop_sorted pop_exinf"
    unfolding pop_sorted_def ranks_sorted_conv[OF l] ranks_num_conv[OF l]
    by (simp add: pop_exinf_def)
  show "CurPopPos pop_exinf = PopSize pop_exinf" by (simp add: pop_exinf_def)
  show "CurPopSize pop_exinf \<le> PopSize pop_exinf" by (simp add: pop_exinf_def)
qed

theorem updatePop_full_outcome_witness:
  "pop_wf pop_ex2 \<and> pop_sorted pop_ex2 \<and> CurPopPos pop_ex2 = PopSize pop_ex2 \<and>
   CurPopSize pop_ex2 \<le> PopSize pop_ex2 \<and>
   dgt (Fin 3) (item_rank (PopParams pop_ex2 ! (PopSize pop_ex2 - 1))) \<and>
   updatePop (Fin 3) [7] True 3 pop_ex2 = (PopSize pop_ex2, pop_ex2) \<and>
   \<not> dgt (Fin (3 / 2)) (item_rank (PopParams pop_ex2 ! (PopSize pop_ex2 - 1))) \<and>
   fst (updatePop (Fin (3 / 2)) [7] True 3 pop_ex2) = 1 \<and>
   Fin 2 = item_rank (PopParams pop_ex2 ! (PopSize pop_ex2 - 1)) \<and>
   fst (updatePop (Fin 2) [7] True 3 pop_ex2) = PopSize pop_ex2 \<and>
   pop_wf pop_exinf \<and> pop_sorted pop_exinf \<and> CurPopPos pop_exinf = PopSize pop_exinf \<and>
   PInf = item_rank (PopParams pop_exinf ! (PopSize pop_exinf - 1)) \<and>
   fst (updatePop PInf [7] True 3 pop_exinf) = 1"
proof -
  have a: "dgt (Fin 3) (item_rank (PopParams pop_ex2 ! (PopSize pop_ex2 - 1)))"
    by (simp add: pop_ex2_def)
  have b: "\<not> dgt (Fin (3 / 2)) (item_rank (PopParams pop_ex2 ! (PopSize pop_ex2 - 1)))"
    by (simp add: pop_ex2_def)
  have b1: "bsearch (PopParams pop_ex2) (Fin (3 / 2)) 0 (PopSize pop_ex2 - 1) = 1"
    by (simp add: pop_ex2_def bsearch.simps)
  have b2: "\<not> isEqual (Fin (3 / 2)) (item_rank (PopParams pop_ex2 ! 1))"
  proof -
    have d: "to_double (2 + - (3 / 2)) = Fin (1 / 2)"
      using to_double_int_div[of 1 1] by simp
    have s: "to_double (\<bar>2\<bar> + \<bar>3 / 2\<bar>) = Fin (7 / 2)"
      using to_double_int_div[of 7 1] by simp
    have m: "to_double (7 / 2 * (1 / 2 ^ 52)) = Fin (7 / 2 ^ 53)"
      using to_double_int_div[of 7 53] by simp
    have r: "item_rank (PopParams pop_ex2 ! 1) = Fin 2" by (simp add: pop_ex2_def)
    show ?thesis unfolding r isEqual_def dsub_def Let_def
      by (simp only: dneg.simps dadd.simps dabs.simps dmul.simps d s m) simp
  qed
  have c: "Fin 2 = item_rank (PopParams pop_ex2 ! (PopSize pop_ex2 - 1))"
    by (simp add: pop_ex2_def)
  have e: "PInf = item_rank (PopParams pop_exinf ! (PopSize pop_exinf - 1))"
    by (simp add: pop_exinf_def)
  have e1: "bsearch (PopParams pop_exinf) PInf 0 (PopSize pop_exinf - 1) = 1"
    by (simp add: pop_exinf_def bsearch.simps)
  note t1 = updatePop_full_outcome[OF pop_ex2_inv, where c = "Fin 3" and ps = "[7]" and d = True and t = 3]
  note t2 = updatePop_full_outcome[OF pop_ex2_inv, where c = "Fin (3 / 2)" and ps = "[7]" and d = True and t = 3]
  note t3 = updatePop_full_outcome[OF pop_ex2_inv, where c = "Fin 2" and x = 2 and ps = "[7]" and d = True and t = 3]
  note t4 = updatePop_full_outcome[OF pop_exinf_inv, where c = PInf and ps = "[7]" and d = True and t = 3]
  from t1 a have r1: "updatePop (Fin 3) [7] True 3 pop_ex2 = (PopSize pop_ex2, pop_ex2)" by blast
  from t2 b have "fst (updatePop (Fin (3 / 2)) [7] True 3 pop_ex2) =
      (if isEqual (Fin (3 / 2)) (item_rank (PopParams pop_ex2 !
           bsearch (PopParams pop_ex2) (Fin (3 / 2)) 0 (PopSize pop_ex2 - 1)))
       then PopSize pop_ex2 else bsearch (PopParams pop_ex2) (Fin (3 / 2)) 0 (PopSize pop_ex2 - 1))"
    by blast
  then have r2: "fst (updatePop (Fin (3 / 2)) [7] True 3 pop_ex2) = 1"
    unfolding b1 using b2 by simp
  from t3 c have r3: "fst (updatePop (Fin 2) [7] True 3 pop_ex2) = PopSize pop_ex2" by blast
  from t4 e have "fst (updatePop PInf [7] True 3 pop_exinf) =
      bsearch (PopParams pop_exinf) PInf 0 (PopSize pop_exinf - 1)" by blast
  then have r4: "fst (updatePop PInf [7] True 3 pop_exinf) = 1" unfolding e1 .
  from pop_ex2_inv pop_exinf_inv(1,2,3) a b c e r1 r2 r3 r4 show ?thesis by blast
qed

text \<open>
  Claim C2 as stated fails for a cost equal to the worst rank: the candidate is stored
  (the record at index 1 is replaced), yet the result is \<open>PopSize\<close>, the value that
  also reports a rejection.
\<close>

theorem updatePop_equal_cost_counterexample:
  "\<not> dgt (Fin 2) (item_rank (PopParams pop_ex2 ! (PopSize pop_ex2 - 1))) \<and>
   CurPopSize pop_ex2 \<le> fst (updatePop (Fin 2) [7] False 0 pop_ex2) \<and>
   PopParams (snd (updatePop (Fin 2) [7] False 0 pop_ex2)) =
     [\<lparr>item_params = [0], item_obj = Fin 1, item_rank = Fin 1\<rparr>,
      \<lparr>item_params = [7], item_obj = Fin 2, item_rank = Fin 2\<rparr>] \<and>
   PopParams (snd (updatePop (Fin 2) [7] False 0 pop_ex2)) \<noteq> PopParams pop_ex2"
  by (simp add: updatePop_def pop_ex2_def bsearch.simps Let_def isEqual_refl)


section \<open>Population: the centroid\<close>

lemma addParams_nth: "i < n \<Longrightarrow> addParams n tp p ! i = tp ! i + p ! i"
  by (simp add: addParams_def)

lemma copyParams_nth: "i < n \<Longrightarrow> copyParams n src ! i = src ! i"
  by (simp add: copyParams_def)

lemma scaleParams_nth:
  "i < n \<Longrightarrow> scaleParams n tp cm ! i = trunc (rd (rd (real_of_int (tp ! i)) * cm))"
  by (simp add: scaleParams_def)

lemma length_scaleParams: "length (scaleParams n tp cm) = n"
  by (simp add: scaleParams_def)

lemma fold_addParams_nth:
  assumes "i < n"
  shows "fold (\<lambda>j tp. addParams n tp (item_params (P ! j))) js tp0 ! i =
         tp0 ! i + (\<Sum>j\<leftarrow>js. item_params (P ! j) ! i)"
  using assms
proof (induction js arbitrary: tp0)
  case Nil
  then show ?case by simp
next
  case (Cons j js)
  have "fold (\<lambda>j tp. addParams n tp (item_params (P ! j))) (j # js) tp0 ! i =
        fold (\<lambda>j tp. addParams n tp (item_params (P ! j))) js
          (addParams n tp0 (item_params (P ! j))) ! i" by simp
  also have "\<dots> = addParams n tp0 (item_params (P ! j)) ! i + (\<Sum>j\<leftarrow>js. item_params (P ! j) ! i)"
    by (rule Cons.IH[OF Cons.prems])
  also have "\<dots> = tp0 ! i + (\<Sum>j\<leftarrow>j # js. item_params (P ! j) ! i)"
    using Cons.prems by (simp add: addParams_nth)
  finally show ?case .
qed

lemma col_sum_split:
  assumes "0 < N"
  shows "col_sum P N i = item_params (P ! 0) ! i + (\<Sum>j\<leftarrow>[1..<N]. item_params (P ! j) ! i)"
proof -
  have "[0..<N] = 0 # [1..<N]" using assms by (simp add: upt_conv_Cons)
  then show ?thesis unfolding col_sum_def by simp
qed

text \<open>
  What the single-pass branch computes (at most \<open>BatchCount = 31\<close> records): the sum of
  the coordinate over all \<open>PopSize\<close> stored records, converted to a double, times the
  double \<open>1.0 / PopSize\<close>, truncated toward zero. \<open>CurPopSize\<close> is not read.
\<close>

lemma updateCentroid_single_pass_value:
  assumes "0 < PopSize s" and "PopSize s \<le> BatchCount" and "i < ParamCount s"
  shows "CentParams (updateCentroid s) ! i =
           trunc (rd (rd (real_of_int (col_sum (PopParams s) (PopSize s) i)) *
                      rd (1 / real (PopSize s))))"
    and "length (CentParams (updateCentroid s)) = ParamCount s"
    and "\<not> NeedCentUpdate (updateCentroid s)"
proof -
  let ?n = "ParamCount s" and ?P = "PopParams s" and ?N = "PopSize s"
  let ?tp = "fold (\<lambda>j tp. addParams ?n tp (item_params (?P ! j))) [1..<?N]
               (copyParams ?n (item_params (?P ! 0)))"
  have cp: "CentParams (updateCentroid s) = scaleParams ?n ?tp (rd (1 / real ?N))"
    and nc: "\<not> NeedCentUpdate (updateCentroid s)"
    using assms(2) by (simp_all add: updateCentroid_def Let_def)
  have "?tp ! i = copyParams ?n (item_params (?P ! 0)) ! i +
                    (\<Sum>j\<leftarrow>[1..<?N]. item_params (?P ! j) ! i)"
    by (rule fold_addParams_nth[OF assms(3)])
  also have "\<dots> = col_sum ?P ?N i"
    unfolding col_sum_split[OF assms(1)] using assms(3) by (simp add: copyParams_nth)
  finally have tp: "?tp ! i = col_sum ?P ?N i" .
  show "CentParams (updateCentroid s) ! i =
           trunc (rd (rd (real_of_int (col_sum ?P ?N i)) * rd (1 / real ?N)))"
    unfolding cp scaleParams_nth[OF assms(3)] tp ..
  show "length (CentParams (updateCentroid s)) = ?n"
    unfolding cp by (rule length_scaleParams)
  show "\<not> NeedCentUpdate (updateCentroid s)" by (rule nc)
qed

text \<open>
  The rounding is part of the value: the sum \<open>2^58 + 30\<close> of two coordinates
  \<open>2^57 + 15\<close> becomes the double \<open>2^58\<close>, and the centroid \<open>2^57\<close>.
\<close>

lemma rd_sum_big: "rd (2 ^ 58 + 30) = 2 ^ 58"
  by code_simp

lemma updateCentroid_rounds:
  "col_sum (PopParams pop_big2) (PopSize pop_big2) 0 = 2 ^ 58 + 30 \<and>
   CentParams (updateCentroid pop_big2) = [2 ^ 57]"
proof -
  have f: "0 < PopSize pop_big2" "PopSize pop_big2 \<le> BatchCount" "0 < ParamCount pop_big2"
    by (simp_all add: pop_big2_def BatchCount_def)
  have cs: "col_sum (PopParams pop_big2) (PopSize pop_big2) 0 = 2 ^ 58 + 30"
    by (simp add: col_sum_def pop_big2_def upt_rec)
  have p: "(2::real) ^ 57 = real_of_int 1 * pow2 57" by (simp add: pow2_def)
  have r: "rd ((2::real) ^ 57) = 2 ^ 57" by (rule rd_repr[OF p]) simp_all
  have m: "rd (2 ^ 58 * (1 / 2)) = 2 ^ 57" using r by simp
  have h: "rd (1 / real (PopSize pop_big2)) = 1 / 2" by (simp add: pop_big2_def)
  have s: "rd (real_of_int (2 ^ 58 + 30)) = 2 ^ 58" using rd_sum_big by simp
  have t: "trunc ((2::real) ^ 57) = 2 ^ 57"
  proof -
    have "\<lfloor>real_of_int (2 ^ 57)\<rfloor> = 2 ^ 57" by (rule floor_of_int)
    then show ?thesis by (simp add: trunc_def)
  qed
  note v = updateCentroid_single_pass_value[OF f]
  have "CentParams (updateCentroid pop_big2) ! 0 = 2 ^ 57"
    unfolding v(1) cs s h m t ..
  moreover have "length (CentParams (updateCentroid pop_big2)) = 1"
    unfolding v(2) by (simp add: pop_big2_def)
  ultimately have "CentParams (updateCentroid pop_big2) = [2 ^ 57]"
    by (cases "CentParams (updateCentroid pop_big2)") simp_all
  with cs show ?thesis by simp
qed

text \<open>
  Claim C3 says that after \<open>updateCentroid\<close> the centroid is the arithmetic mean of the
  \<open>CurPopSize\<close> records on both summation paths. In the batched branch (more than
  \<open>BatchCount = 31\<close> records) the code does not compute it: \<open>j\<close> is advanced only inside
  the inner loop, so each batch after the first starts at the index the previous one
  ended on; that record is summed twice and the last records of the population are never
  read. With 32 records, all active, whose coordinate sum is 3200 and whose mean is 100,
  the centroid comes out as 0.
\<close>

theorem updateCentroid_batched_slip:
  "PopSize pop_ex32 = 32 \<and> CurPopSize pop_ex32 = 32 \<and> BatchCount = 31 \<and>
   col_sum (PopParams pop_ex32) (CurPopSize pop_ex32) 0 = 3200 \<and>
   real_of_int (col_sum (PopParams pop_ex32) (CurPopSize pop_ex32) 0) /
     real (CurPopSize pop_ex32) = 100 \<and>
   CentParams (updateCentroid pop_ex32) = [0]"
  by code_simp

text \<open>
  The second way the code departs from the mean of the \<open>CurPopSize\<close> records:
  \<open>updateCentroid\<close> reads \<open>PopSize\<close>, never \<open>CurPopSize\<close>, although its comment says
  "recalculates centroid based on the current population size". After \<open>decrCurPopSize\<close>
  the one active record holds 0, and the centroid is 4, the mean of both stored records.
\<close>

lemma updateCentroid_active_size:
  "CurPopSize (decrCurPopSize pop_ex2) = 1 \<and> PopSize (decrCurPopSize pop_ex2) = 2 \<and>
   CentParams (updateCentroid (decrCurPopSize pop_ex2)) = [4] \<and>
   col_sum (PopParams (decrCurPopSize pop_ex2)) (CurPopSize (decrCurPopSize pop_ex2)) 0 = 0"
proof -
  have a: "CurPopSize (decrCurPopSize pop_ex2) = 1" "PopSize (decrCurPopSize pop_ex2) = 2"
    by (simp_all add: decrCurPopSize_def pop_ex2_def)
  have b: "CentParams (updateCentroid (decrCurPopSize pop_ex2)) = [4]"
    by (simp add: updateCentroid_def decrCurPopSize_def pop_ex2_def BatchCount_def Let_def
        copyParams_def addParams_def scaleParams_def trunc_def upt_conv_Cons)
  have c: "col_sum (PopParams (decrCurPopSize pop_ex2)) 1 0 = 0"
    by (simp add: col_sum_def decrCurPopSize_def pop_ex2_def)
  show ?thesis unfolding a b c using a b c by simp
qed

section \<open>Range wrap: one application reaches a fixed point\<close>

lemma rnd_get_range:
  assumes "raw < 2 ^ 64"
  shows "0 \<le> rnd_get raw" and "rnd_get raw < 1"
proof -
  show "0 \<le> rnd_get raw" unfolding rnd_get_def by simp
  have "raw div 2 ^ 11 < 2 ^ 53"
    using assms by (simp add: less_mult_imp_div_less)
  then have "real (raw div 2 ^ 11) < 2 ^ 53"
    by (metis of_nat_less_iff of_nat_numeral of_nat_power)
  then show "rnd_get raw < 1" unfolding rnd_get_def by simp
qed



lemma IntMantMult_pos: "0 < IntMantMult"
  by (simp add: IntMantMult_def)












section \<open>Selector: every selection is a valid choice\<close>

lemma rnd_get_top:
  assumes "raw < 2 ^ 64"
  shows "rnd_get raw \<le> 1 - 1 / 2 ^ 53"
proof -
  have "raw div 2 ^ 11 < 2 ^ 53"
    using assms by (simp add: less_mult_imp_div_less)
  then have "raw div 2 ^ 11 \<le> 2 ^ 53 - 1" by simp
  then have "real (raw div 2 ^ 11) \<le> real (2 ^ 53 - 1)" by (simp only: of_nat_le_iff)
  then have "real (raw div 2 ^ 11) \<le> 2 ^ 53 - 1" by simp
  then show ?thesis unfolding rnd_get_def by (simp add: field_simps)
qed

text \<open>
  A factor of at most \<open>1 - 2^-53\<close>, the largest value \<open>get()\<close> returns, times \<open>N\<close>
  rounds to a double below \<open>N\<close>.
\<close>

lemma trunc_idx:
  assumes "0 \<le> x" and "x \<le> 1 - 1 / 2 ^ 53" and "0 < N"
  shows "nat (trunc (rd (x * real N))) < N"
proof -
  have x0: "0 \<le> x * real N" using assms(1) by simp
  have "x * real N \<le> (1 - 1 / 2 ^ 53) * real N"
    using assms(2) by (intro mult_right_mono) simp_all
  then have le: "x * real N \<le> real N * (1 - 1 / 2 ^ 53)" by (simp add: mult.commute)
  have lt: "rd (x * real N) < real N" by (rule rd_lt_nat[OF x0 assms(3) le])
  have r0: "0 \<le> rd (x * real N)" by (rule rd_nonneg[OF x0])
  from lt have "\<lfloor>rd (x * real N)\<rfloor> < int N" by (simp add: floor_less_iff)
  moreover have "trunc (rd (x * real N)) = \<lfloor>rd (x * real N)\<rfloor>" using r0 by (simp add: trunc_def)
  moreover have "0 \<le> \<lfloor>rd (x * real N)\<rfloor>" using r0 by simp
  ultimately show ?thesis by (simp add: nat_less_iff)
qed

lemma getInt_range: "raw < 2 ^ 64 \<Longrightarrow> 0 < N \<Longrightarrow> getInt N raw < N"
  unfolding getInt_def
  by (rule trunc_idx[OF rnd_get_range(1) rnd_get_top])

lemma rd_le_one: "0 \<le> x \<Longrightarrow> x \<le> 1 \<Longrightarrow> rd x \<le> 1"
  by (rule rd_le_repr[of x 1 1 0]) simp_all

lemma rd_le_top: "0 \<le> x \<Longrightarrow> x \<le> 1 - 1 / 2 ^ 53 \<Longrightarrow> rd x \<le> 1 - 1 / 2 ^ 53"
proof -
  assume x: "0 \<le> x" "x \<le> 1 - 1 / 2 ^ 53"
  have p: "pow2 (- 53) = 1 / 2 ^ 53" by (simp add: pow2_def)
  have y: "(1::real) - 1 / 2 ^ 53 = real_of_int (2 ^ 53 - 1) * pow2 (- 53)"
    unfolding p by simp
  show ?thesis
    by (rule rd_le_repr[OF x y]) simp_all
qed

text \<open>The branch \<open>p == 1.5\<close> of \<open>getPow\<close>: \<open>v * sqrt( v )\<close>, both operations rounded.\<close>

lemma getPow_range:
  assumes "raw < 2 ^ 64"
  shows "0 \<le> getPow (3 / 2) raw \<and> getPow (3 / 2) raw \<le> 1 - 1 / 2 ^ 53"
proof -
  let ?v = "rnd_get raw"
  note g = rnd_get_range[OF assms] rnd_get_top[OF assms]
  have s0: "0 \<le> sqrt ?v" using g(1) by simp
  have s1: "sqrt ?v \<le> 1" using g(2) by (simp add: real_sqrt_le_1_iff)
  have r0: "0 \<le> rd (sqrt ?v)" by (rule rd_nonneg[OF s0])
  have r1: "rd (sqrt ?v) \<le> 1" by (rule rd_le_one[OF s0 s1])
  have m0: "0 \<le> ?v * rd (sqrt ?v)" using g(1) r0 by simp
  have "?v * rd (sqrt ?v) \<le> ?v * 1" using g(1) r1 by (intro mult_left_mono)
  then have m1: "?v * rd (sqrt ?v) \<le> 1 - 1 / 2 ^ 53" using g(3) by simp
  have e: "getPow (3 / 2) raw = rd (?v * rd (sqrt ?v))" by (simp add: getPow_def Let_def)
  show ?thesis unfolding e using rd_nonneg[OF m0] rd_le_top[OF m0 m1] by simp
qed

lemma getPowInt_range: "raw < 2 ^ 64 \<Longrightarrow> 0 < N \<Longrightarrow> getPowInt (3 / 2) N raw < N"
  unfolding getPowInt_def
  by (rule trunc_idx[OF conjunct1[OF getPow_range] conjunct2[OF getPow_range]])

lemma vec_ok_update: "vec_ok n c xs \<Longrightarrow> x < c \<Longrightarrow> vec_ok n c (xs[i := x])"
  unfolding vec_ok_def using set_update_subset_insert[of xs i x] by auto

lemma vec_ok_nth: "vec_ok n c xs \<Longrightarrow> i < n \<Longrightarrow> xs ! i < c"
  unfolding vec_ok_def by simp

lemma rng_ok_skip: "rng_ok rnd \<Longrightarrow> rng_ok (rnd_skip n rnd)"
  by (simp add: rng_ok_def rnd_skip_def)

lemma length_fill: "length (concat (map (\<lambda>i. replicate mul i) [0..<cnt])) = cnt * mul"
  by (induction cnt) simp_all

lemma vec_ok_fill: "vec_ok (cnt * mul) cnt (concat (map (\<lambda>i. replicate mul i) [0..<cnt]))"
  unfolding vec_ok_def using length_fill by auto

lemma swap_mix_ok:
  assumes "rng_ok rnd" and "vec_ok N c sp" and "0 < N"
  shows "vec_ok N c (fst (swap_mix n N sp rnd)) \<and> rng_ok (snd (swap_mix n N sp rnd))"
  using assms
proof (induction n arbitrary: sp rnd)
  case 0
  then show ?case by simp
next
  case (Suc n)
  let ?i1 = "getInt N (rnd 0)" and ?i2 = "getInt N (rnd 1)"
  from Suc.prems(1) have r: "rnd 0 < 2 ^ 64" "rnd 1 < 2 ^ 64" unfolding rng_ok_def by blast+
  have i: "?i1 < N" "?i2 < N" using r Suc.prems(3) by (simp_all add: getInt_range)
  have e: "sp ! ?i1 < c" "sp ! ?i2 < c" using Suc.prems(2) i by (simp_all add: vec_ok_nth)
  have v: "vec_ok N c ((sp[?i1 := sp ! ?i2])[?i2 := sp ! ?i1])"
    using Suc.prems(2) e by (simp add: vec_ok_update)
  have s: "swap_mix (Suc n) N sp rnd =
           swap_mix n N ((sp[?i1 := sp ! ?i2])[?i2 := sp ! ?i1]) (rnd_skip 2 rnd)"
    by (simp add: Let_def)
  show ?case unfolding s
    by (rule Suc.IH[OF rng_ok_skip[OF Suc.prems(1)] v Suc.prems(3)])
qed

lemma reset_slots_ok:
  assumes "rng_ok rnd" and "0 < cnt" and "0 < mul"
  shows "length (fst (reset_slots j cnt mul rnd)) = j \<and>
         (\<forall>xs\<in>set (fst (reset_slots j cnt mul rnd)). vec_ok (cnt * mul) cnt xs) \<and>
         rng_ok (snd (reset_slots j cnt mul rnd))"
  using assms(1)
proof (induction j arbitrary: rnd)
  case 0
  then show ?case by simp
next
  case (Suc j)
  let ?sp0 = "concat (map (\<lambda>i. replicate mul i) [0..<cnt])"
  let ?m = "swap_mix (cnt * mul * 5) (cnt * mul) ?sp0 rnd"
  have pos: "0 < cnt * mul" using assms(2,3) by simp
  from swap_mix_ok[OF Suc.prems vec_ok_fill pos, of "cnt * mul * 5"]
  have m: "vec_ok (cnt * mul) cnt (fst ?m)" "rng_ok (snd ?m)" by simp_all
  note ih = Suc.IH[OF m(2)]
  have e: "reset_slots (Suc j) cnt mul rnd =
           (fst ?m # fst (reset_slots j cnt mul (snd ?m)), snd (reset_slots j cnt mul (snd ?m)))"
    by (simp add: Let_def split: prod.splits)
  show ?case unfolding e using m(1) ih by simp
qed

lemma swap_slots_ok:
  assumes "a < length vs" and "b < length vs"
  shows "length (swap_slots a b vs) = length vs \<and> set (swap_slots a b vs) \<subseteq> set vs"
proof -
  have "set ((vs[a := vs ! b])[b := vs ! a]) \<subseteq> insert (vs ! a) (set (vs[a := vs ! b]))"
    by (rule set_update_subset_insert)
  also have "\<dots> \<subseteq> insert (vs ! a) (insert (vs ! b) (set vs))"
    using set_update_subset_insert[of vs a "vs ! b"] by blast
  also have "\<dots> \<subseteq> set vs" using assms by simp
  finally show ?thesis unfolding swap_slots_def Let_def by simp
qed

lemma sel_inv_alt:
  "sel_inv s = (vecs_ok (CountSp s) (Count s) (Sels s) \<and> Sel s < Count s \<and> Selp s < CountSp s \<and>
                Slot s < SlotCount \<and> CountSp s < 2 ^ 31 \<and> SelPower s = 3 / 2)"
  unfolding sel_inv_def vecs_ok_def vec_ok_def by blast

lemma vecs_ok_update:
  assumes "vecs_ok n c vs" and "vec_ok n c xs"
  shows "vecs_ok n c (vs[i := xs])"
  using assms set_update_subset_insert[of vs i xs] unfolding vecs_ok_def by auto

lemma vecs_ok_swap:
  assumes "vecs_ok n c vs" and "a < SlotCount" and "b < SlotCount"
  shows "vecs_ok n c (swap_slots a b vs)"
proof -
  from assms have "a < length vs" "b < length vs" unfolding vecs_ok_def by simp_all
  from swap_slots_ok[OF this] assms(1) show ?thesis unfolding vecs_ok_def by auto
qed

lemma vecs_ok_nth: "vecs_ok n c vs \<Longrightarrow> i < SlotCount \<Longrightarrow> vec_ok n c (vs ! i)"
  unfolding vecs_ok_def by simp

lemma sel_select_ok:
  assumes "vecs_ok (CountSp s) (Count s) (Sels s)" and "0 < CountSp s"
    and "CountSp s < 2 ^ 31 \<and> SelPower s = 3 / 2" and "rng_ok rnd"
  shows "fst (sel_select rnd s) < Count s \<and> sel_inv (fst (snd (sel_select rnd s))) \<and>
         rng_ok (snd (snd (sel_select rnd s))) \<and>
         Count (fst (snd (sel_select rnd s))) = Count s"
proof -
  let ?slot = "getPowInt 1.5 SlotCount (rnd 0)"
  let ?selp = "getPowInt (SelPower s) (CountSp s) (rnd 1)"
  from assms(4) have r: "rnd 0 < 2 ^ 64" "rnd 1 < 2 ^ 64" unfolding rng_ok_def by blast+
  have pw: "SelPower s = 3 / 2" using assms(3) by simp
  have "getPowInt (3 / 2) SlotCount (rnd 0) < SlotCount"
    using r(1) by (intro getPowInt_range) (simp_all add: SlotCount_def)
  then have sl: "?slot < SlotCount" by simp
  have sp: "?selp < CountSp s" unfolding pw using r(2) assms(2) by (intro getPowInt_range)
  have c: "Sels s ! ?slot ! ?selp < Count s"
    using vec_ok_nth[OF vecs_ok_nth[OF assms(1) sl] sp] .
  have cb: "CountSp s < 2 ^ 31" using assms(3) by simp
  show ?thesis
    unfolding sel_inv_alt using c sl sp assms(1) cb rng_ok_skip[OF assms(4), of 2]
    by (simp add: sel_select_def Let_def pw)
qed

lemma sel_reset_ok:
  assumes "0 < Count s" and "Count s * 5 < 2 ^ 31 \<and> SelPower s = 3 / 2" and "rng_ok rnd"
  shows "sel_inv (fst (sel_reset rnd s)) \<and> rng_ok (snd (sel_reset rnd s)) \<and>
         Count (fst (sel_reset rnd s)) = Count s"
proof -
  let ?r = "reset_slots SlotCount (Count s) 5 rnd"
  let ?s1 = "s\<lparr>SparseMul := 5, CountSp := Count s * 5, Sels := fst ?r\<rparr>"
  from reset_slots_ok[OF assms(3) assms(1), of 5 SlotCount, simplified]
  have r: "length (fst ?r) = SlotCount" "\<forall>xs\<in>set (fst ?r). vec_ok (Count s * 5) (Count s) xs"
    "rng_ok (snd ?r)" by simp_all
  have v: "vecs_ok (CountSp ?s1) (Count ?s1) (Sels ?s1)" using r(1,2) unfolding vecs_ok_def by simp
  have p: "0 < CountSp ?s1" "CountSp ?s1 < 2 ^ 31 \<and> SelPower ?s1 = 3 / 2"
    using assms(1,2) by simp_all
  note sl = sel_select_ok[OF v p r(3)]
  have e: "sel_reset rnd s =
           ((fst (snd (sel_select (snd ?r) ?s1)))\<lparr>IsSelected := False\<rparr>,
            snd (snd (sel_select (snd ?r) ?s1)))"
    by (simp add: sel_reset_def Let_def split: prod.splits)
  from sl have "sel_inv (fst (snd (sel_select (snd ?r) ?s1)))" by blast
  then have "sel_inv ((fst (snd (sel_select (snd ?r) ?s1)))\<lparr>IsSelected := False\<rparr>)"
    unfolding sel_inv_def by simp
  then show ?thesis unfolding e using sl by simp
qed

lemma dp_range:
  assumes "0 \<le> v" and "v \<le> 1" and "n < 2 ^ 53"
  shows "- int n \<le> trunc (rd (rd (- real n * v) * v)) \<and> trunc (rd (rd (- real n * v) * v)) \<le> 0"
proof -
  have nr: "real n = real_of_int (int n) * pow2 0" by simp
  have nb: "\<bar>int n\<bar> < 2 ^ 53" using assms(3) by simp
  text \<open>the first product\<close>
  have a0: "0 \<le> real n * v" using assms(1) by simp
  have "real n * v \<le> real n * 1" using assms(2) by (intro mult_left_mono) simp_all
  then have a1: "real n * v \<le> real n" by simp
  define a where "a = rd (real n * v)"
  have ra: "0 \<le> a" "a \<le> real n"
    unfolding a_def using rd_nonneg[OF a0] rd_le_repr[OF a0 a1 nr nb] by simp_all
  have e1: "rd (- real n * v) = - a" unfolding a_def using rd_minus[of "real n * v"] by simp
  text \<open>the second product\<close>
  have b0: "0 \<le> a * v" using ra(1) assms(1) by simp
  have "a * v \<le> a * 1" using ra(1) assms(2) by (intro mult_left_mono) simp_all
  then have b1: "a * v \<le> real n" using ra(2) by simp
  define b where "b = rd (a * v)"
  have rb: "0 \<le> b" "b \<le> real n"
    unfolding b_def using rd_nonneg[OF b0] rd_le_repr[OF b0 b1 nr nb] by simp_all
  have e2: "rd (rd (- real n * v) * v) = - b"
    unfolding e1 b_def using rd_minus[of "a * v"] by simp
  have "trunc (- b) = \<lceil>- b\<rceil>"
  proof (cases "0 \<le> - b")
    case True
    with rb(1) have z: "- b = 0" by linarith
    show ?thesis unfolding z trunc_def by simp
  next
    case False
    then show ?thesis unfolding trunc_def by simp
  qed
  moreover have "\<lceil>- b\<rceil> \<le> 0" using rb(1) by (simp add: ceiling_le_iff)
  moreover have "- int n \<le> \<lceil>- b\<rceil>"
  proof -
    have "real_of_int (- int n) - 1 < - b" using rb(2) by simp
    then show ?thesis unfolding le_ceiling_iff .
  qed
  ultimately show ?thesis unfolding e2 by simp
qed

lemma vec_ok_shift:
  assumes "vec_ok n c xs" and "x < c" and "np + m < n"
  shows "vec_ok n c (take np xs @ [x] @ take m (drop np xs) @ drop (np + 1 + m) xs)"
proof -
  from assms(1) have len: "length xs = n" and el: "\<forall>y\<in>set xs. y < c" unfolding vec_ok_def by auto
  have l: "length (take np xs @ [x] @ take m (drop np xs) @ drop (np + 1 + m) xs) = n"
    using len assms(3) by simp
  have "set (take np xs @ [x] @ take m (drop np xs) @ drop (np + 1 + m) xs) \<subseteq> insert x (set xs)"
    using set_take_subset[of np xs] set_take_subset[of m "drop np xs"]
      set_drop_subset[of np xs] set_drop_subset[of "np + 1 + m" xs] by auto
  with el assms(2) l show ?thesis unfolding vec_ok_def by auto
qed

lemma sel_incr_fields [simp]:
  "Count (sel_incr v s) = Count s" "CountSp (sel_incr v s) = CountSp s"
  "Sel (sel_incr v s) = Sel s" "Selp (sel_incr v s) = Selp s" "Slot (sel_incr v s) = Slot s"
  "SelPower (sel_incr v s) = SelPower s"
  by (simp_all add: sel_incr_def Let_def)

lemma sel_decr_fields [simp]:
  "Count (sel_decr s) = Count s" "CountSp (sel_decr s) = CountSp s"
  "Sel (sel_decr s) = Sel s" "Selp (sel_decr s) = Selp s" "Slot (sel_decr s) = Slot s"
  "SelPower (sel_decr s) = SelPower s"
  by (simp_all add: sel_decr_def Let_def)

lemma sel_incr_ok:
  assumes inv: "sel_inv s" and v: "0 \<le> v" "v \<le> 1"
  shows "sel_inv (sel_incr v s)"
proof -
  let ?n = "CountSp s" and ?c = "Count s"
  let ?xs = "Sels s ! Slot s"
  let ?dp = "trunc (rd (rd (- real (Selp s) * v) * v))"
  from inv have vs: "vecs_ok ?n ?c (Sels s)" and sel: "Sel s < ?c" and selp: "Selp s < ?n"
    and slot: "Slot s < SlotCount" and pw: "CountSp s < 2 ^ 31 \<and> SelPower s = 3 / 2"
    unfolding sel_inv_alt by auto
  have xs: "vec_ok ?n ?c ?xs" by (rule vecs_ok_nth[OF vs slot])
  have "(2::nat) ^ 31 < 2 ^ 53" by simp
  with selp pw have sb: "Selp s < 2 ^ 53" by linarith
  note dp = dp_range[OF v sb]
  let ?np = "nat (int (Selp s) + ?dp)"
  let ?xs' = "(if ?dp < 0 then
                   (if ?dp = - 1 then (?xs[Selp s := ?xs ! (Selp s - 1)])[Selp s - 1 := Sel s]
                    else take ?np ?xs @ [Sel s] @ take (nat (- ?dp)) (drop ?np ?xs) @
                         drop (?np + 1 + nat (- ?dp)) ?xs)
                 else ?xs)"
  have xs': "vec_ok ?n ?c ?xs'"
  proof (cases "?dp < 0")
    case False
    then show ?thesis using xs by simp
  next
    case True
    show ?thesis
    proof (cases "?dp = - 1")
      case T1: True
      have "Selp s - 1 < ?n" using selp by simp
      then have "?xs ! (Selp s - 1) < ?c" using xs by (simp add: vec_ok_nth)
      then have "vec_ok ?n ?c ((?xs[Selp s := ?xs ! (Selp s - 1)])[Selp s - 1 := Sel s])"
        using xs sel by (simp add: vec_ok_update)
      then show ?thesis using True T1 by simp
    next
      case False
      have "?np + nat (- ?dp) = Selp s" using dp True by linarith
      then have "?np + nat (- ?dp) < ?n" using selp by simp
      from vec_ok_shift[OF xs sel this] show ?thesis using True False by simp
    qed
  qed
  let ?vs = "(Sels s)[Slot s := ?xs']"
  have v1: "vecs_ok ?n ?c ?vs" by (rule vecs_ok_update[OF vs xs'])
  have v2: "vecs_ok ?n ?c (if Slot s > 0 then swap_slots (Slot s) (Slot s - 1) ?vs else ?vs)"
  proof (cases "Slot s > 0")
    case True
    have "Slot s - 1 < SlotCount" using slot by simp
    from vecs_ok_swap[OF v1 slot this] True show ?thesis by simp
  next
    case False
    then show ?thesis using v1 by simp
  qed
  have e: "Sels (sel_incr v s) = (if Slot s > 0 then swap_slots (Slot s) (Slot s - 1) ?vs else ?vs)"
    by (simp add: sel_incr_def Let_def)
  show ?thesis unfolding sel_inv_alt using v2 sel selp slot pw unfolding e[symmetric] by simp
qed

lemma sel_decr_ok:
  assumes inv: "sel_inv s"
  shows "sel_inv (sel_decr s)"
proof -
  let ?n = "CountSp s" and ?c = "Count s"
  let ?xs = "Sels s ! Slot s"
  from inv have vs: "vecs_ok ?n ?c (Sels s)" and sel: "Sel s < ?c" and selp: "Selp s < ?n"
    and slot: "Slot s < SlotCount" and pw: "CountSp s < 2 ^ 31 \<and> SelPower s = 3 / 2"
    unfolding sel_inv_alt by auto
  have xs: "vec_ok ?n ?c ?xs" by (rule vecs_ok_nth[OF vs slot])
  let ?xs' = "(if int (Selp s) < int (CountSp s) - 1
                 then (?xs[Selp s := ?xs ! (Selp s + 1)])[Selp s + 1 := Sel s]
                 else ?xs)"
  have xs': "vec_ok ?n ?c ?xs'"
  proof (cases "int (Selp s) < int (CountSp s) - 1")
    case True
    then have "Selp s + 1 < ?n" by simp
    then have "?xs ! (Selp s + 1) < ?c" using xs by (simp add: vec_ok_nth)
    then have "vec_ok ?n ?c ((?xs[Selp s := ?xs ! (Selp s + 1)])[Selp s + 1 := Sel s])"
      using xs sel by (simp add: vec_ok_update)
    then show ?thesis using True by simp
  next
    case False
    then show ?thesis using xs by simp
  qed
  let ?vs = "(Sels s)[Slot s := ?xs']"
  have v1: "vecs_ok ?n ?c ?vs" by (rule vecs_ok_update[OF vs xs'])
  have v2: "vecs_ok ?n ?c (if Slot s < SlotCount - 1 then swap_slots (Slot s) (Slot s + 1) ?vs else ?vs)"
  proof (cases "Slot s < SlotCount - 1")
    case True
    then have "Slot s + 1 < SlotCount" by simp
    from vecs_ok_swap[OF v1 slot this] True show ?thesis by simp
  next
    case False
    then show ?thesis using v1 by simp
  qed
  have e: "Sels (sel_decr s) = (if Slot s < SlotCount - 1 then swap_slots (Slot s) (Slot s + 1) ?vs else ?vs)"
    by (simp add: sel_decr_def Let_def)
  show ?thesis unfolding sel_inv_alt using v2 sel selp slot pw unfolding e[symmetric] by simp
qed

lemma sel_inv_select:
  assumes "sel_inv s" and "rng_ok rnd"
  shows "fst (sel_select rnd s) < Count s \<and> sel_inv (fst (snd (sel_select rnd s))) \<and>
         rng_ok (snd (snd (sel_select rnd s))) \<and>
         Count (fst (snd (sel_select rnd s))) = Count s"
proof -
  from assms(1) have "vecs_ok (CountSp s) (Count s) (Sels s)" "0 < CountSp s"
    "CountSp s < 2 ^ 31 \<and> SelPower s = 3 / 2"
    unfolding sel_inv_alt by auto
  from sel_select_ok[OF this assms(2)] show ?thesis .
qed

lemma sel_run_ok:
  assumes "sel_inv s" and "rng_ok rnd" and "list_all sel_op_ok ops"
  shows "(\<forall>c\<in>set (fst (sel_run ops s rnd)). c < Count s) \<and>
         sel_inv (fst (snd (sel_run ops s rnd))) \<and>
         rng_ok (snd (snd (sel_run ops s rnd))) \<and>
         Count (fst (snd (sel_run ops s rnd))) = Count s"
  using assms
proof (induction ops arbitrary: s rnd)
  case Nil
  then show ?case by simp
next
  case (Cons op ops)
  from Cons.prems(3) have ok: "list_all sel_op_ok ops" and ok1: "sel_op_ok op" by simp_all
  show ?case
  proof (cases op)
    case Select
    let ?r = "sel_select rnd s"
    note sl = sel_inv_select[OF Cons.prems(1,2)]
    from sl have a: "sel_inv (fst (snd ?r))" and b: "rng_ok (snd (snd ?r))"
      and c: "Count (fst (snd ?r)) = Count s" and d: "fst ?r < Count s" by simp_all
    note ih = Cons.IH[OF a b ok]
    have e: "sel_run (Select # ops) s rnd =
       (fst ?r # fst (sel_run ops (fst (snd ?r)) (snd (snd ?r))),
        snd (sel_run ops (fst (snd ?r)) (snd (snd ?r))))"
      by (simp add: Let_def split: prod.splits)
    show ?thesis unfolding Select e using d ih c by simp
  next
    case (Incr v)
    with ok1 have v: "0 \<le> v" "v \<le> 1" by simp_all
    from Cons.IH[OF sel_incr_ok[OF Cons.prems(1) v] Cons.prems(2) ok]
    show ?thesis unfolding Incr by simp
  next
    case Decr
    from Cons.IH[OF sel_decr_ok[OF Cons.prems(1)] Cons.prems(2) ok]
    show ?thesis unfolding Decr by simp
  qed
qed

text \<open>
  Claim C6. For a selector with at least one choice, the power 1.5 that every selector
  of the sources has, and a buffer length \<open>SlotCount * CountSp = Count * 25\<close> that fits
  an \<open>int\<close> (it is also the bound \<open>CountSp * 5\<close> of the mixing loop), after \<open>reset\<close> and
  through every sequence of \<open>select\<close>, \<open>incr\<close> (with a
  score in \<open>[0; 1]\<close>) and \<open>decr\<close> calls, in any order and for every sequence of
  generator values, every \<open>select\<close> returns a choice below \<open>Count\<close>: the draws
  \<open>getPowInt\<close> and \<open>getInt\<close>, with every product and square root rounded to a double,
  stay below their bound; the five vectors are built from replicas of \<open>0 .. Count - 1\<close>,
  and every later write stores an entry of a vector or the pending choice.
\<close>

theorem select_in_range:
  assumes "0 < Count s0" and "Count s0 * 25 < 2 ^ 31" and "SelPower s0 = 3 / 2"
    and "rng_ok rnd" and "list_all sel_op_ok ops"
  shows "\<forall>c\<in>set (fst (sel_run ops (fst (sel_reset rnd s0)) (snd (sel_reset rnd s0)))). c < Count s0"
proof -
  from assms(2) have "Count s0 * 5 < 2 ^ 31" by linarith
  with assms(3) have p: "Count s0 * 5 < 2 ^ 31 \<and> SelPower s0 = 3 / 2" by simp
  note r = sel_reset_ok[OF assms(1) p assms(4)]
  from r have a: "sel_inv (fst (sel_reset rnd s0))" and b: "rng_ok (snd (sel_reset rnd s0))"
    and c: "Count (fst (sel_reset rnd s0)) = Count s0" by simp_all
  from sel_run_ok[OF a b assms(5)] show ?thesis unfolding c by blast
qed

theorem select_in_range_witness:
  "0 < Count sel_ex \<and> Count sel_ex * 25 < 2 ^ 31 \<and> SelPower sel_ex = 3 / 2 \<and>
   rng_ok (\<lambda>k. 0) \<and>
   list_all sel_op_ok [Select, Incr 1, Select, Decr, Incr (1 / 2), Incr 1, Select] \<and>
   list_all (\<lambda>c. c < Count sel_ex)
     (fst (sel_run [Select, Incr 1, Select, Decr, Incr (1 / 2), Incr 1, Select]
        (fst (sel_reset (\<lambda>k. 0) sel_ex)) (snd (sel_reset (\<lambda>k. 0) sel_ex))))"
proof -
  have h1: "0 < Count sel_ex" by (simp add: sel_ex_def)
  have h2: "Count sel_ex * 25 < 2 ^ 31" by (simp add: sel_ex_def)
  have h2': "SelPower sel_ex = 3 / 2" by (simp add: sel_ex_def)
  have h3: "rng_ok (\<lambda>k. 0)" by (simp add: rng_ok_def)
  have h4: "list_all sel_op_ok [Select, Incr 1, Select, Decr, Incr (1 / 2), Incr 1, Select]"
    by simp
  from select_in_range[OF h1 h2 h2' h3 h4] h1 h2 h2' h3 h4 show ?thesis
    unfolding list_all_iff by blast
qed

section \<open>Parallel populations: the nearest centroid\<close>

lemma calcCentroidDists_loop_eq:
  assumes "k \<le> length PPs"
  shows "calcCentroidDists_loop n PPs Params k s =
         s @ map (\<lambda>P. sqdist n (CentParams P) Params) (drop k PPs)"
  using assms
proof (induction n PPs Params k s rule: calcCentroidDists_loop.induct)
  case (1 n PPs Params k s)
  let ?f = "\<lambda>P. sqdist n (CentParams P) Params"
  show ?case
  proof (cases "k < length PPs")
    case False
    then have e: "calcCentroidDists_loop n PPs Params k s = s"
      by (simp add: calcCentroidDists_loop.simps[of n PPs Params k s])
    have d: "drop k PPs = []" using False by simp
    show ?thesis unfolding e d by simp
  next
    case True
    let ?pc0 = "length PPs - k"
    let ?pc = "(if ?pc0 > 4 then 4 else ?pc0)"
    have d1: "\<And>j. k + j < length PPs \<Longrightarrow> drop (k + j) PPs = PPs ! (k + j) # drop (k + j + 1) PPs"
      by (simp add: Cons_nth_drop_Suc)
    have pcv: "?pc = 4 \<or> ?pc = 3 \<or> ?pc = 2 \<or> ?pc = 1"
    proof (cases "4 < length PPs - k")
      case True
      then show ?thesis by simp
    next
      case False
      then have "?pc = length PPs - k" by simp
      moreover have "length PPs - k = 4 \<or> length PPs - k = 3 \<or>
          length PPs - k = 2 \<or> length PPs - k = 1"
        using False \<open>k < length PPs\<close> by linarith
      ultimately show ?thesis by presburger
    qed
    then consider (four) "?pc = 4" | (three) "?pc = 3" | (two) "?pc = 2" | (one) "?pc = 1"
      by blast
    then show ?thesis
    proof cases
      case four
      then have le: "k + 4 \<le> length PPs" by (auto split: if_splits)
      have ih: "calcCentroidDists_loop n PPs Params (k + 4)
          (s @ [?f (PPs ! (k + 0)), ?f (PPs ! (k + 1)), ?f (PPs ! (k + 2)), ?f (PPs ! (k + 3))]) =
          (s @ [?f (PPs ! (k + 0)), ?f (PPs ! (k + 1)), ?f (PPs ! (k + 2)), ?f (PPs ! (k + 3))]) @
          map ?f (drop (k + 4) PPs)"
        using "1.IH"(1)[OF True refl refl refl four] le four by simp
      have dr: "drop k PPs = PPs ! k # PPs ! (k + 1) # PPs ! (k + 2) # PPs ! (k + 3) #
                  drop (k + 4) PPs"
        using d1[of 0] d1[of 1] d1[of 2] d1[of 3] le by (simp add: numeral_eq_Suc)
      have "calcCentroidDists_loop n PPs Params k s =
            calcCentroidDists_loop n PPs Params (k + 4)
          (s @ [?f (PPs ! (k + 0)), ?f (PPs ! (k + 1)), ?f (PPs ! (k + 2)), ?f (PPs ! (k + 3))])"
        using True four by (simp add: calcCentroidDists_loop.simps[of n PPs Params k s] Let_def)
      then show ?thesis unfolding ih dr by simp
    next
      case three
      then have le: "k + 3 = length PPs" by (auto split: if_splits)
      have ih: "calcCentroidDists_loop n PPs Params (k + 3)
          (s @ [?f (PPs ! (k + 0)), ?f (PPs ! (k + 1)), ?f (PPs ! (k + 2))]) =
          (s @ [?f (PPs ! (k + 0)), ?f (PPs ! (k + 1)), ?f (PPs ! (k + 2))]) @
          map ?f (drop (k + 3) PPs)"
        using "1.IH"(2)[OF True refl refl refl _ three] le three by simp
      have dr: "drop k PPs = PPs ! k # PPs ! (k + 1) # PPs ! (k + 2) #
                  drop (k + 3) PPs"
        using d1[of 0] d1[of 1] d1[of 2] le by (simp add: numeral_eq_Suc)
      have "calcCentroidDists_loop n PPs Params k s =
            calcCentroidDists_loop n PPs Params (k + 3)
          (s @ [?f (PPs ! (k + 0)), ?f (PPs ! (k + 1)), ?f (PPs ! (k + 2))])"
        using True three by (simp add: calcCentroidDists_loop.simps[of n PPs Params k s] Let_def)
      then show ?thesis unfolding ih dr by simp
    next
      case two
      then have le: "k + 2 = length PPs" by (auto split: if_splits)
      have ih: "calcCentroidDists_loop n PPs Params (k + 2)
          (s @ [?f (PPs ! (k + 0)), ?f (PPs ! (k + 1))]) =
          (s @ [?f (PPs ! (k + 0)), ?f (PPs ! (k + 1))]) @
          map ?f (drop (k + 2) PPs)"
        using "1.IH"(3)[OF True refl refl refl _ _ two] le two by simp
      have dr: "drop k PPs = PPs ! k # PPs ! (k + 1) # drop (k + 2) PPs"
        using d1[of 0] d1[of 1] le by (simp add: numeral_eq_Suc)
      have "calcCentroidDists_loop n PPs Params k s =
            calcCentroidDists_loop n PPs Params (k + 2)
          (s @ [?f (PPs ! (k + 0)), ?f (PPs ! (k + 1))])"
        using True two by (simp add: calcCentroidDists_loop.simps[of n PPs Params k s] Let_def)
      then show ?thesis unfolding ih dr by simp
    next
      case one
      then have le: "k + 1 = length PPs" by (auto split: if_splits)
      have ih: "calcCentroidDists_loop n PPs Params (k + 1)
          (s @ [?f (PPs ! (k + 0))]) =
          (s @ [?f (PPs ! (k + 0))]) @ map ?f (drop (k + 1) PPs)"
        using "1.IH"(4)[OF True refl refl refl] le one by simp
      have dr: "drop k PPs = PPs ! k # drop (k + 1) PPs"
        using d1[of 0] le by simp
      have "calcCentroidDists_loop n PPs Params k s =
            calcCentroidDists_loop n PPs Params (k + 1) (s @ [?f (PPs ! (k + 0))])"
        using True one by (simp add: calcCentroidDists_loop.simps[of n PPs Params k s] Let_def)
      then show ?thesis unfolding ih dr by simp
    qed
  qed
qed

text \<open>
  While the exact sum of the squares stays below \<open>2^53\<close>, no step of \<open>sqdist\<close> rounds.
\<close>

lemma sqsum_nonneg: "0 \<le> sqsum n c v"
  unfolding sqsum_def by (rule sum_list_nonneg) auto

lemma sqsum_Suc: "sqsum (Suc n) c v = sqsum n c v + (c ! n - v ! n)\<^sup>2"
  unfolding sqsum_def by simp

lemma sqdist_Suc:
  "sqdist (Suc n) c v =
     rd (sqdist n c v + rd (rd (real_of_int (c ! n - v ! n)) * rd (real_of_int (c ! n - v ! n))))"
  unfolding sqdist_def by (simp add: Let_def)

lemma abs_le_square: "\<bar>x::int\<bar> \<le> x\<^sup>2"
proof (cases "x = 0")
  case True
  then show ?thesis by simp
next
  case False
  then have "1 \<le> \<bar>x\<bar>" by linarith
  then have "\<bar>x\<bar> * 1 \<le> \<bar>x\<bar> * \<bar>x\<bar>" by (intro mult_left_mono) auto
  then show ?thesis by (simp add: power2_eq_square abs_mult_self_eq)
qed

lemma sqdist_exact:
  "sqsum n c v < 2 ^ 53 \<Longrightarrow> sqdist n c v = real_of_int (sqsum n c v)"
proof (induction n)
  case 0
  show ?case by (simp add: sqdist_def sqsum_def)
next
  case (Suc n)
  let ?x = "c ! n - v ! n"
  have sq0: "0 \<le> ?x\<^sup>2" by simp
  from Suc.prems have t: "sqsum n c v + ?x\<^sup>2 < 2 ^ 53" unfolding sqsum_Suc .
  with sq0 have a: "sqsum n c v < 2 ^ 53" by linarith
  from t sqsum_nonneg[of n c v] have b: "?x\<^sup>2 < 2 ^ 53" by linarith
  with abs_le_square[of ?x] have x: "\<bar>?x\<bar> < 2 ^ 53" by linarith
  have b': "\<bar>?x * ?x\<bar> < 2 ^ 53" using b by (simp add: power2_eq_square abs_mult_self_eq)
  have t': "\<bar>sqsum n c v + ?x * ?x\<bar> < 2 ^ 53"
    using t sqsum_nonneg[of n c v] by (simp add: power2_eq_square)
  have e1: "rd (real_of_int ?x) = real_of_int ?x" by (rule rd_int[OF x])
  have e2: "rd (real_of_int ?x * real_of_int ?x) = real_of_int (?x * ?x)"
    using rd_int[OF b'] by simp
  have e3: "rd (real_of_int (sqsum n c v) + real_of_int (?x * ?x)) =
            real_of_int (sqsum n c v + ?x * ?x)"
    using rd_int[OF t'] by simp
  show ?case
    unfolding sqdist_Suc Suc.IH[OF a] e1 e2 e3 sqsum_Suc by (simp add: power2_eq_square)
qed

lemma calcCentroidDists_eq:
  "calcCentroidDists n PPs Params = map (\<lambda>P. sqdist n (CentParams P) Params) PPs"
  unfolding calcCentroidDists_def using calcCentroidDists_loop_eq[of 0 PPs n Params "[]"] by simp

lemma scan_inv:
  fixes s :: "real list"
  assumes "1 \<le> m" and "m \<le> length s"
  defines "r \<equiv> fold (\<lambda>i (pp, d). if s ! i \<le> d then (i, s ! i) else (pp, d)) [1..<m] (0, s ! 0)"
  shows "fst r < m \<and> snd r = s ! fst r \<and> (\<forall>j<m. s ! fst r \<le> s ! j) \<and>
         (\<forall>j<m. s ! j = s ! fst r \<longrightarrow> j \<le> fst r)"
  using assms(1,2) unfolding r_def
proof (induction m rule: nat_induct_at_least)
  case base
  then show ?case by simp
next
  case (Suc m)
  let ?step = "\<lambda>i (pp, d). if s ! i \<le> d then (i, s ! i) else (pp, d)"
  let ?r = "fold ?step [1..<m] (0, s ! 0)"
  from Suc.prems have ml: "m \<le> length s" by simp
  note ih = Suc.IH[OF ml]
  from ih have a: "fst ?r < m" and b: "snd ?r = s ! fst ?r"
    and c: "\<forall>j<m. s ! fst ?r \<le> s ! j" and d: "\<forall>j<m. s ! j = s ! fst ?r \<longrightarrow> j \<le> fst ?r"
    by blast+
  have up: "[1..<Suc m] = [1..<m] @ [m]" using Suc.hyps by simp
  have e: "fold ?step [1..<Suc m] (0, s ! 0) =
           (if s ! m \<le> snd ?r then (m, s ! m) else ?r)"
    unfolding up by (simp add: case_prod_beta)
  show ?case
  proof (cases "s ! m \<le> snd ?r")
    case True
    then have f: "fold ?step [1..<Suc m] (0, s ! 0) = (m, s ! m)" unfolding e by simp
    have "\<forall>j<Suc m. s ! m \<le> s ! j"
    proof (intro allI impI)
      fix j assume "j < Suc m"
      then have "j < m \<or> j = m" by linarith
      then show "s ! m \<le> s ! j" using c True b by auto
    qed
    moreover have "\<forall>j<Suc m. s ! j = s ! m \<longrightarrow> j \<le> m" by simp
    ultimately show ?thesis unfolding f by simp
  next
    case False
    then have f: "fold ?step [1..<Suc m] (0, s ! 0) = ?r" unfolding e by simp
    have "\<forall>j<Suc m. s ! fst ?r \<le> s ! j"
    proof (intro allI impI)
      fix j assume "j < Suc m"
      then have "j < m \<or> j = m" by linarith
      then show "s ! fst ?r \<le> s ! j" using c False b by auto
    qed
    moreover have "\<forall>j<Suc m. s ! j = s ! fst ?r \<longrightarrow> j \<le> fst ?r"
    proof (intro allI impI)
      fix j assume j: "j < Suc m" and eq: "s ! j = s ! fst ?r"
      from j have "j < m \<or> j = m" by linarith
      then show "j \<le> fst ?r"
      proof
        assume "j < m" with d eq show ?thesis by blast
      next
        assume "j = m" with eq False b show ?thesis by simp
      qed
    qed
    ultimately show ?thesis unfolding f using a b by simp
  qed
qed

lemma getMinDistParPop_bound:
  assumes "0 < length PPs"
  shows "getMinDistParPop n PPs Params < length PPs"
proof -
  let ?s = "calcCentroidDists n PPs Params"
  have len: "length PPs \<le> length ?s" unfolding calcCentroidDists_eq by simp
  have K1: "1 \<le> length PPs" using assms by linarith
  have g: "getMinDistParPop n PPs Params =
           fst (fold (\<lambda>i (pp, d). if ?s ! i \<le> d then (i, ?s ! i) else (pp, d)) [1..<length PPs] (0, ?s ! 0))"
    by (simp add: getMinDistParPop_def Let_def)
  from scan_inv[OF K1 len, folded g] show ?thesis by blast
qed

text \<open>
  Claim C7, as amended. For every candidate vector and every bank of at least one
  parallel population, \<open>getMinDistParPop\<close> returns the index of a population whose
  centroid has minimal squared Euclidean distance to the candidate, as the code
  computes that distance in double precision (every difference, square and partial
  sum rounded); when several populations tie for the minimal computed distance, the
  highest such index is returned. The distances \<open>calcCentroidDists\<close> computes in groups
  of up to four are, population by population, those of \<open>sqdist\<close>, and a computed
  distance is the exact sum of the squared coordinate differences whenever that sum is
  below \<open>2^53\<close>.
\<close>

theorem getMinDistParPop_nearest:
  assumes "0 < length PPs"
  shows "getMinDistParPop n PPs Params < length PPs \<and>
         (\<forall>j<length PPs.
            sqdist n (CentParams (PPs ! getMinDistParPop n PPs Params)) Params
              \<le> sqdist n (CentParams (PPs ! j)) Params) \<and>
         (\<forall>j<length PPs.
            sqdist n (CentParams (PPs ! j)) Params =
            sqdist n (CentParams (PPs ! getMinDistParPop n PPs Params)) Params
              \<longrightarrow> j \<le> getMinDistParPop n PPs Params) \<and>
         calcCentroidDists n PPs Params = map (\<lambda>P. sqdist n (CentParams P) Params) PPs \<and>
         (\<forall>j<length PPs. sqsum n (CentParams (PPs ! j)) Params < 2 ^ 53 \<longrightarrow>
            sqdist n (CentParams (PPs ! j)) Params =
            real_of_int (sqsum n (CentParams (PPs ! j)) Params))"
proof -
  let ?s = "calcCentroidDists n PPs Params"
  let ?K = "length PPs"
  have s: "?s = map (\<lambda>P. sqdist n (CentParams P) Params) PPs" by (rule calcCentroidDists_eq)
  have len: "length ?s = ?K" unfolding s by simp
  have nth: "\<And>j. j < ?K \<Longrightarrow> ?s ! j = sqdist n (CentParams (PPs ! j)) Params"
    unfolding s by simp
  have g: "getMinDistParPop n PPs Params =
           fst (fold (\<lambda>i (pp, d). if ?s ! i \<le> d then (i, ?s ! i) else (pp, d)) [1..<?K] (0, ?s ! 0))"
    by (simp add: getMinDistParPop_def Let_def)
  have K1: "1 \<le> ?K" using assms by linarith
  have Kl: "?K \<le> length ?s" using len by simp
  note inv = scan_inv[OF K1 Kl, folded g]
  from inv have r: "getMinDistParPop n PPs Params < ?K" by blast
  have A: "\<forall>j<?K. sqdist n (CentParams (PPs ! getMinDistParPop n PPs Params)) Params
              \<le> sqdist n (CentParams (PPs ! j)) Params"
  proof (intro allI impI)
    fix j assume j: "j < ?K"
    with inv have "?s ! getMinDistParPop n PPs Params \<le> ?s ! j" by blast
    then show "sqdist n (CentParams (PPs ! getMinDistParPop n PPs Params)) Params
              \<le> sqdist n (CentParams (PPs ! j)) Params"
      unfolding nth[OF j] nth[OF r] .
  qed
  have B: "\<forall>j<?K. sqdist n (CentParams (PPs ! j)) Params =
            sqdist n (CentParams (PPs ! getMinDistParPop n PPs Params)) Params
              \<longrightarrow> j \<le> getMinDistParPop n PPs Params"
  proof (intro allI impI)
    fix j assume j: "j < ?K" and eq: "sqdist n (CentParams (PPs ! j)) Params =
            sqdist n (CentParams (PPs ! getMinDistParPop n PPs Params)) Params"
    have "?s ! j = ?s ! getMinDistParPop n PPs Params"
      unfolding nth[OF j] nth[OF r] by (rule eq)
    with inv j show "j \<le> getMinDistParPop n PPs Params" by blast
  qed
  have D: "\<forall>j<?K. sqsum n (CentParams (PPs ! j)) Params < 2 ^ 53 \<longrightarrow>
            sqdist n (CentParams (PPs ! j)) Params =
            real_of_int (sqsum n (CentParams (PPs ! j)) Params)"
    by (intro allI impI sqdist_exact)
  show ?thesis by (intro conjI r A B s D)
qed

lemma parpops_ex3_dists:
  "sqdist 1 (CentParams (parpops_ex3 ! 0)) [1] = 9"
  "sqdist 1 (CentParams (parpops_ex3 ! 1)) [1] = 1"
  "sqdist 1 (CentParams (parpops_ex3 ! 2)) [1] = 64"
  by (simp_all add: parpops_ex3_def sqdist_def pop_ex2_def)

lemma parpops_ex3_nearest: "getMinDistParPop 1 parpops_ex3 [1] = 1"
proof -
  have l: "length parpops_ex3 = 3" by (simp add: parpops_ex3_def)
  have u: "[1..<3] = [1, 2::nat]" by (simp add: upt_rec)
  have s: "calcCentroidDists 1 parpops_ex3 [1] = [9, 1, 64]"
    unfolding calcCentroidDists_eq
    using parpops_ex3_dists by (simp add: parpops_ex3_def)
  show ?thesis unfolding getMinDistParPop_def s l u by (simp add: Let_def)
qed

theorem getMinDistParPop_nearest_witness:
  "0 < length parpops_ex3 \<and> getMinDistParPop 1 parpops_ex3 [1] = 1 \<and>
   sqdist 1 (CentParams (parpops_ex3 ! 1)) [1] = 1 \<and>
   sqdist 1 (CentParams (parpops_ex3 ! 0)) [1] = 9 \<and>
   sqdist 1 (CentParams (parpops_ex3 ! 2)) [1] = 64 \<and>
   sqsum 1 (CentParams (parpops_ex3 ! 1)) [1] = 1 \<and>
   calcCentroidDists 1 parpops_ex3 [1] = [9, 1, 64]"
proof -
  have h: "0 < length parpops_ex3" by (simp add: parpops_ex3_def)
  have q: "sqsum 1 (CentParams (parpops_ex3 ! 1)) [1] = 1"
    by (simp add: parpops_ex3_def sqsum_def)
  have m: "map (\<lambda>P. sqdist 1 (CentParams P) [1]) parpops_ex3 = [9, 1, 64]"
    using parpops_ex3_dists by (simp add: parpops_ex3_def)
  from getMinDistParPop_nearest[OF h, of 1 "[1]"]
  have c: "calcCentroidDists 1 parpops_ex3 [1] = map (\<lambda>P. sqdist 1 (CentParams P) [1]) parpops_ex3"
    by blast
  from h parpops_ex3_nearest parpops_ex3_dists q c m show ?thesis by simp
qed

text \<open>
  The rounding is part of the result: the centroids \<open>2^57\<close> and \<open>2^57 + 1\<close> have
  different exact distances to \<open>[0]\<close>, the same computed distance, and the scan takes
  the second.
\<close>

lemma rd_big: "rd (2 ^ 57 + 1) = 2 ^ 57"
  by code_simp

lemma parpops_big_tie:
  "sqdist 1 (CentParams (parpops_big ! 0)) [0] = 2 ^ 114 \<and>
   sqdist 1 (CentParams (parpops_big ! 1)) [0] = 2 ^ 114 \<and>
   sqsum 1 (CentParams (parpops_big ! 0)) [0] < sqsum 1 (CentParams (parpops_big ! 1)) [0] \<and>
   getMinDistParPop 1 parpops_big [0] = 1"
proof -
  have p: "(2::real) ^ 57 * 2 ^ 57 = real_of_int 1 * pow2 114" by (simp add: pow2_def)
  have r: "rd ((2::real) ^ 57 * 2 ^ 57) = 2 ^ 57 * 2 ^ 57"
    by (rule rd_repr[OF p]) simp_all
  have p0: "(2::real) ^ 57 = real_of_int 1 * pow2 57" by (simp add: pow2_def)
  have r0: "rd ((2::real) ^ 57) = 2 ^ 57"
    by (rule rd_repr[OF p0]) simp_all
  have p2: "(2::real) ^ 114 = real_of_int 1 * pow2 114" by (simp add: pow2_def)
  have r2: "rd ((2::real) ^ 114) = 2 ^ 114"
    by (rule rd_repr[OF p2]) simp_all
  have a: "sqdist 1 (CentParams (parpops_big ! 0)) [0] = 2 ^ 114"
    using r0 r r2 by (simp add: parpops_big_def sqdist_def)
  have b: "sqdist 1 (CentParams (parpops_big ! 1)) [0] = 2 ^ 114"
    using rd_big r r2 by (simp add: parpops_big_def sqdist_def)
  have q: "sqsum 1 (CentParams (parpops_big ! 0)) [0] < sqsum 1 (CentParams (parpops_big ! 1)) [0]"
    by (simp add: parpops_big_def sqsum_def)
  have l: "length parpops_big = 2" by (simp add: parpops_big_def)
  have u: "[1..<2] = [1::nat]" by (simp add: upt_rec)
  have s: "calcCentroidDists 1 parpops_big [0] = [2 ^ 114, 2 ^ 114]"
    unfolding calcCentroidDists_eq using a b by (simp add: parpops_big_def)
  have g: "getMinDistParPop 1 parpops_big [0] = 1"
    unfolding getMinDistParPop_def s l u by (simp add: Let_def)
  from a b q g show ?thesis by simp
qed

text \<open>
  Claim C7 as stated fails on ties: the scan takes a later index whenever its distance
  is \<open><=\<close> the best so far. Right after the fill phase all five parallel populations
  are copies of the main one and every distance is the same; the result is index 4, not
  0.
\<close>

theorem getMinDistParPop_tie_counterexample:
  "sqdist 1 (CentParams (parpops_ex ! 0)) [1] = sqdist 1 (CentParams (parpops_ex ! 4)) [1] \<and>
   getMinDistParPop 1 parpops_ex [1] = 4 \<and>
   getMinDistParPop 1 parpops_ex [1] \<noteq> 0"
proof -
  have a: "sqdist 1 (CentParams (parpops_ex ! 0)) [1] = 9"
    by (simp add: parpops_ex_def sqdist_def pop_ex2_def)
  have b: "sqdist 1 (CentParams (parpops_ex ! 4)) [1] = 9"
    by (simp add: parpops_ex_def sqdist_def pop_ex2_def)
  have l: "length parpops_ex = 5" by (simp add: parpops_ex_def)
  have u: "[1..<5] = [1, 2, 3, 4::nat]" by (simp add: upt_rec)
  have s: "calcCentroidDists 1 parpops_ex [1] = [9, 9, 9, 9, 9]"
    unfolding calcCentroidDists_eq
    by (simp add: parpops_ex_def sqdist_def pop_ex2_def numeral_eq_Suc)
  have v: "getMinDistParPop 1 parpops_ex [1] = 4"
    unfolding getMinDistParPop_def s l u by (simp add: Let_def)
  from a b v show ?thesis by simp
qed

section \<open>Binding: what is rejected before the engine runs\<close>

text \<open>
  Claim C9, as amended. When both bounds arguments are sequences of numbers, a length
  mismatch between them and a coordinate with \<open>lower[i] > upper[i]\<close> are rejected with
  a \<open>TypeError\<close>, and the result is the same whatever the engine is: the driver is not
  called, so no optimizer instance is constructed and the objective is never called.
\<close>

theorem minimize_func_rejects:
  assumes "as_doubles los = Some lower" and "as_doubles ups = Some upper"
    and "length lower \<noteq> length upper \<or> (\<exists>i<length lower. dgt (lower ! i) (upper ! i))"
  shows "\<exists>msg. \<forall>driver. minimize_func driver (Some los) (Some ups) iter_py M_py attc_py stopc_py =
           (Inl (TypeError msg) :: py_error + 'r)"
proof (cases "length lower \<noteq> length upper")
  case True
  then have "\<forall>driver. minimize_func driver (Some los) (Some ups) iter_py M_py attc_py stopc_py =
           (Inl (TypeError ''minimize: matching list lengths required'') :: py_error + 'r)"
    using assms(1,2) by (simp add: minimize_func_def)
  then show ?thesis by blast
next
  case False
  with assms(3) have "some_lower_above lower upper" unfolding some_lower_above_def by blast
  then have "\<forall>driver. minimize_func driver (Some los) (Some ups) iter_py M_py attc_py stopc_py =
           (Inl (TypeError ''minimize: lower should not be greater than upper'') :: py_error + 'r)"
    using assms(1,2) False by (simp add: minimize_func_def)
  then show ?thesis by blast
qed

theorem minimize_func_rejects_witness:
  "as_doubles [PyNum (Fin 0), PyNum (Fin 5)] = Some [Fin 0, Fin 5] \<and>
   as_doubles [PyNum (Fin 1), PyNum (Fin 4)] = Some [Fin 1, Fin 4] \<and>
   (1::nat) < length [Fin 0, Fin 5] \<and> dgt ([Fin 0, Fin 5] ! 1) ([Fin 1, Fin 4] ! 1) \<and>
   (\<exists>msg. \<forall>driver :: nat \<Rightarrow> double list \<Rightarrow> double list \<Rightarrow> int \<Rightarrow> int \<Rightarrow> int \<Rightarrow> int \<Rightarrow> nat.
      minimize_func driver (Some [PyNum (Fin 0), PyNum (Fin 5)])
        (Some [PyNum (Fin 1), PyNum (Fin 4)]) 100 1 10 1 = Inl (TypeError msg))"
proof -
  have h1: "as_doubles [PyNum (Fin 0), PyNum (Fin 5)] = Some [Fin 0, Fin 5]" by simp
  have h2: "as_doubles [PyNum (Fin 1), PyNum (Fin 4)] = Some [Fin 1, Fin 4]" by simp
  have a: "(1::nat) < length [Fin 0, Fin 5]" by simp
  have b: "dgt ([Fin 0, Fin 5] ! 1) ([Fin 1, Fin 4] ! 1)" by simp
  from a b have h3: "length [Fin 0, Fin 5] \<noteq> length [Fin 1, Fin 4] \<or>
      (\<exists>i<length [Fin 0, Fin 5]. dgt ([Fin 0, Fin 5] ! i) ([Fin 1, Fin 4] ! i))" by blast
  from minimize_func_rejects[OF h1 h2 h3, of 100 1 10 1] h1 h2 a b show ?thesis by blast
qed

text \<open>
  Claim C9 as stated fails for \<open>N = 0\<close>: the binding takes \<open>N\<close> from
  \<open>lower.size()\<close> and has no check of it. Two empty bounds sequences pass both checks,
  and the driver is called with \<open>N = 0\<close>. (\<open>N\<close> cannot be negative.)
\<close>

theorem minimize_func_empty_counterexample:
  "\<forall>driver :: nat \<Rightarrow> double list \<Rightarrow> double list \<Rightarrow> int \<Rightarrow> int \<Rightarrow> int \<Rightarrow> int \<Rightarrow> nat.
     minimize_func driver (Some []) (Some []) 100 1 10 1 = Inr (driver 0 [] [] 100 1 10 1)"
  by (simp add: minimize_func_def some_lower_above_def)


section \<open>Core optimizer: one call of \<open>optimize\<close>\<close>

lemma updatePop_prefix_set:
  assumes wf: "pop_wf s"
  shows "set (take (CurPopPos (snd (updatePop c ps d t s))) (PopParams (snd (updatePop c ps d t s))))
         \<subseteq> insert (upd_rp c ps) (set (take (CurPopPos s) (PopParams s)))"
proof -
  let ?P = "PopParams s" and ?ri = "upd_ri s" and ?n = "CurPopPos s"
  let ?p = "bsearch ?P c 0 ?ri"
  let ?rp = "upd_rp c ps"
  let ?s' = "snd (updatePop c ps d t s)"
  from wf have len: "length ?P = PopSize s" and pos: "0 < PopSize s" and nle: "?n \<le> PopSize s"
    unfolding pop_wf_def by auto
  have ri: "?ri < length ?P" "?ri \<le> ?n" using len pos nle unfolding upd_ri_def by auto
  have p: "?p \<le> ?ri" using bsearch_inv[of 0 ?ri ?P c] by simp
  have A: "set (take ?p ?P) \<subseteq> set (take ?n ?P)"
    using p ri(2) by (meson le_trans set_take_subset_set_take)
  have tk: "take ?ri ?P = take ?p ?P @ take (?ri - ?p) (drop ?p ?P)"
    using p by (metis le_add_diff_inverse take_add)
  have "set (take (?ri - ?p) (drop ?p ?P)) \<subseteq> set (take ?ri ?P)" unfolding tk by simp
  also have "\<dots> \<subseteq> set (take ?n ?P)" using ri(2) by (rule set_take_subset_set_take)
  finally have B: "set (take (?ri - ?p) (drop ?p ?P)) \<subseteq> set (take ?n ?P)" .
  have ins: "set (take ?p ?P @ [?rp] @ take (?ri - ?p) (drop ?p ?P)) \<subseteq> insert ?rp (set (take ?n ?P))"
    using A B by auto
  obtain rep where rep: "rep \<longrightarrow> \<not> ?n < PopSize s"
    and PP: "PopParams ?s' =
       (if \<not> ?n < PopSize s \<and> dgt c (item_rank (?P ! ?ri)) then ?P
        else if rep then ?P[?p := ?rp]
        else take ?p ?P @ [?rp] @ take (?ri - ?p) (drop ?p ?P) @ drop (?ri + 1) ?P)"
    using updatePop_PopParams_ex[of s c ps d t] by blast
  show ?thesis
  proof (cases "?n < PopSize s")
    case True
    then have r: "?ri = ?n" unfolding upd_ri_def by simp
    have np: "CurPopPos ?s' = ?n + 1" unfolding updatePop_CurPopPos using True by simp
    have P1: "PopParams ?s' = (take ?p ?P @ [?rp] @ take (?ri - ?p) (drop ?p ?P)) @ drop (?ri + 1) ?P"
      unfolding PP using True rep by simp
    have l1: "length (take ?p ?P @ [?rp] @ take (?ri - ?p) (drop ?p ?P)) = ?n + 1"
      using p r ri by simp
    have "take (?n + 1) (PopParams ?s') = take ?p ?P @ [?rp] @ take (?ri - ?p) (drop ?p ?P)"
      unfolding P1 using l1 by (metis append_eq_conv_conj)
    then show ?thesis unfolding np using ins by simp
  next
    case False
    then have full: "?n = PopSize s" using nle by simp
    then have r: "?ri = PopSize s - 1" unfolding upd_ri_def by simp
    have np: "CurPopPos ?s' = ?n" unfolding updatePop_CurPopPos using False by simp
    have tkP: "take ?n ?P = ?P" using full len by simp
    have sub: "set (PopParams ?s') \<subseteq> insert ?rp (set ?P)"
    proof (cases "dgt c (item_rank (?P ! ?ri))")
      case True
      then have "PopParams ?s' = ?P" unfolding PP using False by simp
      then show ?thesis by auto
    next
      case ndgt: False
      show ?thesis
      proof (cases rep)
        case True
        then have "PopParams ?s' = ?P[?p := ?rp]" unfolding PP using ndgt by simp
        then show ?thesis using set_update_subset_insert[of ?P ?p ?rp] by simp
      next
        case nrep: False
        have dr0: "drop (?ri + 1) ?P = []" using r len pos by simp
        have eq: "PopParams ?s' = take ?p ?P @ [?rp] @ take (?ri - ?p) (drop ?p ?P)"
          unfolding PP using nrep ndgt dr0 by simp
        show ?thesis unfolding eq using ins tkP by simp
      qed
    qed
    have "set (take (CurPopPos ?s') (PopParams ?s')) \<subseteq> set (PopParams ?s')"
      by (rule set_take_subset)
    with sub show ?thesis unfolding tkP by blast
  qed
qed

lemma updatePop_ok:
  assumes "pop_ok s" and "c \<noteq> NaN"
  shows "pop_ok (snd (updatePop c ps d t s))"
proof -
  from assms(1) have wf: "pop_wf s" and so: "pop_sorted s" and ob: "objs_ok s"
    unfolding pop_ok_def by auto
  have "objs_ok (snd (updatePop c ps d t s))"
    unfolding objs_ok_def
  proof
    fix x assume "x \<in> set (take (CurPopPos (snd (updatePop c ps d t s)))
                        (PopParams (snd (updatePop c ps d t s))))"
    with updatePop_prefix_set[OF wf, of c ps d t]
    have "x = upd_rp c ps \<or> x \<in> set (take (CurPopPos s) (PopParams s))" by blast
    then show "item_obj x = item_rank x"
      using ob unfolding objs_ok_def upd_rp_def by auto
  qed
  with updatePop_wf[OF wf] updatePop_sorted[OF wf so assms(2)] show ?thesis
    unfolding pop_ok_def by blast
qed

lemma updatePop_full_stays:
  "CurPopPos s = PopSize s \<Longrightarrow> CurPopPos (snd (updatePop c ps d t s)) = PopSize (snd (updatePop c ps d t s))"
  unfolding updatePop_CurPopPos by simp

lemma pop_ok_reset:
  assumes "0 < PopSize s" and "length (PopParams s) = PopSize s"
  shows "pop_ok (resetCurPopPos s)"
  unfolding pop_ok_def using resetCurPopPos_inv(1,2)[OF assms]
  by (simp add: objs_ok_def resetCurPopPos_def)

lemma pop_ok_fields:
  assumes "pop_ok s" and "PopSize s' = PopSize s" and "PopParams s' = PopParams s"
    and "CurPopPos s' = CurPopPos s"
  shows "pop_ok s'"
  using assms unfolding pop_ok_def pop_wf_def pop_sorted_def objs_ok_def by simp

lemma updateCentroid_fields [simp]:
  "PopSize (updateCentroid s) = PopSize s" "PopParams (updateCentroid s) = PopParams s"
  "CurPopPos (updateCentroid s) = CurPopPos s" "CurPopSize (updateCentroid s) = CurPopSize s"
  "ParamCount (updateCentroid s) = ParamCount s"
  by (simp_all add: updateCentroid_def Let_def split: prod.splits)

lemma incr_decr_fields [simp]:
  "PopSize (incrCurPopSize s) = PopSize s" "PopParams (incrCurPopSize s) = PopParams s"
  "CurPopPos (incrCurPopSize s) = CurPopPos s" "CurPopSize (incrCurPopSize s) = CurPopSize s + 1"
  "PopSize (decrCurPopSize s) = PopSize s" "PopParams (decrCurPopSize s) = PopParams s"
  "CurPopPos (decrCurPopSize s) = CurPopPos s" "CurPopSize (decrCurPopSize s) = CurPopSize s - 1"
  by (simp_all add: incrCurPopSize_def decrCurPopSize_def)

lemma pop_copy_fields [simp]:
  "PopSize (pop_copy dst src) = PopSize src" "PopParams (pop_copy dst src) = PopParams src"
  "CurPopPos (pop_copy dst src) = CurPopPos src" "CurPopSize (pop_copy dst src) = CurPopSize src"
  by (simp_all add: pop_copy_def)

lemma updateParPop_ok:
  assumes "PPs \<noteq> []" and "\<forall>P\<in>set PPs. pop_ok P \<and> CurPopPos P = PopSize P" and "c \<noteq> NaN"
  shows "updateParPop n c ps PPs \<noteq> [] \<and> length (updateParPop n c ps PPs) = length PPs \<and>
         (\<forall>P\<in>set (updateParPop n c ps PPs). pop_ok P \<and> CurPopPos P = PopSize P)"
proof -
  let ?p = "getMinDistParPop n PPs ps"
  let ?Q = "snd (updatePop c ps True 0 (PPs ! ?p))"
  have l: "0 < length PPs" using assms(1) by simp
  have p: "?p < length PPs" by (rule getMinDistParPop_bound[OF l])
  then have "PPs ! ?p \<in> set PPs" by simp
  with assms(2) have ok: "pop_ok (PPs ! ?p)" and full: "CurPopPos (PPs ! ?p) = PopSize (PPs ! ?p)"
    by blast+
  have Q: "pop_ok ?Q \<and> CurPopPos ?Q = PopSize ?Q"
    using updatePop_ok[OF ok assms(3)] updatePop_full_stays[OF full] by blast
  have e: "updateParPop n c ps PPs = PPs[?p := ?Q]" by (simp add: updateParPop_def Let_def)
  have "set (PPs[?p := ?Q]) \<subseteq> insert ?Q (set PPs)" by (rule set_update_subset_insert)
  with Q assms(2) have "\<forall>P\<in>set (PPs[?p := ?Q]). pop_ok P \<and> CurPopPos P = PopSize P" by blast
  then show ?thesis unfolding e using assms(1) by simp
qed

lemma bsearch_zero_range: "bsearch P c 0 0 = 0"
  by (simp add: bsearch.simps[of P c 0 0])

lemma updatePop_first_insert:
  assumes "pop_wf s" and "CurPopPos s = 0"
  shows "fst (updatePop c ps d t s) = 0"
proof -
  from assms have f: "CurPopPos s < PopSize s" unfolding pop_wf_def by simp
  have r: "upd_ri s = 0" using f assms(2) by (simp add: upd_ri_def)
  show ?thesis unfolding updatePop_fst r bsearch_zero_range using f by simp
qed

text \<open>The rank at index 0 after updatePop, in terms of the search result.\<close>

lemma updatePop_head:
  assumes wf: "pop_wf s" and so: "pop_sorted s" and c: "c \<noteq> NaN" and n0: "0 < CurPopPos s"
  shows "dle (item_rank (PopParams (snd (updatePop c ps d t s)) ! 0)) (item_rank (PopParams s ! 0)) \<and>
         (fst (updatePop c ps d t s) = 0 \<longrightarrow>
            item_rank (PopParams (snd (updatePop c ps d t s)) ! 0) = c)"
proof -
  let ?P = "PopParams s" and ?ri = "upd_ri s" and ?n = "CurPopPos s"
  let ?p = "bsearch ?P c 0 ?ri"
  let ?rp = "upd_rp c ps"
  let ?s' = "snd (updatePop c ps d t s)"
  from wf have len: "length ?P = PopSize s" and pos: "0 < PopSize s" and nle: "?n \<le> PopSize s"
    unfolding pop_wf_def by auto
  have ri: "?ri < length ?P" "?ri \<le> ?n" using len pos nle unfolding upd_ri_def by auto
  from so have srt: "ranks_sorted ?P ?n" and num: "ranks_num ?P ?n"
    unfolding pop_sorted_def by auto
  have r0: "item_rank (?P ! 0) \<noteq> NaN" using num n0 unfolding ranks_num_def by blast
  then have refl: "dle (item_rank (?P ! 0)) (item_rank (?P ! 0))" by (simp add: dle_refl_iff)
  have srt_ri: "ranks_sorted ?P ?ri" using srt ri(2) unfolding ranks_sorted_def by auto
  have p: "?p \<le> ?ri" using bsearch_inv[of 0 ?ri ?P c] by simp
  have spec: "(\<forall>k<?p. \<not> dge (item_rank (?P ! k)) c) \<and>
              (\<forall>k. ?p \<le> k \<and> k < ?ri \<longrightarrow> dge (item_rank (?P ! k)) c)"
  proof (rule bsearch_spec[OF srt_ri])
    show "(0::nat) \<le> ?ri" by simp
    show "?ri \<le> ?ri" by simp
    show "\<forall>k<0::nat. \<not> dge (item_rank (?P ! k)) c" by simp
    show "\<forall>k. ?ri \<le> k \<and> k < ?ri \<longrightarrow> dge (item_rank (?P ! k)) c"
    proof (intro allI impI)
      fix k assume "?ri \<le> k \<and> k < ?ri"
      then have False by linarith
      then show "dge (item_rank (?P ! k)) c" by simp
    qed
  qed
  obtain rep where rep: "rep \<longrightarrow> \<not> ?n < PopSize s"
    and PP: "PopParams ?s' =
       (if \<not> ?n < PopSize s \<and> dgt c (item_rank (?P ! ?ri)) then ?P
        else if rep then ?P[?p := ?rp]
        else take ?p ?P @ [?rp] @ take (?ri - ?p) (drop ?p ?P) @ drop (?ri + 1) ?P)"
    using updatePop_PopParams_ex[of s c ps d t] by blast
  have rej0: "\<not> ?n < PopSize s \<and> dgt c (item_rank (?P ! ?ri)) \<Longrightarrow> fst (updatePop c ps d t s) \<noteq> 0"
    unfolding updatePop_fst using pos by simp
  have fst0: "fst (updatePop c ps d t s) = 0 \<Longrightarrow> ?p = 0"
    unfolding updatePop_fst using pos by (simp split: if_splits)
  text \<open>when the search ends at 0 the candidate is not above the old head\<close>
  have head_le: "?p = 0 \<Longrightarrow> \<not> (\<not> ?n < PopSize s \<and> dgt c (item_rank (?P ! ?ri))) \<Longrightarrow>
                 dle c (item_rank (?P ! 0))"
  proof -
    assume p0: "?p = 0" and nrej: "\<not> (\<not> ?n < PopSize s \<and> dgt c (item_rank (?P ! ?ri)))"
    show "dle c (item_rank (?P ! 0))"
    proof (cases "0 < ?ri")
      case True
      with spec p0 have "dge (item_rank (?P ! 0)) c" by simp
      then show ?thesis by (rule dge_dle)
    next
      case False
      then have z: "?ri = 0" by simp
      have "\<not> ?n < PopSize s" using z n0 unfolding upd_ri_def by (simp split: if_splits)
      with nrej z have "\<not> dgt c (item_rank (?P ! 0))" by simp
      with r0 c show ?thesis using not_dgt_dle by blast
    qed
  qed
  show ?thesis
  proof (cases "\<not> ?n < PopSize s \<and> dgt c (item_rank (?P ! ?ri))")
    case True
    then have "PopParams ?s' = ?P" unfolding PP by simp
    then show ?thesis using refl rej0[OF True] by simp
  next
    case nrej: False
    then have nrejF: "(\<not> ?n < PopSize s \<and> dgt c (item_rank (?P ! ?ri))) = False" by simp
    show ?thesis
    proof (cases "?p = 0")
      case p0: True
      have hd: "PopParams ?s' ! 0 = ?rp"
      proof (cases rep)
        case True
        then have "PopParams ?s' = ?P[?p := ?rp]" unfolding PP nrejF by simp
        then show ?thesis unfolding p0 using len pos by simp
      next
        case False
        then have "PopParams ?s' = take ?p ?P @ [?rp] @ take (?ri - ?p) (drop ?p ?P) @ drop (?ri + 1) ?P"
          unfolding PP nrejF by simp
        then show ?thesis unfolding p0 by simp
      qed
      have "item_rank (PopParams ?s' ! 0) = c" unfolding hd by (simp add: upd_rp_def)
      then show ?thesis using head_le[OF p0 nrej] by simp
    next
      case pn: False
      then have ppos: "0 < ?p" by simp
      have plen: "?p < length ?P" using p ri(1) by linarith
      have hd: "PopParams ?s' ! 0 = ?P ! 0"
      proof (cases rep)
        case True
        then have "PopParams ?s' = ?P[?p := ?rp]" unfolding PP nrejF by simp
        then show ?thesis using pn by simp
      next
        case False
        then have e: "PopParams ?s' = take ?p ?P @ ([?rp] @ take (?ri - ?p) (drop ?p ?P) @ drop (?ri + 1) ?P)"
          unfolding PP nrejF by simp
        have "0 < length (take ?p ?P)" using ppos plen by simp
        then have "PopParams ?s' ! 0 = take ?p ?P ! 0" unfolding e by (simp add: nth_append)
        then show ?thesis using ppos by simp
      qed
      have "fst (updatePop c ps d t s) \<noteq> 0" using fst0 pn by blast
      then show ?thesis unfolding hd using refl by simp
    qed
  qed
qed

lemma fixCostNaN_cases: "fixCostNaN v = (if v = NaN then Fin c1e300 else v)"
  by (cases v) (simp_all add: fixCostNaN_def)

lemma fixCostNaN_num: "fixCostNaN v \<noteq> NaN"
  by (cases v) (simp_all add: fixCostNaN_def)

lemma updateBestCost_fields [simp]:
  "own (updateBestCost c v p s) = own s" "ParPops (updateBestCost c v p s) = ParPops s"
  "OldPops (updateBestCost c v p s) = OldPops s" "DoInitEvals (updateBestCost c v p s) = DoInitEvals s"
  "StallCount (updateBestCost c v p s) = StallCount s"
  "MinValues (updateBestCost c v p s) = MinValues s" "DiffValues (updateBestCost c v p s) = DiffValues s"
  "LastCosts0 (updateBestCost c v p s) = LastCosts0 s" "LastValues (updateBestCost c v p s) = LastValues s"
  by (simp_all add: updateBestCost_def Let_def)

lemma updateBestCost_nat:
  "BestCost (updateBestCost c v (int p) s) = (if p = 0 then c else BestCost s)"
  "BestValues (updateBestCost c v (int p) s) = (if p = 0 then v else BestValues s)"
  by (simp_all add: updateBestCost_def Let_def)

lemma updateBestCost_zero [simp]:
  "BestCost (updateBestCost c v 0 s) = c" "BestValues (updateBestCost c v 0 s) = v"
  by (simp_all add: updateBestCost_def Let_def)

lemma core_inv_init:
  assumes "core_alloc s"
  shows "core_inv (CBiteOpt_init lb ub s)" and "BestCost (CBiteOpt_init lb ub s) = Fin c1e300"
    and "DoInitEvals (CBiteOpt_init lb ub s)" and "CurPopPos (own (CBiteOpt_init lb ub s)) = 0"
proof -
  from assms have a: "2 \<le> PopSize (own s)" "length (PopParams (own s)) = PopSize (own s)"
    "ParPops s \<noteq> []" "length (OldPops s) = 2"
    "\<forall>P\<in>set (OldPops s). 0 < PopSize P \<and> length (PopParams P) = PopSize P"
    unfolding core_alloc_def by auto
  have p0: "0 < PopSize (own s)" using a(1) by simp
  have o: "pop_ok (resetCurPopPos (own s))" by (rule pop_ok_reset[OF p0 a(2)])
  have old: "\<forall>P\<in>set (map resetCurPopPos (OldPops s)). pop_ok P"
    using a(5) by (auto intro: pop_ok_reset)
  have r: "PopSize (resetCurPopPos (own s)) = PopSize (own s)"
    "CurPopSize (resetCurPopPos (own s)) = PopSize (own s)"
    "CurPopPos (resetCurPopPos (own s)) = 0"
    by (simp_all add: resetCurPopPos_def)
  show "core_inv (CBiteOpt_init lb ub s)"
    unfolding core_inv_def using o old a r by (simp add: CBiteOpt_init_def)
  show "BestCost (CBiteOpt_init lb ub s) = Fin c1e300" by (simp add: CBiteOpt_init_def)
  show "DoInitEvals (CBiteOpt_init lb ub s)" by (simp add: CBiteOpt_init_def)
  show "CurPopPos (own (CBiteOpt_init lb ub s)) = 0" by (simp add: CBiteOpt_init_def r)
qed

text \<open>One initial evaluation.\<close>

lemma optimize_init_step:
  fixes s :: core and inp :: step_in and optcost :: "real list \<Rightarrow> double"
  assumes inv: "core_inv s" and di: "DoInitEvals s"
  defines "vals \<equiv> map (getRealValue (MinValues s) (DiffValues s) (gi_Params inp)) [0..<ParamCount (own s)]"
  defines "c \<equiv> fixCostNaN (optcost vals)"
  defines "s' \<equiv> optimize_init optcost inp s"
  shows "core_inv s'"
    and "0 < CurPopPos (own s) \<Longrightarrow> dle (BestCost s') (BestCost s)"
    and "CurPopPos (own s) = 0 \<Longrightarrow> BestCost s' = c \<and> BestValues s' = vals"
    and "BestCost s' = BestCost s \<and> BestValues s' = BestValues s \<or> BestCost s' = c \<and> BestValues s' = vals"
proof -
  let ?u = "updatePop c (gi_Params inp) False 0 (own s)"
  let ?p = "fst ?u" and ?pop1 = "snd ?u"
  let ?s0 = "s\<lparr>own := ?pop1, NewValues := vals, LastCosts0 := c, LastValues := vals\<rparr>"
  let ?s1 = "updateBestCost c vals (int ?p) ?s0"
  have cn: "c \<noteq> NaN" unfolding c_def by (rule fixCostNaN_num)
  from inv have ok: "pop_ok (own s)" and ps2: "2 \<le> PopSize (own s)"
    and cs: "1 \<le> CurPopSize (own s)" "CurPopSize (own s) \<le> PopSize (own s)"
    and fill: "CurPopPos (own s) < PopSize (own s)"
    and pp: "ParPops s \<noteq> []" and old: "length (OldPops s) = 2" "\<forall>P\<in>set (OldPops s). pop_ok P"
    and bn: "BestCost s \<noteq> NaN"
    and hd: "0 < CurPopPos (own s) \<longrightarrow> dle (item_rank (PopParams (own s) ! 0)) (BestCost s)"
    using di unfolding core_inv_def by auto
  from ok have wf: "pop_wf (own s)" and so: "pop_sorted (own s)" unfolding pop_ok_def by auto
  have ok1: "pop_ok ?pop1" by (rule updatePop_ok[OF ok cn])
  have pos1: "CurPopPos ?pop1 = CurPopPos (own s) + 1" unfolding updatePop_CurPopPos using fill by simp
  have e: "s' = (if CurPopPos ?pop1 = PopSize ?pop1 then
                   ?s1\<lparr>own := updateCentroid ?pop1,
                        ParPops := map (\<lambda>P. pop_copy P (updateCentroid ?pop1)) (ParPops ?s1),
                        DoInitEvals := False\<rparr>
                 else ?s1)"
    unfolding s'_def optimize_init_def Let_def vals_def[symmetric] c_def[symmetric]
    by (simp add: case_prod_beta)
  have bc: "BestCost s' = (if ?p = 0 then c else BestCost s)"
    and bv: "BestValues s' = (if ?p = 0 then vals else BestValues s)"
    unfolding e by (simp_all add: updateBestCost_nat del: of_nat_eq_0_iff)
  have own': "PopParams (own s') = PopParams ?pop1" "CurPopPos (own s') = CurPopPos ?pop1"
    "PopSize (own s') = PopSize (own s)" "CurPopSize (own s') = CurPopSize (own s)"
    unfolding e by simp_all
  have okown: "pop_ok (own s')"
    by (rule pop_ok_fields[OF ok1]) (simp_all add: own')
  text \<open>the head of the population against the best cost\<close>
  have head: "dle (item_rank (PopParams ?pop1 ! 0)) (BestCost s')"
    and mono: "0 < CurPopPos (own s) \<Longrightarrow> dle (BestCost s') (BestCost s)"
    and first: "CurPopPos (own s) = 0 \<Longrightarrow> ?p = 0"
  proof -
    show f: "CurPopPos (own s) = 0 \<Longrightarrow> ?p = 0" by (rule updatePop_first_insert[OF wf])
    show "dle (item_rank (PopParams ?pop1 ! 0)) (BestCost s')"
    proof (cases "0 < CurPopPos (own s)")
      case True
      note h = updatePop_head[OF wf so cn True, of "gi_Params inp" False 0]
      from hd True have b: "dle (item_rank (PopParams (own s) ! 0)) (BestCost s)" by simp
      show ?thesis
      proof (cases "?p = 0")
        case True
        with h have "item_rank (PopParams ?pop1 ! 0) = c" by simp
        then show ?thesis unfolding bc using True cn by (simp add: dle_refl_iff)
      next
        case False
        from h b have "dle (item_rank (PopParams ?pop1 ! 0)) (BestCost s)" using dle_trans by blast
        then show ?thesis unfolding bc using False by simp
      qed
    next
      case False
      then have z: "CurPopPos (own s) = 0" by simp
      have p0: "?p = 0" by (rule f[OF z])
      have acc: "CurPopPos (own s) < PopSize (own s) \<or>
                 \<not> dgt c (item_rank (PopParams (own s) ! (PopSize (own s) - 1)))" using fill by simp
      have r: "upd_ri (own s) = 0" using fill z by (simp add: upd_ri_def)
      from updatePop_stored[OF wf acc, of "gi_Params inp" False 0]
      have "PopParams ?pop1 ! 0 = upd_rp c (gi_Params inp)" unfolding r bsearch_zero_range by simp
      then have "item_rank (PopParams ?pop1 ! 0) = c" by (simp add: upd_rp_def)
      then show ?thesis unfolding bc using p0 cn by (simp add: dle_refl_iff)
    qed
    show "0 < CurPopPos (own s) \<Longrightarrow> dle (BestCost s') (BestCost s)"
    proof -
      assume n0: "0 < CurPopPos (own s)"
      note h = updatePop_head[OF wf so cn n0, of "gi_Params inp" False 0]
      from hd n0 have b: "dle (item_rank (PopParams (own s) ! 0)) (BestCost s)" by simp
      show "dle (BestCost s') (BestCost s)"
      proof (cases "?p = 0")
        case True
        with h have "item_rank (PopParams ?pop1 ! 0) = c" by simp
        with h b have "dle c (BestCost s)" using dle_trans by metis
        then show ?thesis unfolding bc using True by simp
      next
        case False
        then show ?thesis unfolding bc using bn by (simp add: dle_refl_iff)
      qed
    qed
  qed
  have bn': "BestCost s' \<noteq> NaN" unfolding bc using cn bn by simp
  have A: "DoInitEvals s' \<longrightarrow> CurPopPos (own s') < PopSize (own s')"
    unfolding e using ok1 fill pos1 by (simp add: pop_ok_def pop_wf_def)
  have B: "\<not> DoInitEvals s' \<longrightarrow> CurPopPos (own s') = PopSize (own s') \<and>
          (\<forall>P\<in>set (ParPops s'). pop_ok P \<and> CurPopPos P = PopSize P)"
  proof
    assume nd: "\<not> DoInitEvals s'"
    then have full: "CurPopPos ?pop1 = PopSize ?pop1" unfolding e using di by (simp split: if_splits)
    have okc: "pop_ok (updateCentroid ?pop1)" by (rule pop_ok_fields[OF ok1]) simp_all
    have "\<And>P. pop_ok (pop_copy P (updateCentroid ?pop1))"
      by (rule pop_ok_fields[OF okc]) simp_all
    then have "\<forall>P\<in>set (ParPops s'). pop_ok P \<and> CurPopPos P = PopSize P"
      unfolding e using full by auto
    moreover have "CurPopPos (own s') = PopSize (own s')" unfolding own' using full by simp
    ultimately show "CurPopPos (own s') = PopSize (own s') \<and>
          (\<forall>P\<in>set (ParPops s'). pop_ok P \<and> CurPopPos P = PopSize P)" by blast
  qed
  have C: "ParPops s' \<noteq> []" "length (OldPops s') = 2" "\<forall>P\<in>set (OldPops s'). pop_ok P"
    unfolding e using pp old by simp_all
  show "core_inv s'"
    unfolding core_inv_def using okown ps2 cs A B C bn' head by (simp add: own')
  show "0 < CurPopPos (own s) \<Longrightarrow> dle (BestCost s') (BestCost s)" by (rule mono)
  show "CurPopPos (own s) = 0 \<Longrightarrow> BestCost s' = c \<and> BestValues s' = vals"
    using first bc bv by simp
  show "BestCost s' = BestCost s \<and> BestValues s' = BestValues s \<or> BestCost s' = c \<and> BestValues s' = vals"
    using bc bv by simp
qed

lemma push_into_step:
  assumes inv: "core_inv t" and nd: "\<not> DoInitEvals t" and cn: "c \<noteq> NaN"
  shows "core_inv (push_into c ps t)" and "BestCost (push_into c ps t) = BestCost t"
    and "BestValues (push_into c ps t) = BestValues t"
    and "DoInitEvals (push_into c ps t) = DoInitEvals t"
proof -
  let ?pop1 = "snd (updatePop c ps True 3 (own t))"
  let ?PP = "updateParPop (ParamCount ?pop1) c ps (ParPops t)"
  have e: "push_into c ps t = t\<lparr>own := ?pop1, ParPops := ?PP\<rparr>"
    by (simp add: push_into_def Let_def)
  from inv nd have ok: "pop_ok (own t)" and ps2: "2 \<le> PopSize (own t)"
    and cs: "1 \<le> CurPopSize (own t)" "CurPopSize (own t) \<le> PopSize (own t)"
    and full: "CurPopPos (own t) = PopSize (own t)"
    and par: "\<forall>P\<in>set (ParPops t). pop_ok P \<and> CurPopPos P = PopSize P"
    and pp: "ParPops t \<noteq> []" and old: "length (OldPops t) = 2" "\<forall>P\<in>set (OldPops t). pop_ok P"
    and bn: "BestCost t \<noteq> NaN"
    and hd: "0 < CurPopPos (own t) \<longrightarrow> dle (item_rank (PopParams (own t) ! 0)) (BestCost t)"
    unfolding core_inv_def by auto
  from ok have wf: "pop_wf (own t)" and so: "pop_sorted (own t)" unfolding pop_ok_def by auto
  have n0: "0 < CurPopPos (own t)" using full ps2 by simp
  have ok1: "pop_ok ?pop1" by (rule updatePop_ok[OF ok cn])
  have full1: "CurPopPos ?pop1 = PopSize ?pop1" by (rule updatePop_full_stays[OF full])
  note h = updatePop_head[OF wf so cn n0, of ps True 3]
  from hd n0 have "dle (item_rank (PopParams (own t) ! 0)) (BestCost t)" by simp
  with h have head: "dle (item_rank (PopParams ?pop1 ! 0)) (BestCost t)" using dle_trans by blast
  note pp1 = updateParPop_ok[OF pp par cn, of "ParamCount ?pop1" ps]
  show "core_inv (push_into c ps t)"
    unfolding core_inv_def e using ok1 full1 ps2 cs pp1 old bn head nd by simp
  show "BestCost (push_into c ps t) = BestCost t" unfolding e by simp
  show "BestValues (push_into c ps t) = BestValues t" unfolding e by simp
  show "DoInitEvals (push_into c ps t) = DoInitEvals t" unfolding e by simp
qed

lemma pop_ok_obj_num:
  assumes "pop_ok P" and "i < CurPopPos P"
  shows "item_obj (PopParams P ! i) \<noteq> NaN"
proof -
  from assms(1) have wf: "pop_wf P" and so: "pop_sorted P" and ob: "objs_ok P"
    unfolding pop_ok_def by auto
  from wf assms(2) have il: "i < length (take (CurPopPos P) (PopParams P))"
    unfolding pop_wf_def by simp
  have "take (CurPopPos P) (PopParams P) ! i \<in> set (take (CurPopPos P) (PopParams P))"
    by (rule nth_mem[OF il])
  then have m: "PopParams P ! i \<in> set (take (CurPopPos P) (PopParams P))"
    using assms(2) by simp
  from ob m have "item_obj (PopParams P ! i) = item_rank (PopParams P ! i)"
    unfolding objs_ok_def by blast
  moreover from so assms(2) have "item_rank (PopParams P ! i) \<noteq> NaN"
    unfolding pop_sorted_def ranks_num_def by blast
  ultimately show ?thesis by simp
qed

lemma main_cost_num: "par_num inp \<Longrightarrow> main_cost optcost inp s \<noteq> NaN"
  by (auto simp add: main_cost_def par_num_def fixCostNaN_num)

lemma optimize_main_step:
  fixes s :: core and inp :: step_in and optcost :: "real list \<Rightarrow> double"
    and push :: "core option"
  assumes inv: "core_inv s" and nd: "\<not> DoInitEvals s" and pn: "par_num inp"
  defines "c \<equiv> main_cost optcost inp s"
  defines "s' \<equiv> fst (optimize_main optcost inp s push)"
  shows "core_inv s'" and "\<not> DoInitEvals s'"
    and "dle (BestCost s') (BestCost s)"
    and "BestCost s' = BestCost s \<and> BestValues s' = BestValues s \<or>
         BestCost s' = c \<and> BestValues s' = evaluated inp s"
proof -
  let ?Tmp = "main_Tmp inp s"
  let ?u = "updatePop c ?Tmp True 3 ((own s)\<lparr>TmpParams := ?Tmp\<rparr>)"
  let ?p = "fst ?u" and ?pop1 = "snd ?u"
  let ?n = "ParamCount (own s)"
  have cn: "c \<noteq> NaN" unfolding c_def by (rule main_cost_num[OF pn])
  from inv nd have ok: "pop_ok (own s)" and ps2: "2 \<le> PopSize (own s)"
    and cs: "1 \<le> CurPopSize (own s)" "CurPopSize (own s) \<le> PopSize (own s)"
    and full: "CurPopPos (own s) = PopSize (own s)"
    and par: "\<forall>P\<in>set (ParPops s). pop_ok P \<and> CurPopPos P = PopSize P"
    and pp: "ParPops s \<noteq> []" and old: "length (OldPops s) = 2" "\<forall>P\<in>set (OldPops s). pop_ok P"
    and bn: "BestCost s \<noteq> NaN"
    and hd: "0 < CurPopPos (own s) \<longrightarrow> dle (item_rank (PopParams (own s) ! 0)) (BestCost s)"
    unfolding core_inv_def by auto
  let ?o = "(own s)\<lparr>TmpParams := ?Tmp\<rparr>"
  have oko: "pop_ok ?o" by (rule pop_ok_fields[OF ok]) simp_all
  then have wf: "pop_wf ?o" and so: "pop_sorted ?o" unfolding pop_ok_def by auto
  have fullo: "CurPopPos ?o = PopSize ?o" using full by simp
  have n0: "0 < CurPopPos ?o" using full ps2 by simp
  have ok1: "pop_ok ?pop1" by (rule updatePop_ok[OF oko cn])
  have full1: "CurPopPos ?pop1 = PopSize ?pop1" by (rule updatePop_full_stays[OF fullo])
  have sz1: "PopSize ?pop1 = PopSize (own s)" "CurPopSize ?pop1 = CurPopSize (own s)" by simp_all
  note h = updatePop_head[OF wf so cn n0, of ?Tmp True 3]
  from hd n0 have b: "dle (item_rank (PopParams (own s) ! 0)) (BestCost s)" by simp
  with h have head: "dle (item_rank (PopParams ?pop1 ! 0)) (BestCost s)"
    using dle_trans by fastforce
  from h have head0: "?p = 0 \<Longrightarrow> item_rank (PopParams ?pop1 ! 0) = c" by simp
  note pp1 = updateParPop_ok[OF pp par cn, of ?n ?Tmp]
  text \<open>the fields of the result\<close>
  have ev: "evaluated inp s = (if gen_DoEval inp
              then map (getRealValue (MinValues s) (DiffValues s) ?Tmp) [0..<?n] else par_Values inp)"
    using nd by (simp add: evaluated_def main_Tmp_def Let_def)
  have cc: "c = (if gen_DoEval inp
              then fixCostNaN (optcost (map (getRealValue (MinValues s) (DiffValues s) ?Tmp) [0..<?n]))
              else par_Cost inp)"
    unfolding c_def main_cost_def ev by simp
  have tmp: "(if gen_DoEval inp
      then map (\<lambda>i. wrapParam (wrap_raw inp i) (gen_Params inp ! i)) [0..<ParamCount (own s)]
      else gen_Params inp) = ?Tmp" by (simp add: main_Tmp_def)
  have lastc: "(if gen_DoEval inp
      then fixCostNaN (optcost (if gen_DoEval inp
             then map (getRealValue (MinValues s) (DiffValues s) ?Tmp) [0..<?n] else NewValues s))
      else par_Cost inp) = c"
    by (simp add: cc)
  have di: "DoInitEvals s' = DoInitEvals s"
    unfolding s'_def optimize_main_def Let_def by (simp add: case_prod_beta)
  have pps: "ParPops s' = updateParPop ?n c ?Tmp (ParPops s)"
    unfolding s'_def optimize_main_def Let_def tmp cc by (simp add: case_prod_beta)
  have ownf: "PopSize (own s') = PopSize (own s)" "PopParams (own s') = PopParams ?pop1"
    "CurPopPos (own s') = CurPopPos ?pop1"
    unfolding s'_def optimize_main_def Let_def tmp cc by (simp_all add: case_prod_beta)
  show "\<not> DoInitEvals s'" using di nd by simp
  let ?rej = "int ?p > int (CurPopSize ?pop1) - 1"
  have cse: "CurPopSize (own s') = CurPopSize (own s) \<or>
             (CurPopSize (own s) < PopSize (own s) \<and> CurPopSize (own s') = CurPopSize (own s) + 1) \<or>
             (CurPopSize (own s) > PopSize (own s) div 2 \<and> CurPopSize (own s') = CurPopSize (own s) - 1)"
    unfolding s'_def optimize_main_def Let_def tmp cc
    by (simp add: case_prod_beta)
  have csf: "1 \<le> CurPopSize (own s') \<and> CurPopSize (own s') \<le> PopSize (own s)"
    using cse cs ps2 by arith
  have bc: "BestCost s' = (if \<not> ?rej \<and> ?p = 0 then c else BestCost s)"
    and bv: "BestValues s' = (if \<not> ?rej \<and> ?p = 0 then evaluated inp s else BestValues s)"
    unfolding s'_def optimize_main_def Let_def tmp cc ev
    by (simp_all add: case_prod_beta updateBestCost_nat del: of_nat_eq_0_iff)
  let ?Old = "PopParams ?pop1 ! (CurPopSize ?pop1 - 1)"
  have "CurPopSize ?pop1 - 1 < CurPopPos ?pop1" unfolding full1 using cs ps2 by simp
  then have on: "item_obj ?Old \<noteq> NaN" by (rule pop_ok_obj_num[OF ok1])
  have o0: "pop_ok (OldPops s ! 0)" and o1: "pop_ok (OldPops s ! 1)" using old by simp_all
  note u0 = updatePop_ok[OF o0 on, of "item_params ?Old" False 0]
  note u1 = updatePop_ok[OF o1 on, of "item_params ?Old" False 0]
  have olds: "length (OldPops s') = 2 \<and> (\<forall>P\<in>set (OldPops s'). pop_ok P)"
    unfolding s'_def optimize_main_def Let_def tmp lastc using old u0 u1 o0 o1
    by (simp add: case_prod_beta)
  have okown: "pop_ok (own s')"
    by (rule pop_ok_fields[OF ok1]) (simp_all add: ownf)
  have head': "dle (item_rank (PopParams ?pop1 ! 0)) (BestCost s')"
    unfolding bc using head head0 cn by (simp add: dle_refl_iff)
  have bn': "BestCost s' \<noteq> NaN" unfolding bc using cn bn by simp
  show "core_inv s'"
    unfolding core_inv_def using okown ps2 csf di nd full1 pp1 olds bn' head'
    by (simp add: ownf pps)
  show "dle (BestCost s') (BestCost s)"
  proof (cases "\<not> ?rej \<and> ?p = 0")
    case True
    then have "item_rank (PopParams ?pop1 ! 0) = c" using head0 by simp
    with head have "dle c (BestCost s)" by simp
    moreover have "BestCost s' = c" unfolding bc by (rule if_P[OF True])
    ultimately show ?thesis by simp
  next
    case False
    have "BestCost s' = BestCost s" unfolding bc by (rule if_not_P[OF False])
    moreover have "dle (BestCost s) (BestCost s)" using bn by (simp add: dle_refl_iff)
    ultimately show ?thesis by simp
  qed
  show "BestCost s' = BestCost s \<and> BestValues s' = BestValues s \<or>
         BestCost s' = c \<and> BestValues s' = evaluated inp s"
    unfolding bc bv by simp
qed

lemma optimize_main_push:
  fixes s :: core and inp :: step_in and optcost :: "real list \<Rightarrow> double"
  assumes pn: "par_num inp" and nd: "\<not> DoInitEvals s"
  shows "snd (optimize_main optcost inp s None) = None"
    and "\<exists>t'. snd (optimize_main optcost inp s (Some t)) = Some t' \<and>
           BestCost t' = BestCost t \<and> BestValues t' = BestValues t \<and>
           DoInitEvals t' = DoInitEvals t \<and> (core_inv t \<longrightarrow> core_inv t') \<and>
           (0 < CurPopPos (own t) \<longrightarrow> 0 < CurPopPos (own t'))"
proof -
  show "snd (optimize_main optcost inp s None) = None"
    unfolding optimize_main_def Let_def by (simp add: case_prod_beta)
  let ?c = "main_cost optcost inp s" and ?Tmp = "main_Tmp inp s" and ?n = "ParamCount (own s)"
  have cn: "?c \<noteq> NaN" by (rule main_cost_num[OF pn])
  have tmp: "(if gen_DoEval inp
      then map (\<lambda>i. wrapParam (wrap_raw inp i) (gen_Params inp ! i)) [0..<ParamCount (own s)]
      else gen_Params inp) = ?Tmp" by (simp add: main_Tmp_def)
  have lastc: "(if gen_DoEval inp
      then fixCostNaN (optcost (if gen_DoEval inp
             then map (getRealValue (MinValues s) (DiffValues s) ?Tmp) [0..<?n] else NewValues s))
      else par_Cost inp) = ?c"
    using nd by (simp add: main_cost_def evaluated_def main_Tmp_def Let_def)
  let ?r = "snd (optimize_main optcost inp s (Some t))"
  have "?r = Some t \<or> (\<not> DoInitEvals t \<and> ?r = Some (push_into ?c ?Tmp t))"
    unfolding optimize_main_def Let_def tmp lastc
    by (simp add: case_prod_beta)
  then show "\<exists>t'. ?r = Some t' \<and>
           BestCost t' = BestCost t \<and> BestValues t' = BestValues t \<and>
           DoInitEvals t' = DoInitEvals t \<and> (core_inv t \<longrightarrow> core_inv t') \<and>
           (0 < CurPopPos (own t) \<longrightarrow> 0 < CurPopPos (own t'))"
  proof
    assume "?r = Some t"
    then show ?thesis by simp
  next
    assume a: "\<not> DoInitEvals t \<and> ?r = Some (push_into ?c ?Tmp t)"
    then have nt: "\<not> DoInitEvals t" and r: "?r = Some (push_into ?c ?Tmp t)" by simp_all
    have "core_inv t \<longrightarrow> core_inv (push_into ?c ?Tmp t)"
      using push_into_step(1)[OF _ nt cn] by blast
    moreover have "0 < CurPopPos (own t) \<longrightarrow> 0 < CurPopPos (own (push_into ?c ?Tmp t))"
      by (simp add: push_into_def Let_def updatePop_CurPopPos)
    moreover have "BestCost (push_into ?c ?Tmp t) = BestCost t"
      "BestValues (push_into ?c ?Tmp t) = BestValues t"
      "DoInitEvals (push_into ?c ?Tmp t) = DoInitEvals t"
      by (simp_all add: push_into_def Let_def)
    ultimately show ?thesis unfolding r by simp
  qed
qed

lemma core_inv_num: "core_inv s \<Longrightarrow> core_num s"
proof -
  assume inv: "core_inv s"
  have pn: "\<And>P. pop_ok P \<Longrightarrow> pop_num P"
  proof -
    fix P assume ok: "pop_ok P"
    then have wf: "pop_wf P" and so: "pop_sorted P" and ob: "objs_ok P"
      unfolding pop_ok_def by auto
    from wf have le: "CurPopPos P \<le> length (PopParams P)" unfolding pop_wf_def by simp
    from so have "NaN \<notin> set (map item_rank (take (CurPopPos P) (PopParams P)))"
      unfolding pop_sorted_def ranks_num_conv[OF le] by simp
    then have r: "\<forall>x\<in>set (take (CurPopPos P) (PopParams P)). item_rank x \<noteq> NaN" by force
    with ob show "pop_num P" unfolding pop_num_def objs_ok_def by simp
  qed
  from inv show "core_num s" unfolding core_inv_def core_num_def using pn by blast
qed

lemma core_inv_alloc: "core_inv s \<Longrightarrow> core_alloc s"
  unfolding core_inv_def core_alloc_def pop_ok_def pop_wf_def by auto

text \<open>The cost of one call, whichever branch is taken.\<close>

lemma step_best:
  fixes s :: core and inp :: step_in and optcost :: "real list \<Rightarrow> double"
    and push :: "core option"
  assumes inv: "core_inv s" and pn: "par_num inp"
  defines "s' \<equiv> fst (snd (CBiteOpt_optimize optcost inp s push))"
  shows "core_inv s'"
    and "0 < CurPopPos (own s')"
    and "0 < CurPopPos (own s) \<Longrightarrow> dle (BestCost s') (BestCost s)"
    and "BestCost s' = BestCost s \<and> BestValues s' = BestValues s \<or>
         BestCost s' = step_cost optcost inp s \<and> BestValues s' = evaluated inp s"
    and "CurPopPos (own s) = 0 \<Longrightarrow>
         BestCost s' = step_cost optcost inp s \<and> BestValues s' = evaluated inp s"
proof -
  have r: "core_inv s' \<and> 
    (0 < CurPopPos (own s) \<longrightarrow> dle (BestCost s') (BestCost s)) \<and>
    (BestCost s' = BestCost s \<and> BestValues s' = BestValues s \<or>
         BestCost s' = step_cost optcost inp s \<and> BestValues s' = evaluated inp s) \<and>
    (CurPopPos (own s) = 0 \<longrightarrow>
         BestCost s' = step_cost optcost inp s \<and> BestValues s' = evaluated inp s)"
  proof (cases "DoInitEvals s")
    case True
    have e: "s' = optimize_init optcost inp s"
      unfolding s'_def CBiteOpt_optimize_def using True by simp
    have ev: "evaluated inp s =
      map (getRealValue (MinValues s) (DiffValues s) (gi_Params inp)) [0..<ParamCount (own s)]"
      using True by (simp add: evaluated_def)
    have sc: "step_cost optcost inp s = fixCostNaN (optcost (evaluated inp s))"
      using True by (simp add: step_cost_def)
    note st = optimize_init_step[OF inv True, of optcost inp, folded ev, folded sc e]
    from st show ?thesis by simp
  next
    case False
    have e: "s' = fst (optimize_main optcost inp s push)"
      unfolding s'_def CBiteOpt_optimize_def using False by (simp add: case_prod_beta)
    have sc: "step_cost optcost inp s = main_cost optcost inp s"
      using False by (simp add: step_cost_def main_cost_def)
    note st = optimize_main_step[OF inv False pn, of optcost push, folded e sc]
    from inv False have "CurPopPos (own s) = PopSize (own s)" "2 \<le> PopSize (own s)"
      unfolding core_inv_def by auto
    then have "0 < CurPopPos (own s)" by simp
    with st show ?thesis by simp
  qed
  then show "core_inv s'" 
    and "0 < CurPopPos (own s) \<Longrightarrow> dle (BestCost s') (BestCost s)"
    and "BestCost s' = BestCost s \<and> BestValues s' = BestValues s \<or>
         BestCost s' = step_cost optcost inp s \<and> BestValues s' = evaluated inp s"
    and "CurPopPos (own s) = 0 \<Longrightarrow>
         BestCost s' = step_cost optcost inp s \<and> BestValues s' = evaluated inp s"
    by simp_all
  show "0 < CurPopPos (own s')"
  proof (cases "DoInitEvals s")
    case True
    have e: "s' = optimize_init optcost inp s"
      unfolding s'_def CBiteOpt_optimize_def using True by simp
    from inv True have "CurPopPos (own s) < PopSize (own s)" unfolding core_inv_def by simp
    then show ?thesis unfolding e optimize_init_def Let_def
      by (simp add: case_prod_beta updatePop_CurPopPos)
  next
    case False
    have e: "s' = fst (optimize_main optcost inp s push)"
      unfolding s'_def CBiteOpt_optimize_def using False by (simp add: case_prod_beta)
    note st = optimize_main_step(1,2)[OF inv False pn, of optcost push, folded e]
    then have "CurPopPos (own s') = PopSize (own s')" "2 \<le> PopSize (own s')"
      unfolding core_inv_def by auto
    then show ?thesis by simp
  qed
qed

lemma step_push:
  fixes s :: core and inp :: step_in and optcost :: "real list \<Rightarrow> double"
  assumes pn: "par_num inp"
  shows "snd (snd (CBiteOpt_optimize optcost inp s None)) = None"
    and "\<exists>t'. snd (snd (CBiteOpt_optimize optcost inp s (Some t))) = Some t' \<and>
           BestCost t' = BestCost t \<and> BestValues t' = BestValues t \<and>
           DoInitEvals t' = DoInitEvals t \<and> (core_inv t \<longrightarrow> core_inv t') \<and>
           (0 < CurPopPos (own t) \<longrightarrow> 0 < CurPopPos (own t'))"
proof -
  show "snd (snd (CBiteOpt_optimize optcost inp s None)) = None"
    using optimize_main_push(1)[OF pn, of s optcost]
    by (cases "DoInitEvals s") (simp_all add: CBiteOpt_optimize_def case_prod_beta)
  show "\<exists>t'. snd (snd (CBiteOpt_optimize optcost inp s (Some t))) = Some t' \<and>
           BestCost t' = BestCost t \<and> BestValues t' = BestValues t \<and>
           DoInitEvals t' = DoInitEvals t \<and> (core_inv t \<longrightarrow> core_inv t') \<and>
           (0 < CurPopPos (own t) \<longrightarrow> 0 < CurPopPos (own t'))"
  proof (cases "DoInitEvals s")
    case True
    then show ?thesis by (simp add: CBiteOpt_optimize_def)
  next
    case False
    have e: "snd (snd (CBiteOpt_optimize optcost inp s (Some t))) =
             snd (optimize_main optcost inp s (Some t))"
      using False by (simp add: CBiteOpt_optimize_def case_prod_beta)
    show ?thesis unfolding e using optimize_main_push(2)[OF pn False, of optcost t] by blast
  qed
qed

section \<open>Core optimizer: what one call stores\<close>

lemma core_ex_inv: "core_inv core_ex"
proof -
  have "objs_ok pop_ex2" by (simp add: objs_ok_def pop_ex2_def)
  then have ok: "pop_ok pop_ex2" unfolding pop_ok_def using pop_ex2_inv by simp
  have f: "PopSize pop_ex2 = 2" "CurPopSize pop_ex2 = 2" "CurPopPos pop_ex2 = 2"
    "item_rank (PopParams pop_ex2 ! 0) = Fin 1"
    by (simp_all add: pop_ex2_def)
  show ?thesis unfolding core_inv_def core_ex_def using ok f by simp
qed

text \<open>A position below \<open>PopSize\<close> returned by \<open>updatePop\<close> holds the record just written.\<close>

lemma updatePop_at_fst:
  assumes wf: "pop_wf P" and lt: "fst (updatePop c ps d t P) < PopSize P"
  shows "PopParams (snd (updatePop c ps d t P)) ! fst (updatePop c ps d t P) = upd_rp c ps"
proof -
  note f = updatePop_fst[of c ps d t P]
  have nrej: "\<not> (\<not> CurPopPos P < PopSize P \<and> dgt c (item_rank (PopParams P ! upd_ri P)))"
  proof
    assume "\<not> CurPopPos P < PopSize P \<and> dgt c (item_rank (PopParams P ! upd_ri P))"
    then have "fst (updatePop c ps d t P) = PopSize P" unfolding f by simp
    with lt show False by simp
  qed
  have neq: "\<not> (\<not> CurPopPos P < PopSize P \<and>
       isEqual c (item_rank (PopParams P ! bsearch (PopParams P) c 0 (upd_ri P))))"
  proof
    assume "\<not> CurPopPos P < PopSize P \<and>
       isEqual c (item_rank (PopParams P ! bsearch (PopParams P) c 0 (upd_ri P)))"
    then have "fst (updatePop c ps d t P) = PopSize P" unfolding f by simp
    with lt show False by simp
  qed
  have e: "fst (updatePop c ps d t P) = bsearch (PopParams P) c 0 (upd_ri P)"
    unfolding f if_not_P[OF nrej] if_not_P[OF neq] ..
  have acc: "CurPopPos P < PopSize P \<or> \<not> dgt c (item_rank (PopParams P ! (PopSize P - 1)))"
    using nrej unfolding upd_ri_def by auto
  from updatePop_stored[OF wf acc, of ps d t] show ?thesis unfolding e by simp
qed

lemma optimize_init_fields:
  fixes s :: core and inp :: step_in and optcost :: "real list \<Rightarrow> double"
  assumes di: "DoInitEvals s"
  defines "c \<equiv> step_cost optcost inp s"
  defines "u \<equiv> step_update optcost inp s"
  defines "s' \<equiv> optimize_init optcost inp s"
  shows "PopParams (own s') = PopParams (snd u)"
    and "BestCost s' = (if fst u = 0 then c else BestCost s)"
    and "BestValues s' = (if fst u = 0 then evaluated inp s else BestValues s)"
proof -
  let ?vals = "map (getRealValue (MinValues s) (DiffValues s) (gi_Params inp)) [0..<ParamCount (own s)]"
  have ev: "evaluated inp s = ?vals" using di by (simp add: evaluated_def)
  have sc: "c = fixCostNaN (optcost ?vals)" unfolding c_def step_cost_def ev using di by simp
  have su: "u = updatePop c (gi_Params inp) False 0 (own s)"
    unfolding u_def step_update_def c_def using di by simp
  let ?s0 = "s\<lparr>own := snd u, NewValues := ?vals, LastCosts0 := c, LastValues := ?vals\<rparr>"
  let ?s1 = "updateBestCost c ?vals (int (fst u)) ?s0"
  have e: "s' = (if CurPopPos (snd u) = PopSize (snd u) then
                   ?s1\<lparr>own := updateCentroid (snd u),
                        ParPops := map (\<lambda>P. pop_copy P (updateCentroid (snd u))) (ParPops ?s1),
                        DoInitEvals := False\<rparr>
                 else ?s1)"
    unfolding s'_def optimize_init_def Let_def sc[symmetric] su[symmetric]
    by (simp add: case_prod_beta)
  show "PopParams (own s') = PopParams (snd u)" unfolding e by simp
  show "BestCost s' = (if fst u = 0 then c else BestCost s)"
    unfolding e by (simp add: updateBestCost_nat del: of_nat_eq_0_iff)
  show "BestValues s' = (if fst u = 0 then evaluated inp s else BestValues s)"
    unfolding e ev by (simp add: updateBestCost_nat del: of_nat_eq_0_iff)
qed

lemma optimize_main_fields:
  fixes s :: core and inp :: step_in and optcost :: "real list \<Rightarrow> double"
    and push :: "core option"
  assumes nd: "\<not> DoInitEvals s" and cs: "1 \<le> CurPopSize (own s)"
  defines "c \<equiv> step_cost optcost inp s"
  defines "u \<equiv> step_update optcost inp s"
  defines "s' \<equiv> fst (optimize_main optcost inp s push)"
  shows "PopParams (own s') = PopParams (snd u)"
    and "BestCost s' = (if fst u = 0 then c else BestCost s)"
    and "BestValues s' = (if fst u = 0 then evaluated inp s else BestValues s)"
    and "ParPops s' = updateParPop (ParamCount (own s)) c (main_Tmp inp s) (ParPops s)"
proof -
  let ?Tmp = "main_Tmp inp s"
  let ?n = "ParamCount (own s)"
  have ev: "evaluated inp s = (if gen_DoEval inp
              then map (getRealValue (MinValues s) (DiffValues s) ?Tmp) [0..<?n] else par_Values inp)"
    using nd by (simp add: evaluated_def main_Tmp_def Let_def)
  have cc: "c = (if gen_DoEval inp
              then fixCostNaN (optcost (map (getRealValue (MinValues s) (DiffValues s) ?Tmp) [0..<?n]))
              else par_Cost inp)"
    unfolding c_def step_cost_def ev using nd by simp
  have su: "u = updatePop c ?Tmp True 3 ((own s)\<lparr>TmpParams := ?Tmp\<rparr>)"
    unfolding u_def step_update_def c_def using nd by simp
  have tmp: "(if gen_DoEval inp
      then map (\<lambda>i. wrapParam (wrap_raw inp i) (gen_Params inp ! i)) [0..<ParamCount (own s)]
      else gen_Params inp) = ?Tmp" by (simp add: main_Tmp_def)
  have lastc: "(if gen_DoEval inp
      then fixCostNaN (optcost (if gen_DoEval inp
             then map (getRealValue (MinValues s) (DiffValues s) ?Tmp) [0..<?n] else NewValues s))
      else par_Cost inp) = c"
    by (simp add: cc)
  have sz: "CurPopSize (snd u) = CurPopSize (own s)" unfolding su by simp
  let ?rej = "int (fst u) > int (CurPopSize (snd u)) - 1"
  have rej0: "fst u = 0 \<Longrightarrow> \<not> ?rej" unfolding sz using cs by simp
  show "PopParams (own s') = PopParams (snd u)"
    unfolding s'_def optimize_main_def Let_def tmp lastc su[symmetric]
    by (simp add: case_prod_beta)
  show "ParPops s' = updateParPop ?n c ?Tmp (ParPops s)"
    unfolding s'_def optimize_main_def Let_def tmp lastc su[symmetric]
    by (simp add: case_prod_beta)
  have bc: "BestCost s' = (if \<not> ?rej \<and> fst u = 0 then c else BestCost s)"
    and bv: "BestValues s' = (if \<not> ?rej \<and> fst u = 0 then evaluated inp s else BestValues s)"
    unfolding s'_def optimize_main_def Let_def tmp lastc su[symmetric] ev
    by (simp_all add: case_prod_beta updateBestCost_nat del: of_nat_eq_0_iff)
  show "BestCost s' = (if fst u = 0 then c else BestCost s)"
    unfolding bc using rej0 by (cases "fst u = 0") simp_all
  show "BestValues s' = (if fst u = 0 then evaluated inp s else BestValues s)"
    unfolding bv using rej0 by (cases "fst u = 0") simp_all
qed

text \<open>
  One call of \<open>optimize\<close>, in either branch: the own population is what \<open>updatePop\<close>
  leaves, given the call's cost and vector; a returned position below \<open>PopSize\<close> holds
  the record with that cost as objective value and rank; position 0 makes the cost
  and the evaluated vector the best solution, and any other position leaves the best
  solution alone; after the initial evaluations \<open>updateParPop\<close> gets the same cost and
  vector.
\<close>

lemma step_fields:
  fixes s :: core and inp :: step_in and optcost :: "real list \<Rightarrow> double"
    and push :: "core option"
  assumes inv: "core_inv s"
  defines "c \<equiv> step_cost optcost inp s"
  defines "u \<equiv> step_update optcost inp s"
  defines "s' \<equiv> fst (snd (CBiteOpt_optimize optcost inp s push))"
  shows "PopParams (own s') = PopParams (snd u)"
    and "fst u < PopSize (own s) \<Longrightarrow> PopParams (own s') ! fst u = upd_rp c (step_params inp s)"
    and "BestCost s' = (if fst u = 0 then c else BestCost s)"
    and "BestValues s' = (if fst u = 0 then evaluated inp s else BestValues s)"
    and "\<not> DoInitEvals s \<Longrightarrow>
         ParPops s' = updateParPop (ParamCount (own s)) c (step_params inp s) (ParPops s)"
proof -
  from inv have wf: "pop_wf (own s)" and cs: "1 \<le> CurPopSize (own s)"
    unfolding core_inv_def pop_ok_def by auto
  have r: "PopParams (own s') = PopParams (snd u) \<and>
           BestCost s' = (if fst u = 0 then c else BestCost s) \<and>
           BestValues s' = (if fst u = 0 then evaluated inp s else BestValues s) \<and>
           (\<not> DoInitEvals s \<longrightarrow>
              ParPops s' = updateParPop (ParamCount (own s)) c (step_params inp s) (ParPops s))"
  proof (cases "DoInitEvals s")
    case True
    have e: "s' = optimize_init optcost inp s"
      unfolding s'_def CBiteOpt_optimize_def using True by simp
    note f = optimize_init_fields[OF True, of optcost inp, folded e c_def u_def]
    from f True show ?thesis by simp
  next
    case False
    have e: "s' = fst (optimize_main optcost inp s push)"
      unfolding s'_def CBiteOpt_optimize_def using False by (simp add: case_prod_beta)
    have sp: "step_params inp s = main_Tmp inp s" using False by (simp add: step_params_def)
    note f = optimize_main_fields[OF False cs, of optcost inp push, folded e c_def u_def]
    from f show ?thesis unfolding sp by simp
  qed
  from r show "PopParams (own s') = PopParams (snd u)"
    and "BestCost s' = (if fst u = 0 then c else BestCost s)"
    and "BestValues s' = (if fst u = 0 then evaluated inp s else BestValues s)"
    and "\<not> DoInitEvals s \<Longrightarrow>
         ParPops s' = updateParPop (ParamCount (own s)) c (step_params inp s) (ParPops s)"
    by simp_all
  show "PopParams (own s') ! fst u = upd_rp c (step_params inp s)" if lt: "fst u < PopSize (own s)"
  proof (cases "DoInitEvals s")
    case True
    have su: "u = updatePop c (gi_Params inp) False 0 (own s)"
      unfolding u_def step_update_def c_def using True by simp
    have sp: "step_params inp s = gi_Params inp" using True by (simp add: step_params_def)
    from lt have lt': "fst (updatePop c (gi_Params inp) False 0 (own s)) < PopSize (own s)"
      unfolding su .
    from updatePop_at_fst[OF wf lt'] show ?thesis
      using r unfolding sp su by simp
  next
    case False
    let ?o = "(own s)\<lparr>TmpParams := main_Tmp inp s\<rparr>"
    have su: "u = updatePop c (main_Tmp inp s) True 3 ?o"
      unfolding u_def step_update_def c_def using False by simp
    have sp: "step_params inp s = main_Tmp inp s" using False by (simp add: step_params_def)
    have wfo: "pop_wf ?o" using wf unfolding pop_wf_def by simp
    from lt have lt': "fst (updatePop c (main_Tmp inp s) True 3 ?o) < PopSize ?o"
      unfolding su by simp
    from updatePop_at_fst[OF wfo lt'] show ?thesis
      using r unfolding sp su by simp
  qed
qed

section \<open>NaN costs\<close>

lemma fixCostNaN_idem: "fixCostNaN (fixCostNaN y) = fixCostNaN y"
  by (cases y) (simp_all add: fixCostNaN_def)

lemma optimize_through_fix:
  "CBiteOpt_optimize (\<lambda>v. fixCostNaN (optcost v)) inp s push = CBiteOpt_optimize optcost inp s push"
  unfolding CBiteOpt_optimize_def optimize_init_def optimize_main_def fixCostNaN_idem ..

lemma optimize_LastCosts0:
  assumes "DoInitEvals s \<or> gen_DoEval inp"
  shows "LastCosts0 (fst (snd (CBiteOpt_optimize optcost inp s push))) =
         fixCostNaN (optcost (evaluated inp s))"
proof (cases "DoInitEvals s")
  case True
  then show ?thesis
    unfolding CBiteOpt_optimize_def optimize_init_def evaluated_def Let_def
    by (simp add: case_prod_beta)
next
  case False
  with assms have "gen_DoEval inp" by simp
  then show ?thesis using False
    unfolding CBiteOpt_optimize_def optimize_main_def evaluated_def Let_def
    by (simp add: case_prod_beta)
qed

lemma par_fixed_num: "par_fixed optcost inp \<Longrightarrow> par_num inp"
  unfolding par_fixed_def par_num_def using fixCostNaN_num by auto

lemma nan_step:
  fixes s :: core
  assumes inv: "core_inv s" and bc: "BestCost s = Fin c1e300"
    and pf: "par_fixed optcost inp" and nan: "\<forall>v. optcost v = NaN"
  defines "s' \<equiv> fst (snd (CBiteOpt_optimize optcost inp s None))"
  shows "core_inv s'" and "BestCost s' = Fin c1e300"
    and "BestValues s' = BestValues s \<or> BestValues s' = evaluated inp s"
    and "CurPopPos (own s) = 0 \<Longrightarrow> BestValues s' = evaluated inp s"
proof -
  have f: "fixCostNaN NaN = Fin c1e300" by (simp add: fixCostNaN_cases)
  have sc: "step_cost optcost inp s = Fin c1e300"
    using pf nan f by (auto simp add: step_cost_def par_fixed_def)
  note pn = par_fixed_num[OF pf]
  note st = step_best[OF inv pn, of optcost None, folded s'_def, unfolded sc]
  show "core_inv s'" by (rule st(1))
  show "BestCost s' = Fin c1e300" using st(4) bc by auto
  show "BestValues s' = BestValues s \<or> BestValues s' = evaluated inp s" using st(4) by auto
  show "CurPopPos (own s) = 0 \<Longrightarrow> BestValues s' = evaluated inp s" using st(5) by simp
qed

lemma nan_run:
  assumes "core_inv s" and "BestCost s = Fin c1e300"
    and "\<forall>inp\<in>set inps. par_fixed optcost inp" and nan: "\<forall>v. optcost v = NaN"
  shows "core_inv (core_run optcost inps s) \<and> BestCost (core_run optcost inps s) = Fin c1e300 \<and>
         BestValues (core_run optcost inps s) \<in> insert (BestValues s) (set (run_evaluated optcost inps s))"
  using assms(1,2,3)
proof (induction inps arbitrary: s)
  case Nil
  then show ?case by simp
next
  case (Cons inp inps)
  let ?s1 = "fst (snd (CBiteOpt_optimize optcost inp s None))"
  from Cons.prems(3) have pf: "par_fixed optcost inp" and rest: "\<forall>i\<in>set inps. par_fixed optcost i"
    by simp_all
  note st = nan_step[OF Cons.prems(1,2) pf nan]
  note ih = Cons.IH[OF st(1,2) rest]
  from ih st(3) show ?case by auto
qed

lemma step_cost_evaluated:
  "DoInitEvals s \<or> gen_DoEval inp \<Longrightarrow>
   step_cost optcost inp s = fixCostNaN (optcost (evaluated inp s))"
  by (simp add: step_cost_def)

text \<open>
  Claim C4. The cost handed to the population and to the best-solution bookkeeping is the
  objective's value, with NaN replaced by \<open>1e300\<close>: \<open>fixCostNaN\<close> is that replacement, a
  call of \<open>optimize\<close> sees the objective only through it, and the cost of a call that
  evaluates the objective (\<open>LastCosts[ 0 ]\<close>) is the replaced value at the evaluated
  vector. That cost is what the call hands on, in either branch: the own population
  after the call is what \<open>updatePop\<close> leaves when given the cost and the call's vector;
  when \<open>updatePop\<close> returns a position below \<open>PopSize\<close>, the record there carries the
  cost as objective value and rank; position 0 makes the cost the best cost and the
  evaluated vector the best vector, any other position leaves both alone; and after
  the initial evaluations the parallel populations are what \<open>updateParPop\<close> leaves when
  given the same cost and vector. For a run of one or more calls after \<open>init\<close> in which
  the objective returns NaN at every vector (solutions taken over from the embedded
  optimizers carrying the cost those report under the same replacement), no NaN is
  stored in a population, the best cost is \<open>1e300\<close> and the best vector is one of the
  vectors evaluated in the run.
\<close>

theorem nan_cost_sentinel:
  "fixCostNaN y = (if y = NaN then Fin c1e300 else y) \<and>
   CBiteOpt_optimize (\<lambda>v. fixCostNaN (optcost v)) inp s push = CBiteOpt_optimize optcost inp s push \<and>
   (DoInitEvals s \<or> gen_DoEval inp \<longrightarrow>
      step_cost optcost inp s = fixCostNaN (optcost (evaluated inp s)) \<and>
      LastCosts0 (fst (snd (CBiteOpt_optimize optcost inp s push))) =
        fixCostNaN (optcost (evaluated inp s))) \<and>
   (core_inv s \<longrightarrow>
      PopParams (own (fst (snd (CBiteOpt_optimize optcost inp s push)))) =
        PopParams (snd (step_update optcost inp s)) \<and>
      (fst (step_update optcost inp s) < PopSize (own s) \<longrightarrow>
         PopParams (own (fst (snd (CBiteOpt_optimize optcost inp s push)))) !
             fst (step_update optcost inp s) =
           \<lparr>item_params = step_params inp s, item_obj = step_cost optcost inp s,
            item_rank = step_cost optcost inp s\<rparr>) \<and>
      BestCost (fst (snd (CBiteOpt_optimize optcost inp s push))) =
        (if fst (step_update optcost inp s) = 0 then step_cost optcost inp s else BestCost s) \<and>
      BestValues (fst (snd (CBiteOpt_optimize optcost inp s push))) =
        (if fst (step_update optcost inp s) = 0 then evaluated inp s else BestValues s) \<and>
      (\<not> DoInitEvals s \<longrightarrow>
         ParPops (fst (snd (CBiteOpt_optimize optcost inp s push))) =
           updateParPop (ParamCount (own s)) (step_cost optcost inp s) (step_params inp s)
             (ParPops s))) \<and>
   (core_alloc s0 \<and> inps \<noteq> [] \<and> (\<forall>i\<in>set inps. par_fixed optcost i) \<and> (\<forall>v. optcost v = NaN) \<longrightarrow>
      core_num (core_run optcost inps (CBiteOpt_init lb ub s0)) \<and>
      BestCost (core_run optcost inps (CBiteOpt_init lb ub s0)) = Fin c1e300 \<and>
      BestValues (core_run optcost inps (CBiteOpt_init lb ub s0))
        \<in> set (run_evaluated optcost inps (CBiteOpt_init lb ub s0)))"
proof -
  let ?s1 = "CBiteOpt_init lb ub s0"
  have run: "core_num (core_run optcost inps ?s1) \<and>
      BestCost (core_run optcost inps ?s1) = Fin c1e300 \<and>
      BestValues (core_run optcost inps ?s1) \<in> set (run_evaluated optcost inps ?s1)"
    if alloc: "core_alloc s0" and ne: "inps \<noteq> []"
      and par: "\<forall>i\<in>set inps. par_fixed optcost i" and nan: "\<forall>v. optcost v = NaN"
  proof -
    from ne obtain inp rest where inps: "inps = inp # rest" by (cases inps) auto
    from par have pf: "par_fixed optcost inp" and pr: "\<forall>i\<in>set rest. par_fixed optcost i"
      unfolding inps by simp_all
    note i = core_inv_init[OF alloc, of lb ub]
    let ?s2 = "fst (snd (CBiteOpt_optimize optcost inp ?s1 None))"
    note st = nan_step[OF i(1,2) pf nan]
    note r = nan_run[OF st(1,2) pr nan]
    have bv: "BestValues ?s2 = evaluated inp ?s1" by (rule st(4)[OF i(4)])
    from r have "core_inv (core_run optcost inps ?s1)" unfolding inps by simp
    then have "core_num (core_run optcost inps ?s1)" by (rule core_inv_num)
    moreover from r have "BestCost (core_run optcost inps ?s1) = Fin c1e300" unfolding inps by simp
    moreover from r bv have "BestValues (core_run optcost inps ?s1) \<in> set (run_evaluated optcost inps ?s1)"
      unfolding inps by simp
    ultimately show ?thesis by blast
  qed
  have A: "fixCostNaN y = (if y = NaN then Fin c1e300 else y)" by (rule fixCostNaN_cases)
  have B: "CBiteOpt_optimize (\<lambda>v. fixCostNaN (optcost v)) inp s push =
           CBiteOpt_optimize optcost inp s push" by (rule optimize_through_fix)
  have C: "DoInitEvals s \<or> gen_DoEval inp \<longrightarrow>
      step_cost optcost inp s = fixCostNaN (optcost (evaluated inp s)) \<and>
      LastCosts0 (fst (snd (CBiteOpt_optimize optcost inp s push))) =
        fixCostNaN (optcost (evaluated inp s))"
    using step_cost_evaluated[of s inp optcost] optimize_LastCosts0[of s inp optcost push]
    by blast
  have D: "core_inv s \<longrightarrow>
      PopParams (own (fst (snd (CBiteOpt_optimize optcost inp s push)))) =
        PopParams (snd (step_update optcost inp s)) \<and>
      (fst (step_update optcost inp s) < PopSize (own s) \<longrightarrow>
         PopParams (own (fst (snd (CBiteOpt_optimize optcost inp s push)))) !
             fst (step_update optcost inp s) =
           \<lparr>item_params = step_params inp s, item_obj = step_cost optcost inp s,
            item_rank = step_cost optcost inp s\<rparr>) \<and>
      BestCost (fst (snd (CBiteOpt_optimize optcost inp s push))) =
        (if fst (step_update optcost inp s) = 0 then step_cost optcost inp s else BestCost s) \<and>
      BestValues (fst (snd (CBiteOpt_optimize optcost inp s push))) =
        (if fst (step_update optcost inp s) = 0 then evaluated inp s else BestValues s) \<and>
      (\<not> DoInitEvals s \<longrightarrow>
         ParPops (fst (snd (CBiteOpt_optimize optcost inp s push))) =
           updateParPop (ParamCount (own s)) (step_cost optcost inp s) (step_params inp s)
             (ParPops s))"
  proof
    assume inv: "core_inv s"
    note f = step_fields[OF inv, of optcost inp push, unfolded upd_rp_def]
    show "PopParams (own (fst (snd (CBiteOpt_optimize optcost inp s push)))) =
        PopParams (snd (step_update optcost inp s)) \<and>
      (fst (step_update optcost inp s) < PopSize (own s) \<longrightarrow>
         PopParams (own (fst (snd (CBiteOpt_optimize optcost inp s push)))) !
             fst (step_update optcost inp s) =
           \<lparr>item_params = step_params inp s, item_obj = step_cost optcost inp s,
            item_rank = step_cost optcost inp s\<rparr>) \<and>
      BestCost (fst (snd (CBiteOpt_optimize optcost inp s push))) =
        (if fst (step_update optcost inp s) = 0 then step_cost optcost inp s else BestCost s) \<and>
      BestValues (fst (snd (CBiteOpt_optimize optcost inp s push))) =
        (if fst (step_update optcost inp s) = 0 then evaluated inp s else BestValues s) \<and>
      (\<not> DoInitEvals s \<longrightarrow>
         ParPops (fst (snd (CBiteOpt_optimize optcost inp s push))) =
           updateParPop (ParamCount (own s)) (step_cost optcost inp s) (step_params inp s)
             (ParPops s))"
      by (intro conjI impI f)
  qed
  have E: "core_alloc s0 \<and> inps \<noteq> [] \<and> (\<forall>i\<in>set inps. par_fixed optcost i) \<and> (\<forall>v. optcost v = NaN) \<longrightarrow>
      core_num (core_run optcost inps ?s1) \<and>
      BestCost (core_run optcost inps ?s1) = Fin c1e300 \<and>
      BestValues (core_run optcost inps ?s1) \<in> set (run_evaluated optcost inps ?s1)"
    using run by blast
  show ?thesis by (intro conjI A B C D E)
qed

lemma isEqual_ex: "\<not> isEqual (Fin 0) (Fin 1)" "\<not> isEqual (Fin (3 / 2)) (Fin 2)"
proof -
  have d: "to_double (1 + - 0) = Fin 1" using to_double_int_div[of 1 0] by simp
  have s: "to_double (\<bar>1\<bar> + \<bar>0\<bar>) = Fin 1" using to_double_int_div[of 1 0] by simp
  have m: "to_double (1 * (1 / 2 ^ 52)) = Fin (1 / 2 ^ 52)"
    using to_double_int_div[of 1 52] by simp
  show "\<not> isEqual (Fin 0) (Fin 1)" unfolding isEqual_def dsub_def Let_def
    by (simp only: dneg.simps dadd.simps dabs.simps dmul.simps d s m) simp
  have d: "to_double (2 + - (3 / 2)) = Fin (1 / 2)"
    using to_double_int_div[of 1 1] by simp
  have s: "to_double (\<bar>2\<bar> + \<bar>3 / 2\<bar>) = Fin (7 / 2)"
    using to_double_int_div[of 7 1] by simp
  have m: "to_double (7 / 2 * (1 / 2 ^ 52)) = Fin (7 / 2 ^ 53)"
    using to_double_int_div[of 7 53] by simp
  show "\<not> isEqual (Fin (3 / 2)) (Fin 2)" unfolding isEqual_def dsub_def Let_def
    by (simp only: dneg.simps dadd.simps dabs.simps dmul.simps d s m) simp
qed

lemma step_ex_cost:
  "step_cost (\<lambda>v. Fin c) step_ex core_ex = Fin c"
  by (simp add: step_cost_def step_ex_def fixCostNaN_cases)

lemma step_update_ex:
  "fst (step_update (\<lambda>v. Fin 0) step_ex core_ex) = 0"
  "fst (step_update (\<lambda>v. Fin (3 / 2)) step_ex core_ex) = 1"
proof -
  have nd: "\<not> DoInitEvals core_ex" and o: "own core_ex = pop_ex2" by (simp_all add: core_ex_def)
  have b0: "bsearch (PopParams pop_ex2) (Fin 0) 0 (Suc 0) = 0"
    by (simp add: pop_ex2_def bsearch.simps)
  have b1: "bsearch (PopParams pop_ex2) (Fin (3 / 2)) 0 (Suc 0) = Suc 0"
    by (simp add: pop_ex2_def bsearch.simps)
  have f: "CurPopPos pop_ex2 = 2" "PopSize pop_ex2 = 2"
    "item_rank (PopParams pop_ex2 ! 0) = Fin 1" "item_rank (PopParams pop_ex2 ! Suc 0) = Fin 2"
    by (simp_all add: pop_ex2_def)
  show "fst (step_update (\<lambda>v. Fin 0) step_ex core_ex) = 0"
    unfolding step_update_def step_ex_cost if_not_P[OF nd] o updatePop_fst
    by (simp add: upd_ri_def f b0 isEqual_ex)
  show "fst (step_update (\<lambda>v. Fin (3 / 2)) step_ex core_ex) = 1"
    unfolding step_update_def step_ex_cost if_not_P[OF nd] o updatePop_fst
    by (simp add: upd_ri_def f b1 isEqual_ex)
qed

theorem nan_cost_sentinel_witness:
  "fixCostNaN NaN = Fin c1e300 \<and> core_alloc core_ex \<and> par_fixed (\<lambda>v. NaN) step_ex \<and>
   LastCosts0 (fst (snd (CBiteOpt_optimize (\<lambda>v. NaN) step_ex core_ex None))) = Fin c1e300 \<and>
   core_num (core_run (\<lambda>v. NaN) [step_ex, step_ex, step_ex] (CBiteOpt_init [- 10] [10] core_ex)) \<and>
   BestCost (core_run (\<lambda>v. NaN) [step_ex, step_ex, step_ex] (CBiteOpt_init [- 10] [10] core_ex))
     = Fin c1e300 \<and>
   BestValues (core_run (\<lambda>v. NaN) [step_ex, step_ex, step_ex] (CBiteOpt_init [- 10] [10] core_ex))
     \<in> set (run_evaluated (\<lambda>v. NaN) [step_ex, step_ex, step_ex] (CBiteOpt_init [- 10] [10] core_ex)) \<and>
   core_inv core_ex \<and> \<not> DoInitEvals core_ex \<and> PopSize (own core_ex) = 2 \<and>
   BestCost core_ex = Fin 1 \<and>
   fst (step_update (\<lambda>v. Fin 0) step_ex core_ex) = 0 \<and>
   PopParams (own (fst (snd (CBiteOpt_optimize (\<lambda>v. Fin 0) step_ex core_ex None)))) ! 0 =
     \<lparr>item_params = step_params step_ex core_ex, item_obj = Fin 0, item_rank = Fin 0\<rparr> \<and>
   BestCost (fst (snd (CBiteOpt_optimize (\<lambda>v. Fin 0) step_ex core_ex None))) = Fin 0 \<and>
   BestValues (fst (snd (CBiteOpt_optimize (\<lambda>v. Fin 0) step_ex core_ex None))) =
     evaluated step_ex core_ex \<and>
   ParPops (fst (snd (CBiteOpt_optimize (\<lambda>v. Fin 0) step_ex core_ex None))) =
     updateParPop 1 (Fin 0) (step_params step_ex core_ex) (ParPops core_ex) \<and>
   fst (step_update (\<lambda>v. Fin (3 / 2)) step_ex core_ex) = 1 \<and>
   PopParams (own (fst (snd (CBiteOpt_optimize (\<lambda>v. Fin (3 / 2)) step_ex core_ex None)))) ! 1 =
     \<lparr>item_params = step_params step_ex core_ex, item_obj = Fin (3 / 2),
      item_rank = Fin (3 / 2)\<rparr> \<and>
   BestCost (fst (snd (CBiteOpt_optimize (\<lambda>v. Fin (3 / 2)) step_ex core_ex None))) = Fin 1"
proof -
  have a: "core_alloc core_ex" by (simp add: core_alloc_def core_ex_def pop_ex2_def)
  have p: "par_fixed (\<lambda>v. NaN) step_ex" by (simp add: par_fixed_def step_ex_def)
  have g: "gen_DoEval step_ex" by (simp add: step_ex_def)
  have f: "fixCostNaN NaN = Fin c1e300" by (simp add: fixCostNaN_cases)
  note t = nan_cost_sentinel[where y = NaN and optcost = "\<lambda>v. NaN" and inp = step_ex
      and s = core_ex and push = None and ?s0.0 = core_ex
      and inps = "[step_ex, step_ex, step_ex]" and lb = "[- 10]" and ub = "[10]"]
  from t a p g f have N:
   "LastCosts0 (fst (snd (CBiteOpt_optimize (\<lambda>v. NaN) step_ex core_ex None))) = Fin c1e300 \<and>
    core_num (core_run (\<lambda>v. NaN) [step_ex, step_ex, step_ex] (CBiteOpt_init [- 10] [10] core_ex)) \<and>
    BestCost (core_run (\<lambda>v. NaN) [step_ex, step_ex, step_ex] (CBiteOpt_init [- 10] [10] core_ex))
      = Fin c1e300 \<and>
    BestValues (core_run (\<lambda>v. NaN) [step_ex, step_ex, step_ex] (CBiteOpt_init [- 10] [10] core_ex))
      \<in> set (run_evaluated (\<lambda>v. NaN) [step_ex, step_ex, step_ex] (CBiteOpt_init [- 10] [10] core_ex))"
    by simp
  have ci: "core_inv core_ex" by (rule core_ex_inv)
  have k: "\<not> DoInitEvals core_ex" "PopSize (own core_ex) = 2" "BestCost core_ex = Fin 1"
    "ParamCount (own core_ex) = 1"
    by (simp_all add: core_ex_def pop_ex2_def)
  note u = step_update_ex
  let ?f0 = "\<lambda>v::real list. Fin 0" and ?f1 = "\<lambda>v::real list. Fin (3 / 2)"
  let ?r0 = "fst (snd (CBiteOpt_optimize ?f0 step_ex core_ex None))"
  let ?r1 = "fst (snd (CBiteOpt_optimize ?f1 step_ex core_ex None))"
  note t0 = nan_cost_sentinel[where y = NaN and optcost = ?f0 and inp = step_ex
      and s = core_ex and push = None and ?s0.0 = core_ex
      and inps = "[]" and lb = "[- 10]" and ub = "[10]"]
  from t0 ci have X0:
   "(fst (step_update ?f0 step_ex core_ex) < PopSize (own core_ex) \<longrightarrow>
       PopParams (own ?r0) ! fst (step_update ?f0 step_ex core_ex) =
         \<lparr>item_params = step_params step_ex core_ex, item_obj = step_cost ?f0 step_ex core_ex,
          item_rank = step_cost ?f0 step_ex core_ex\<rparr>) \<and>
    BestCost ?r0 =
      (if fst (step_update ?f0 step_ex core_ex) = 0 then step_cost ?f0 step_ex core_ex
       else BestCost core_ex) \<and>
    BestValues ?r0 =
      (if fst (step_update ?f0 step_ex core_ex) = 0 then evaluated step_ex core_ex
       else BestValues core_ex) \<and>
    (\<not> DoInitEvals core_ex \<longrightarrow>
       ParPops ?r0 = updateParPop (ParamCount (own core_ex)) (step_cost ?f0 step_ex core_ex)
         (step_params step_ex core_ex) (ParPops core_ex))"
    by blast
  have Z:
   "PopParams (own ?r0) ! 0 =
     \<lparr>item_params = step_params step_ex core_ex, item_obj = Fin 0, item_rank = Fin 0\<rparr> \<and>
    BestCost ?r0 = Fin 0 \<and> BestValues ?r0 = evaluated step_ex core_ex \<and>
    ParPops ?r0 = updateParPop 1 (Fin 0) (step_params step_ex core_ex) (ParPops core_ex)"
    using X0 k unfolding u(1) step_ex_cost by simp
  note t1 = nan_cost_sentinel[where y = NaN and optcost = ?f1 and inp = step_ex
      and s = core_ex and push = None and ?s0.0 = core_ex
      and inps = "[]" and lb = "[- 10]" and ub = "[10]"]
  from t1 ci have X1:
   "(fst (step_update ?f1 step_ex core_ex) < PopSize (own core_ex) \<longrightarrow>
       PopParams (own ?r1) ! fst (step_update ?f1 step_ex core_ex) =
         \<lparr>item_params = step_params step_ex core_ex, item_obj = step_cost ?f1 step_ex core_ex,
          item_rank = step_cost ?f1 step_ex core_ex\<rparr>) \<and>
    BestCost ?r1 =
      (if fst (step_update ?f1 step_ex core_ex) = 0 then step_cost ?f1 step_ex core_ex
       else BestCost core_ex)"
    by blast
  have H:
   "PopParams (own ?r1) ! 1 =
     \<lparr>item_params = step_params step_ex core_ex, item_obj = Fin (3 / 2),
      item_rank = Fin (3 / 2)\<rparr> \<and>
    BestCost ?r1 = Fin 1"
    using X1 k unfolding u(2) step_ex_cost by simp
  from f a p N ci k(1,2,3) u Z H show ?thesis by simp
qed

section \<open>Ensemble and driver: invariants\<close>

lemma pick_other_range:
  assumes pk: "pick_other cnt cur rnd = Some k" and ok: "rng_ok rnd" and pos: "0 < cnt"
  shows "k < cnt \<and> k \<noteq> cur"
proof -
  have "rng_ok rnd \<longrightarrow> 0 < cnt \<longrightarrow> k < cnt \<and> k \<noteq> cur"
  proof (rule pick_other.raw_induct[where P = "\<lambda>cnt cur rnd k. rng_ok rnd \<longrightarrow> 0 < cnt \<longrightarrow> k < cnt \<and> k \<noteq> cur",
          OF _ pk])
    fix pick :: "nat \<Rightarrow> nat \<Rightarrow> rng \<Rightarrow> nat option" and cnt cur :: nat and rnd :: rng and k :: nat
    assume IH: "\<And>cnt cur rnd k. pick cnt cur rnd = Some k \<Longrightarrow>
                  rng_ok rnd \<longrightarrow> 0 < cnt \<longrightarrow> k < cnt \<and> k \<noteq> cur"
      and eq: "(let k = getInt cnt (rnd 0)
                in if k \<noteq> cur then Some k else pick cnt cur (rnd_skip 1 rnd)) = Some k"
    show "rng_ok rnd \<longrightarrow> 0 < cnt \<longrightarrow> k < cnt \<and> k \<noteq> cur"
    proof (intro impI)
      assume ok: "rng_ok rnd" and pos: "0 < cnt"
      from ok have r0: "rnd 0 < 2 ^ 64" unfolding rng_ok_def by simp
      show "k < cnt \<and> k \<noteq> cur"
      proof (cases "getInt cnt (rnd 0) \<noteq> cur")
        case True
        with eq have "k = getInt cnt (rnd 0)" by (simp add: Let_def)
        with True getInt_range[OF r0 pos] show ?thesis by simp
      next
        case False
        with eq have "pick cnt cur (rnd_skip 1 rnd) = Some k" by (simp add: Let_def)
        from IH[OF this] rng_ok_skip[OF ok] pos show ?thesis by simp
      qed
    qed
  qed
  with ok pos show ?thesis by simp
qed

lemma core_inv_best_num: "core_inv s \<Longrightarrow> BestCost s \<noteq> NaN"
  unfolding core_inv_def by simp

lemma call_CurOpt_props:
  fixes d :: deep and inp :: step_in and optcost :: "real list \<Rightarrow> double"
  assumes inv: "deep_inv d" and pn: "par_num inp"
  defines "os \<equiv> snd (call_CurOpt optcost inp d)"
  shows "length os = length (Opts d)"
    and "\<forall>s\<in>set os. core_inv s"
    and "0 < CurPopPos (own (os ! CurOpt d))"
    and "0 < CurPopPos (own (Opts d ! CurOpt d)) \<Longrightarrow>
           dle (BestCost (os ! CurOpt d)) (BestCost (Opts d ! CurOpt d))"
    and "\<And>j. j < length (Opts d) \<Longrightarrow> j \<noteq> CurOpt d \<Longrightarrow>
           BestCost (os ! j) = BestCost (Opts d ! j) \<and>
           (0 < CurPopPos (own (Opts d ! j)) \<longrightarrow> 0 < CurPopPos (own (os ! j)))"
proof -
  let ?cur = "CurOpt d" and ?psh = "PushOpt d"
  let ?push = "if ?psh = ?cur then None else Some (Opts d ! ?psh)"
  let ?res = "CBiteOpt_optimize optcost inp (Opts d ! ?cur) ?push"
  let ?c' = "fst (snd ?res)"
  let ?os1 = "(Opts d)[?cur := ?c']"
  from inv have len: "OptCount d = length (Opts d)" and all: "\<forall>s\<in>set (Opts d). core_inv s"
    and cur: "?cur < length (Opts d)" and psh: "?psh < length (Opts d)"
    unfolding deep_inv_def by auto
  have ci: "core_inv (Opts d ! ?cur)" using all cur by simp
  have ti: "core_inv (Opts d ! ?psh)" using all psh by simp
  have e: "os = (case snd (snd ?res) of None \<Rightarrow> ?os1 | Some t \<Rightarrow> ?os1[?psh := t])"
    unfolding os_def call_CurOpt_def Let_def by (simp add: case_prod_beta)
  note sb = step_best[OF ci pn, of optcost ?push]
  have c'i: "core_inv ?c'" by (rule sb(1))
  have os1i: "\<forall>s\<in>set ?os1. core_inv s"
    using all c'i set_update_subset_insert[of "Opts d" ?cur ?c'] by blast
  show "length os = length (Opts d)" unfolding e by (simp split: option.splits)
  consider (self) "?psh = ?cur" | (other) "?psh \<noteq> ?cur" by blast
  then have main: "(\<forall>s\<in>set os. core_inv s) \<and> os ! ?cur = ?c' \<and>
     (\<forall>j. j < length (Opts d) \<longrightarrow> j \<noteq> ?cur \<longrightarrow>
           BestCost (os ! j) = BestCost (Opts d ! j) \<and>
           (0 < CurPopPos (own (Opts d ! j)) \<longrightarrow> 0 < CurPopPos (own (os ! j))))"
  proof cases
    case self
    have n: "snd (snd ?res) = None" using step_push(1)[OF pn, of optcost "Opts d ! ?cur"] self by simp
    have eo: "os = ?os1" unfolding e n by simp
    show ?thesis unfolding eo using os1i cur by simp
  next
    case other
    from step_push(2)[OF pn, of optcost "Opts d ! ?cur" "Opts d ! ?psh"] other
    obtain t' where t': "snd (snd ?res) = Some t'" "BestCost t' = BestCost (Opts d ! ?psh)"
      "core_inv (Opts d ! ?psh) \<longrightarrow> core_inv t'"
      "0 < CurPopPos (own (Opts d ! ?psh)) \<longrightarrow> 0 < CurPopPos (own t')"
      by auto
    have eo: "os = ?os1[?psh := t']" unfolding e t'(1) by simp
    have t'i: "core_inv t'" using t'(3) ti by simp
    have a: "\<forall>s\<in>set os. core_inv s"
      unfolding eo using os1i t'i set_update_subset_insert[of ?os1 ?psh t'] by blast
    have b: "os ! ?cur = ?c'" unfolding eo using other cur by simp
    have c: "\<forall>j. j < length (Opts d) \<longrightarrow> j \<noteq> ?cur \<longrightarrow>
           BestCost (os ! j) = BestCost (Opts d ! j) \<and>
           (0 < CurPopPos (own (Opts d ! j)) \<longrightarrow> 0 < CurPopPos (own (os ! j)))"
    proof (intro allI impI)
      fix j assume j: "j < length (Opts d)" "j \<noteq> ?cur"
      show "BestCost (os ! j) = BestCost (Opts d ! j) \<and>
           (0 < CurPopPos (own (Opts d ! j)) \<longrightarrow> 0 < CurPopPos (own (os ! j)))"
      proof (cases "j = ?psh")
        case True
        then have "os ! j = t'" unfolding eo using psh by simp
        then show ?thesis using t'(2,4) True by simp
      next
        case False
        then have "os ! j = Opts d ! j" unfolding eo using j by simp
        then show ?thesis by simp
      qed
    qed
    from a b c show ?thesis by blast
  qed
  then have oc: "os ! ?cur = ?c'" by blast
  from main show "\<forall>s\<in>set os. core_inv s" by blast
  show "0 < CurPopPos (own (os ! ?cur))" unfolding oc by (rule sb(2))
  show "0 < CurPopPos (own (Opts d ! ?cur)) \<Longrightarrow>
           dle (BestCost (os ! ?cur)) (BestCost (Opts d ! ?cur))"
    unfolding oc by (rule sb(3))
  show "\<And>j. j < length (Opts d) \<Longrightarrow> j \<noteq> ?cur \<Longrightarrow>
           BestCost (os ! j) = BestCost (Opts d ! j) \<and>
           (0 < CurPopPos (own (Opts d ! j)) \<longrightarrow> 0 < CurPopPos (own (os ! j)))"
    using main by blast
qed

lemma deep_optimize_single:
  assumes one: "OptCount d = 1"
  shows "deep_optimize optcost inp rnd d =
           Some (fst (CBiteOpt_optimize optcost inp (Opts d ! 0) None),
                 d\<lparr>Opts := (Opts d)[0 := fst (snd (CBiteOpt_optimize optcost inp (Opts d ! 0) None))],
                   StallCount_deep := fst (CBiteOpt_optimize optcost inp (Opts d ! 0) None)\<rparr>)"
  unfolding deep_optimize_def using one by (simp add: case_prod_beta)

lemma deep_optimize_step:
  fixes d :: deep and inp :: step_in and optcost :: "real list \<Rightarrow> double"
  assumes inv: "deep_inv d" and pn: "par_num inp" and ok: "rng_ok rnd"
    and res: "deep_optimize optcost inp rnd d = Some (sc, d')"
  shows "deep_inv d'"
    and "best_known d \<Longrightarrow> dle (getBestCost_deep d') (getBestCost_deep d)"
    and "best_known d \<or> BestOpt d = CurOpt d \<Longrightarrow> best_known d'"
proof -
  from inv have len: "OptCount d = length (Opts d)" and pos: "0 < OptCount d"
    and all: "\<forall>s\<in>set (Opts d). core_inv s"
    and best: "BestOpt d < length (Opts d)" and cur: "CurOpt d < length (Opts d)"
    and psh: "PushOpt d < length (Opts d)"
    unfolding deep_inv_def by auto
  have r: "deep_inv d' \<and> (best_known d \<longrightarrow> dle (getBestCost_deep d') (getBestCost_deep d)) \<and>
           (best_known d \<or> BestOpt d = CurOpt d \<longrightarrow> best_known d')"
  proof (cases "OptCount d = 1")
    case True
    let ?res = "CBiteOpt_optimize optcost inp (Opts d ! 0) None"
    let ?c' = "fst (snd ?res)"
    from True len best cur have z: "BestOpt d = 0" "CurOpt d = 0" "length (Opts d) = 1" by simp_all
    have ci: "core_inv (Opts d ! 0)" using all z by simp
    note sb = step_best[OF ci pn, of optcost None]
    from res have d': "d' = d\<lparr>Opts := (Opts d)[0 := ?c'], StallCount_deep := fst ?res\<rparr>"
      unfolding deep_optimize_single[OF True] by auto
    have n0: "(Opts d)[0 := ?c'] ! 0 = ?c'" using z by simp
    have "\<forall>s\<in>set ((Opts d)[0 := ?c']). core_inv s"
      using all sb(1) set_update_subset_insert[of "Opts d" 0 ?c'] by blast
    then have a: "deep_inv d'" unfolding deep_inv_def d' using len pos best cur psh by simp
    have b: "best_known d \<longrightarrow> dle (getBestCost_deep d') (getBestCost_deep d)"
      unfolding best_known_def getBestCost_deep_def d' using z n0 sb(3) by simp
    have c: "best_known d'" unfolding best_known_def d' using z n0 sb(2) by simp
    from a b c show ?thesis by blast
  next
    case False
    let ?os = "snd (call_CurOpt optcost inp d)" and ?sc = "fst (call_CurOpt optcost inp d)"
    let ?b' = "if dle (BestCost (?os ! CurOpt d)) (BestCost (?os ! BestOpt d))
               then CurOpt d else BestOpt d"
    note cp = call_CurOpt_props[OF inv pn, where optcost = optcost]
    text \<open>the fields of the result\<close>
    have f: "Opts d' = ?os \<and> BestOpt d' = ?b' \<and> OptCount d' = OptCount d \<and>
             (CurOpt d' = CurOpt d \<or> CurOpt d' = PushOpt d) \<and> PushOpt d' < OptCount d"
    proof (cases "?sc = 0")
      case True
      with res False show ?thesis
        unfolding deep_optimize_def Let_def using psh len
        by (auto simp add: case_prod_beta)
    next
      case sc: False
      show ?thesis
      proof (cases "OptCount d = 2")
        case True
        with res False sc show ?thesis
          unfolding deep_optimize_def Let_def
          by (auto simp add: case_prod_beta)
      next
        case o2: False
        from res False sc o2 obtain k where
          k: "pick_other (OptCount d) (PushOpt d) rnd = Some k" and
          dk: "d' = (d\<lparr>Opts := ?os, LastOpt := CurOpt d, BestOpt := ?b',
                       StallCount_deep := StallCount_deep d + 1, CurOpt := PushOpt d,
                       PushOpt := k\<rparr>)"
          unfolding deep_optimize_def Let_def
          by (auto simp add: case_prod_beta split: if_splits)
        from pick_other_range[OF k ok pos] show ?thesis unfolding dk by simp
      qed
    qed
    then have fo: "Opts d' = ?os" and fb: "BestOpt d' = ?b'" and fc: "OptCount d' = OptCount d"
      and fcur: "CurOpt d' = CurOpt d \<or> CurOpt d' = PushOpt d" and fp: "PushOpt d' < OptCount d"
      by blast+
    have b'r: "?b' < length (Opts d)" using best cur by simp
    have a: "deep_inv d'"
      unfolding deep_inv_def fo fb fc using cp(1,2) len pos b'r fcur fp cur psh by auto
    have numc: "BestCost (?os ! CurOpt d) \<noteq> NaN"
      using cp(1,2) cur core_inv_best_num by simp
    have b: "best_known d \<longrightarrow> dle (getBestCost_deep d') (getBestCost_deep d)"
    proof
      assume bk: "best_known d"
      show "dle (getBestCost_deep d') (getBestCost_deep d)"
      proof (cases "BestOpt d = CurOpt d")
        case True
        then have "?b' = CurOpt d" by simp
        moreover from bk True have "0 < CurPopPos (own (Opts d ! CurOpt d))"
          unfolding best_known_def by simp
        ultimately show ?thesis
          unfolding getBestCost_deep_def fo fb using cp(4) True by simp
      next
        case nb: False
        from cp(5)[OF best nb]
        have eqb: "BestCost (?os ! BestOpt d) = BestCost (Opts d ! BestOpt d)" by simp
        have nn: "BestCost (Opts d ! BestOpt d) \<noteq> NaN"
          using all best core_inv_best_num by simp
        show ?thesis
        proof (cases "dle (BestCost (?os ! CurOpt d)) (BestCost (?os ! BestOpt d))")
          case True
          then have "?b' = CurOpt d" by simp
          then show ?thesis unfolding getBestCost_deep_def fo fb using True eqb by simp
        next
          case False
          then have "?b' = BestOpt d" by simp
          then show ?thesis unfolding getBestCost_deep_def fo fb using eqb nn
            by (simp add: dle_refl_iff)
        qed
      qed
    qed
    have c: "best_known d \<or> BestOpt d = CurOpt d \<longrightarrow> best_known d'"
    proof
      assume h: "best_known d \<or> BestOpt d = CurOpt d"
      show "best_known d'"
      proof (cases "?b' = CurOpt d")
        case True
        then show ?thesis unfolding best_known_def fo fb using cp(3) by simp
      next
        case False
        then have nb: "BestOpt d \<noteq> CurOpt d" and bb: "?b' = BestOpt d" by (auto split: if_splits)
        with h have "0 < CurPopPos (own (Opts d ! BestOpt d))" unfolding best_known_def by simp
        with cp(5)[OF best nb] show ?thesis unfolding best_known_def fo fb bb by simp
      qed
    qed
    from a b c show ?thesis by blast
  qed
  then show "deep_inv d'"
    and "best_known d \<Longrightarrow> dle (getBestCost_deep d') (getBestCost_deep d)"
    and "best_known d \<or> BestOpt d = CurOpt d \<Longrightarrow> best_known d'"
    by blast+
qed

lemma deep_inv_alloc: "deep_inv d \<Longrightarrow> deep_alloc d"
  unfolding deep_inv_def deep_alloc_def using core_inv_alloc by blast

lemma deep_inv_best_num: "deep_inv d \<Longrightarrow> getBestCost_deep d \<noteq> NaN"
  unfolding deep_inv_def getBestCost_deep_def using core_inv_best_num by simp

lemma deep_init_inv:
  assumes al: "deep_alloc d" and ok: "rng_ok rnd" and res: "deep_init lb ub rnd d = Some d0"
  shows "deep_inv d0" and "BestOpt d0 = CurOpt d0" and "OptCount d0 = OptCount d"
proof -
  from al have len: "OptCount d = length (Opts d)" and pos: "0 < OptCount d"
    and all: "\<forall>s\<in>set (Opts d). core_alloc s" unfolding deep_alloc_def by auto
  let ?os = "map (CBiteOpt_init lb ub) (Opts d)"
  have ci: "\<forall>s\<in>set ?os. core_inv s" using all core_inv_init(1) by simp
  have f: "Opts d0 = ?os \<and> BestOpt d0 = 0 \<and> CurOpt d0 = 0 \<and> OptCount d0 = OptCount d \<and>
           PushOpt d0 < OptCount d"
  proof (cases "OptCount d = 1")
    case True
    with res show ?thesis unfolding deep_init_def Let_def by auto
  next
    case False
    with res obtain k where k: "pick_other (OptCount d) 0 rnd = Some k"
      and dk: "d0 = d\<lparr>Opts := ?os, BestOpt := 0, CurOpt := 0, LastOpt := 0,
                       StallCount_deep := 0, PushOpt := k\<rparr>"
      unfolding deep_init_def Let_def by auto
    from pick_other_range[OF k ok pos] show ?thesis unfolding dk by simp
  qed
  show "deep_inv d0" unfolding deep_inv_def using f ci len pos by simp
  show "BestOpt d0 = CurOpt d0" using f by simp
  show "OptCount d0 = OptCount d" using f by simp
qed

lemma attempt_loop_inv:
  assumes "deep_inv d" and io: "\<forall>i. par_num (fst (ins i)) \<and> rng_ok (snd (ins i))"
    and "attempt_loop optcost f_minp sct ins n i d = Some (j, e, f, d1)"
  shows "deep_inv d1"
  using assms(1,3)
proof (induction n arbitrary: i d)
  case 0
  then show ?case by simp
next
  case (Suc n)
  from Suc.prems(2) obtain sc d' where
    st: "deep_optimize optcost (fst (ins i)) (snd (ins i)) d = Some (sc, d')"
    by (auto split: option.splits)
  from io have pn: "par_num (fst (ins i))" and ok: "rng_ok (snd (ins i))" by simp_all
  note i' = deep_optimize_step(1)[OF Suc.prems(1) pn ok st]
  from Suc.prems(2) st
  consider "d1 = d'" | "attempt_loop optcost f_minp sct ins n (i + 1) d' = Some (j, e, f, d1)"
    by (auto split: if_splits)
  then show ?case
  proof cases
    case 1
    then show ?thesis using i' by simp
  next
    case 2
    then show ?thesis by (rule Suc.IH[OF i'])
  qed
qed

lemma run_attempt_inv:
  assumes al: "deep_alloc d" and ok: "rng_ok rnd0"
    and io: "\<forall>i. par_num (fst (ins i)) \<and> rng_ok (snd (ins i))"
    and res: "run_attempt optcost lb ub f_minp sct useiter rnd0 ins d = Some (j, e, f, d1)"
  shows "deep_inv d1"
proof -
  from res obtain d0 where i0: "deep_init lb ub rnd0 d = Some d0"
    and lp: "attempt_loop optcost f_minp sct ins useiter 0 d0 = Some (j, e, f, d1)"
    unfolding run_attempt_def by (auto split: option.splits)
  show ?thesis by (rule attempt_loop_inv[OF deep_init_inv(1)[OF al ok i0] io lp])
qed

lemma dle_total: "a \<noteq> NaN \<Longrightarrow> b \<noteq> NaN \<Longrightarrow> \<not> dle a b \<Longrightarrow> dle b a"
  by (cases a; cases b) simp_all

lemma least_of_single: "m \<noteq> NaN \<Longrightarrow> least_of m [m]"
  by (simp add: least_of_def dle_refl_iff)

lemma least_of_step:
  assumes l: "least_of r (m' # bs)" and m: "m \<noteq> NaN" and b: "b \<noteq> NaN"
    and m': "m' = (if dle b m then b else m)"
  shows "least_of r (m # b # bs)"
proof -
  from l have r: "r = m' \<or> r \<in> set bs" and rm: "dle r m'" and rb: "\<forall>x\<in>set bs. dle r x"
    unfolding least_of_def by auto
  have "dle m' m \<and> dle m' b"
  proof (cases "dle b m")
    case True
    then show ?thesis unfolding m' using b by (simp add: dle_refl_iff)
  next
    case False
    from dle_total[OF b m False] show ?thesis unfolding m' using False m
      by (simp add: dle_refl_iff)
  qed
  with rm have "dle r m" "dle r b" using dle_trans by blast+
  moreover from r have "r \<in> set (m # b # bs)" unfolding m' by auto
  ultimately show ?thesis unfolding least_of_def using rb by simp
qed

lemma attempts_least:
  assumes "deep_alloc d" and io: "inputs_ok init_rnd ins"
    and "attempts optcost lb ub f_minp sct useiter init_rnd ins n k d out = Some out'"
    and "0 < k \<longrightarrow> snd (snd out) \<noteq> NaN"
  shows "\<exists>bs. attempt_bests optcost lb ub f_minp sct useiter init_rnd ins n k d = Some bs \<and>
              (if k = 0 then (n = 0 \<or> least_of (snd (snd out')) bs)
               else least_of (snd (snd out')) (snd (snd out) # bs))"
  using assms(1,3,4)
proof (induction n arbitrary: k d out)
  case 0
  then show ?case by (auto simp add: least_of_single)
next
  case (Suc n)
  let ?minf = "snd (snd out)"
  from Suc.prems(2) obtain i e f d1 where
    ra: "run_attempt optcost lb ub f_minp sct useiter (init_rnd k) (ins k) d = Some (i, e, f, d1)"
    by (auto split: option.splits)
  from io have ok: "rng_ok (init_rnd k)"
    and iok: "\<forall>i. par_num (fst (ins k i)) \<and> rng_ok (snd (ins k i))"
    unfolding inputs_ok_def by simp_all
  note inv1 = run_attempt_inv[OF Suc.prems(1) ok iok ra]
  let ?b = "getBestCost_deep d1"
  have bn: "?b \<noteq> NaN" by (rule deep_inv_best_num[OF inv1])
  let ?upd = "k = 0 \<or> dle ?b ?minf"
  let ?m' = "if ?upd then ?b else ?minf"
  let ?out1 = "(fst out + (if e then 1 else 0) + int i,
                if ?upd then getBestParams_deep d1 else fst (snd out), ?m')"
  have m'n: "?m' \<noteq> NaN" using bn Suc.prems(3) by auto
  show ?case
  proof (cases f)
    case True
    from Suc.prems(2) ra True have o': "snd (snd out') = ?m'" by (auto simp add: Let_def)
    have bs: "attempt_bests optcost lb ub f_minp sct useiter init_rnd ins (Suc n) k d = Some [?b]"
      using ra True by simp
    show ?thesis
    proof (cases "k = 0")
      case k0: True
      then show ?thesis unfolding bs o' using bn by (simp add: least_of_single)
    next
      case False
      then have mn: "?minf \<noteq> NaN" using Suc.prems(3) by simp
      have m'e: "?m' = (if dle ?b ?minf then ?b else ?minf)" using False by simp
      have "least_of ?m' (?m' # [])" by (rule least_of_single[OF m'n])
      from least_of_step[OF this mn bn m'e] show ?thesis unfolding bs o' using False by simp
    qed
  next
    case False
    from Suc.prems(2) ra False
    have rec: "attempts optcost lb ub f_minp sct useiter init_rnd ins n (k + 1) d1 ?out1 = Some out'"
      by (simp add: Let_def)
    have "0 < k + 1 \<longrightarrow> snd (snd ?out1) \<noteq> NaN" using m'n by simp
    from Suc.IH[OF deep_inv_alloc[OF inv1] rec this]
    obtain bs' where
      bs': "attempt_bests optcost lb ub f_minp sct useiter init_rnd ins n (k + 1) d1 = Some bs'"
      and l: "least_of (snd (snd out')) (?m' # bs')" by auto
    have bs: "attempt_bests optcost lb ub f_minp sct useiter init_rnd ins (Suc n) k d = Some (?b # bs')"
      using ra False bs' by simp
    show ?thesis
    proof (cases "k = 0")
      case True
      then show ?thesis unfolding bs using l by simp
    next
      case k: False
      then have mn: "?minf \<noteq> NaN" using Suc.prems(3) by simp
      have m'e: "?m' = (if dle ?b ?minf then ?b else ?minf)" using k by simp
      from least_of_step[OF l mn bn m'e] show ?thesis unfolding bs using k by simp
    qed
  qed
qed

lemma minimize_least:
  assumes al: "deep_alloc d" and io: "inputs_ok init_rnd ins" and pos: "0 < attc"
    and res: "biteopt_minimize N optcost lb ub x0 minf0 iter M attc stopc f_minp init_rnd ins d
                = Some (evals, x, minf)"
  shows "\<exists>bs. minimize_bests N optcost lb ub iter M attc stopc f_minp init_rnd ins d = Some bs \<and>
              least_of minf bs"
proof -
  from pos have n: "nat attc \<noteq> 0" by simp
  from attempts_least[OF al io res[unfolded biteopt_minimize_def Let_def]] n
  show ?thesis unfolding minimize_bests_def Let_def by auto
qed

section \<open>Ensemble of one object\<close>

text \<open>With one object the ensemble never enters a selection loop: every call returns.\<close>

lemma deep_init_single:
  assumes "OptCount d = 1"
  shows "deep_init lb ub rnd d =
           Some (d\<lparr>Opts := map (CBiteOpt_init lb ub) (Opts d), BestOpt := 0, CurOpt := 0,
                   LastOpt := 0, StallCount_deep := 0, PushOpt := 0\<rparr>)"
  unfolding deep_init_def Let_def using assms by simp

lemma deep_run_single:
  assumes "OptCount d = 1" and "length (Opts d) = 1"
  shows "deep_run optcost ins d =
           Some (core_run_sc optcost (map fst ins) (Opts d ! 0),
                 d\<lparr>Opts := [core_run optcost (map fst ins) (Opts d ! 0)],
                   StallCount_deep :=
                     last (StallCount_deep d # core_run_sc optcost (map fst ins) (Opts d ! 0))\<rparr>)"
  using assms
proof (induction ins arbitrary: d)
  case Nil
  from Nil(2) obtain c where c: "Opts d = [c]" by (cases "Opts d") auto
  show ?case using c by simp
next
  case (Cons i ins)
  from Cons.prems(2) obtain c where c: "Opts d = [c]" by (cases "Opts d") auto
  let ?r = "CBiteOpt_optimize optcost (fst i) c None"
  let ?d1 = "d\<lparr>Opts := [fst (snd ?r)], StallCount_deep := fst ?r\<rparr>"
  have st: "deep_optimize optcost (fst i) (snd i) d = Some (fst ?r, ?d1)"
    unfolding deep_optimize_single[OF Cons.prems(1)] c by simp
  have o1: "OptCount ?d1 = 1" "length (Opts ?d1) = 1" using Cons.prems(1) by simp_all
  note ih = Cons.IH[OF o1]
  show ?case unfolding deep_run.simps st option.case prod.case ih using c by simp
qed

text \<open>
  Claim C8. With one object (\<open>M = 1\<close>) a run of the ensemble returns, and it is the run of
  its one core optimizer stepped directly without a push target: the returned stall
  counts are those of the plain optimizer, the object is the plain optimizer's state,
  the ensemble's stall count is the last one returned, and its pointers do not move.
  \<open>init\<close> initializes that one object and makes it its own push target, and a call
  without a push target leaves none.
\<close>

theorem deep_single_is_plain:
  assumes "OptCount d = 1" and "length (Opts d) = 1"
  shows "deep_run optcost ins d =
           Some (core_run_sc optcost (map fst ins) (Opts d ! 0),
                 d\<lparr>Opts := [core_run optcost (map fst ins) (Opts d ! 0)],
                   StallCount_deep :=
                     last (StallCount_deep d # core_run_sc optcost (map fst ins) (Opts d ! 0))\<rparr>) \<and>
         deep_optimize optcost inp rnd d =
           Some (fst (CBiteOpt_optimize optcost inp (Opts d ! 0) None),
                 d\<lparr>Opts := [fst (snd (CBiteOpt_optimize optcost inp (Opts d ! 0) None))],
                   StallCount_deep := fst (CBiteOpt_optimize optcost inp (Opts d ! 0) None)\<rparr>) \<and>
         snd (snd (CBiteOpt_optimize optcost inp (Opts d ! 0) None)) = None \<and>
         deep_init lb ub rnd d =
           Some (d\<lparr>Opts := [CBiteOpt_init lb ub (Opts d ! 0)], BestOpt := 0, CurOpt := 0,
                   LastOpt := 0, StallCount_deep := 0, PushOpt := 0\<rparr>)"
proof -
  from assms(2) obtain c where c: "Opts d = [c]" by (cases "Opts d") auto
  have n: "snd (snd (CBiteOpt_optimize optcost inp (Opts d ! 0) None)) = None"
    unfolding CBiteOpt_optimize_def optimize_main_def Let_def
    by (simp add: case_prod_beta)
  show ?thesis
    using deep_run_single[OF assms, of optcost ins] deep_optimize_single[OF assms(1), of optcost inp rnd]
      deep_init_single[OF assms(1), of lb ub rnd] n c
    by simp
qed

theorem deep_single_is_plain_witness:
  "OptCount deep_ex1 = 1 \<and> length (Opts deep_ex1) = 1 \<and>
   deep_run (\<lambda>v. Fin 0) [(step_ex, rng_ex), (step_ex, rng_ex)] deep_ex1 =
     Some (core_run_sc (\<lambda>v. Fin 0) [step_ex, step_ex] core_ex,
           deep_ex1\<lparr>Opts := [core_run (\<lambda>v. Fin 0) [step_ex, step_ex] core_ex],
                    StallCount_deep := last (0 # core_run_sc (\<lambda>v. Fin 0) [step_ex, step_ex] core_ex)\<rparr>)"
proof -
  have a: "OptCount deep_ex1 = 1" "length (Opts deep_ex1) = 1" "Opts deep_ex1 ! 0 = core_ex"
    "StallCount_deep deep_ex1 = 0"
    by (simp_all add: deep_ex1_def)
  note t = deep_single_is_plain[OF a(1,2), of "\<lambda>v. Fin 0" "[(step_ex, rng_ex), (step_ex, rng_ex)]"
      step_ex rng_ex "[- 10]" "[10]"]
  from t have "deep_run (\<lambda>v. Fin 0) [(step_ex, rng_ex), (step_ex, rng_ex)] deep_ex1 =
     Some (core_run_sc (\<lambda>v. Fin 0) (map fst [(step_ex, rng_ex), (step_ex, rng_ex)]) (Opts deep_ex1 ! 0),
           deep_ex1\<lparr>Opts := [core_run (\<lambda>v. Fin 0) (map fst [(step_ex, rng_ex), (step_ex, rng_ex)]) (Opts deep_ex1 ! 0)],
                    StallCount_deep := last (StallCount_deep deep_ex1 #
                       core_run_sc (\<lambda>v. Fin 0) (map fst [(step_ex, rng_ex), (step_ex, rng_ex)]) (Opts deep_ex1 ! 0))\<rparr>)"
    by (rule conjunct1)
  then show ?thesis unfolding a(3,4) using a(1,2) by simp
qed

section \<open>The best cost along a run\<close>

lemma attempt_loop_single:
  assumes "OptCount d = 1"
  shows "\<exists>r. attempt_loop optcost f_minp sct ins n i d = Some r \<and> OptCount (snd (snd (snd r))) = 1"
  using assms
proof (induction n arbitrary: i d)
  case 0
  then show ?case by simp
next
  case (Suc n)
  let ?r = "CBiteOpt_optimize optcost (fst (ins i)) (Opts d ! 0) None"
  let ?d1 = "d\<lparr>Opts := (Opts d)[0 := fst (snd ?r)], StallCount_deep := fst ?r\<rparr>"
  have st: "deep_optimize optcost (fst (ins i)) (snd (ins i)) d = Some (fst ?r, ?d1)"
    by (rule deep_optimize_single[OF Suc.prems])
  have o1: "OptCount ?d1 = 1" using Suc.prems by simp
  from Suc.IH[OF o1, of "i + 1"] show ?case
    unfolding attempt_loop.simps st option.case prod.case using o1 by auto
qed

lemma attempts_single:
  assumes "OptCount d = 1"
  shows "\<exists>r. attempts optcost lb ub f_minp sct useiter init_rnd ins n k d out = Some r"
  using assms
proof (induction n arbitrary: k d out)
  case 0
  show ?case by (rule exI[of _ out]) simp
next
  case (Suc n)
  let ?d0 = "d\<lparr>Opts := map (CBiteOpt_init lb ub) (Opts d), BestOpt := 0, CurOpt := 0,
                LastOpt := 0, StallCount_deep := 0, PushOpt := 0\<rparr>"
  have o0: "OptCount ?d0 = 1" using Suc.prems by simp
  from attempt_loop_single[OF o0, of optcost f_minp sct "ins k" useiter 0]
  obtain i e f d1 where
    lp: "attempt_loop optcost f_minp sct (ins k) useiter 0 ?d0 = Some (i, e, f, d1)"
    and o1: "OptCount d1 = 1" by auto
  have ra: "run_attempt optcost lb ub f_minp sct useiter (init_rnd k) (ins k) d = Some (i, e, f, d1)"
    unfolding run_attempt_def deep_init_single[OF Suc.prems] using lp by simp
  show ?case
    unfolding attempts.simps ra option.case prod.case Let_def
    using Suc.IH[OF o1] by (cases f) simp_all
qed

lemma deep_ex2_inv: "deep_inv deep_ex2" "best_known deep_ex2"
proof -
  show "deep_inv deep_ex2" unfolding deep_inv_def deep_ex2_def using core_ex_inv by simp
  show "best_known deep_ex2"
    unfolding best_known_def deep_ex2_def by (simp add: core_ex_def pop_ex2_def)
qed

lemma deep_optimize_two:
  assumes "OptCount d = 2"
  shows "\<exists>r. deep_optimize optcost inp rnd d = Some r"
  unfolding deep_optimize_def Let_def using assms by (simp add: case_prod_beta)

text \<open>
  Claim C10, as amended. Once an initialized core optimizer holds an evaluated solution, that is after
  its first call of \<open>optimize\<close> in the run, a call of \<open>optimize\<close> never increases its
  best cost, whether the candidate is accepted or rejected, and it leaves the best cost
  of the push target as it was; the invariant and the evaluated solution stay, and the
  first call after \<open>init\<close> establishes them. For the ensemble, a call of \<open>optimize\<close> that
  returns keeps the invariant, never increases the reported best cost once the object
  \<open>BestOpt\<close> points to holds an evaluated solution, and the first call after \<open>init\<close>
  makes it hold one. The cost the driver returns is a least element of the best costs
  of the attempts it performed. Costs taken over from the embedded optimizers are
  assumed to be numbers.
\<close>

theorem best_cost_monotone:
  "(core_inv s \<and> 0 < CurPopPos (own s) \<and> par_num inp \<longrightarrow>
      dle (BestCost (fst (snd (CBiteOpt_optimize optcost inp s push)))) (BestCost s) \<and>
      core_inv (fst (snd (CBiteOpt_optimize optcost inp s push))) \<and>
      0 < CurPopPos (own (fst (snd (CBiteOpt_optimize optcost inp s push)))) \<and>
      (\<forall>t. push = Some t \<longrightarrow>
         (\<exists>t'. snd (snd (CBiteOpt_optimize optcost inp s push)) = Some t' \<and>
               BestCost t' = BestCost t))) \<and>
   (core_alloc s0 \<and> par_num inp \<longrightarrow>
      core_inv (fst (snd (CBiteOpt_optimize optcost inp (CBiteOpt_init lb ub s0) push))) \<and>
      0 < CurPopPos (own (fst (snd (CBiteOpt_optimize optcost inp (CBiteOpt_init lb ub s0) push))))) \<and>
   (deep_inv d \<and> par_num inp \<and> rng_ok rnd \<and> deep_optimize optcost inp rnd d = Some (sc, d') \<longrightarrow>
      deep_inv d' \<and>
      (best_known d \<longrightarrow> dle (getBestCost_deep d') (getBestCost_deep d)) \<and>
      (best_known d \<or> BestOpt d = CurOpt d \<longrightarrow> best_known d')) \<and>
   (deep_alloc d0 \<and> rng_ok rnd \<and> deep_init lb ub rnd d0 = Some d \<longrightarrow>
      deep_inv d \<and> BestOpt d = CurOpt d) \<and>
   (deep_alloc d0 \<and> inputs_ok init_rnd ins \<and> 0 < attc \<and>
    biteopt_minimize N optcost lb ub x0 minf0 iter M attc stopc f_minp init_rnd ins d0
      = Some (evals, x, minf) \<longrightarrow>
      (\<exists>bs. minimize_bests N optcost lb ub iter M attc stopc f_minp init_rnd ins d0 = Some bs \<and>
            least_of minf bs))"
proof -
  have a: "dle (BestCost (fst (snd (CBiteOpt_optimize optcost inp s push)))) (BestCost s) \<and>
      core_inv (fst (snd (CBiteOpt_optimize optcost inp s push))) \<and>
      0 < CurPopPos (own (fst (snd (CBiteOpt_optimize optcost inp s push)))) \<and>
      (\<forall>t. push = Some t \<longrightarrow>
         (\<exists>t'. snd (snd (CBiteOpt_optimize optcost inp s push)) = Some t' \<and>
               BestCost t' = BestCost t))"
    if h: "core_inv s" "0 < CurPopPos (own s)" "par_num inp"
  proof -
    note sb = step_best[OF h(1,3), of optcost push]
    have "\<forall>t. push = Some t \<longrightarrow>
         (\<exists>t'. snd (snd (CBiteOpt_optimize optcost inp s push)) = Some t' \<and>
               BestCost t' = BestCost t)"
      using step_push(2)[OF h(3), of optcost s] by blast
    with sb(1,2) sb(3)[OF h(2)] show ?thesis by blast
  qed
  have b: "core_inv (fst (snd (CBiteOpt_optimize optcost inp (CBiteOpt_init lb ub s0) push))) \<and>
      0 < CurPopPos (own (fst (snd (CBiteOpt_optimize optcost inp (CBiteOpt_init lb ub s0) push))))"
    if h: "core_alloc s0" "par_num inp"
    using step_best(1,2)[OF core_inv_init(1)[OF h(1)] h(2)] by blast
  have c: "deep_inv d' \<and>
      (best_known d \<longrightarrow> dle (getBestCost_deep d') (getBestCost_deep d)) \<and>
      (best_known d \<or> BestOpt d = CurOpt d \<longrightarrow> best_known d')"
    if h: "deep_inv d" "par_num inp" "rng_ok rnd" "deep_optimize optcost inp rnd d = Some (sc, d')"
    using deep_optimize_step[OF h] by blast
  have e: "deep_inv d \<and> BestOpt d = CurOpt d"
    if h: "deep_alloc d0" "rng_ok rnd" "deep_init lb ub rnd d0 = Some d"
    using deep_init_inv(1,2)[OF h] by blast
  have f: "\<exists>bs. minimize_bests N optcost lb ub iter M attc stopc f_minp init_rnd ins d0 = Some bs \<and>
            least_of minf bs"
    if h: "deep_alloc d0" "inputs_ok init_rnd ins" "0 < attc"
      "biteopt_minimize N optcost lb ub x0 minf0 iter M attc stopc f_minp init_rnd ins d0
         = Some (evals, x, minf)"
    by (rule minimize_least[OF h])
  have A: "core_inv s \<and> 0 < CurPopPos (own s) \<and> par_num inp \<longrightarrow>
      dle (BestCost (fst (snd (CBiteOpt_optimize optcost inp s push)))) (BestCost s) \<and>
      core_inv (fst (snd (CBiteOpt_optimize optcost inp s push))) \<and>
      0 < CurPopPos (own (fst (snd (CBiteOpt_optimize optcost inp s push)))) \<and>
      (\<forall>t. push = Some t \<longrightarrow>
         (\<exists>t'. snd (snd (CBiteOpt_optimize optcost inp s push)) = Some t' \<and>
               BestCost t' = BestCost t))"
    using a by (intro impI) (elim conjE)
  have B: "core_alloc s0 \<and> par_num inp \<longrightarrow>
      core_inv (fst (snd (CBiteOpt_optimize optcost inp (CBiteOpt_init lb ub s0) push))) \<and>
      0 < CurPopPos (own (fst (snd (CBiteOpt_optimize optcost inp (CBiteOpt_init lb ub s0) push))))"
    using b by (intro impI) (elim conjE)
  have C: "deep_inv d \<and> par_num inp \<and> rng_ok rnd \<and> deep_optimize optcost inp rnd d = Some (sc, d') \<longrightarrow>
      deep_inv d' \<and>
      (best_known d \<longrightarrow> dle (getBestCost_deep d') (getBestCost_deep d)) \<and>
      (best_known d \<or> BestOpt d = CurOpt d \<longrightarrow> best_known d')"
    using c by (intro impI) (elim conjE)
  have E: "deep_alloc d0 \<and> rng_ok rnd \<and> deep_init lb ub rnd d0 = Some d \<longrightarrow>
      deep_inv d \<and> BestOpt d = CurOpt d"
    using e by (intro impI) (elim conjE)
  have F: "deep_alloc d0 \<and> inputs_ok init_rnd ins \<and> 0 < attc \<and>
    biteopt_minimize N optcost lb ub x0 minf0 iter M attc stopc f_minp init_rnd ins d0
      = Some (evals, x, minf) \<longrightarrow>
      (\<exists>bs. minimize_bests N optcost lb ub iter M attc stopc f_minp init_rnd ins d0 = Some bs \<and>
            least_of minf bs)"
    using f by (intro impI) (elim conjE)
  show ?thesis by (intro conjI A B C E F)
qed

theorem best_cost_monotone_witness:
  "core_inv core_ex \<and> 0 < CurPopPos (own core_ex) \<and> par_num step_ex \<and>
   dle (BestCost (fst (snd (CBiteOpt_optimize (\<lambda>v. Fin 0) step_ex core_ex (Some core_ex)))))
       (BestCost core_ex) \<and>
   (\<exists>t'. snd (snd (CBiteOpt_optimize (\<lambda>v. Fin 0) step_ex core_ex (Some core_ex))) = Some t' \<and>
         BestCost t' = BestCost core_ex) \<and>
   deep_inv deep_ex2 \<and> best_known deep_ex2 \<and> rng_ok rng_ex \<and>
   (\<exists>sc d'. deep_optimize (\<lambda>v. Fin 0) step_ex rng_ex deep_ex2 = Some (sc, d') \<and>
            dle (getBestCost_deep d') (getBestCost_deep deep_ex2) \<and> best_known d') \<and>
   deep_alloc deep_ex1 \<and> inputs_ok (\<lambda>k. rng_ex) (\<lambda>k i. (step_ex, rng_ex)) \<and>
   (\<exists>d. deep_init [- 10] [10] rng_ex deep_ex1 = Some d \<and> deep_inv d) \<and>
   (\<exists>evals x minf bs.
      biteopt_minimize 1 (\<lambda>v. Fin 0) [- 10] [10] [0] NaN 3 1 2 0 None
        (\<lambda>k. rng_ex) (\<lambda>k i. (step_ex, rng_ex)) deep_ex1 = Some (evals, x, minf) \<and>
      minimize_bests 1 (\<lambda>v. Fin 0) [- 10] [10] 3 1 2 0 None
        (\<lambda>k. rng_ex) (\<lambda>k i. (step_ex, rng_ex)) deep_ex1 = Some bs \<and>
      least_of minf bs)"
proof -
  have ci: "core_inv core_ex" by (rule core_ex_inv)
  have cp: "0 < CurPopPos (own core_ex)" by (simp add: core_ex_def pop_ex2_def)
  have pn: "par_num step_ex" by (simp add: par_num_def step_ex_def)
  have ro: "rng_ok rng_ex" by (simp add: rng_ok_def rng_ex_def)
  have al: "deep_alloc deep_ex1"
    unfolding deep_alloc_def deep_ex1_def using core_inv_alloc[OF ci] by simp
  have io: "inputs_ok (\<lambda>k. rng_ex) (\<lambda>k i. (step_ex, rng_ex))"
    unfolding inputs_ok_def using pn ro by simp
  have o1: "OptCount deep_ex1 = 1" by (simp add: deep_ex1_def)
  have o2: "OptCount deep_ex2 = 2" by (simp add: deep_ex2_def)
  text \<open>the core optimizer, with a push target\<close>
  from best_cost_monotone[of core_ex step_ex "\<lambda>v. Fin 0" "Some core_ex"] ci cp pn
  have A: "dle (BestCost (fst (snd (CBiteOpt_optimize (\<lambda>v. Fin 0) step_ex core_ex (Some core_ex)))))
             (BestCost core_ex)"
    and A2: "\<exists>t'. snd (snd (CBiteOpt_optimize (\<lambda>v. Fin 0) step_ex core_ex (Some core_ex))) = Some t' \<and>
         BestCost t' = BestCost core_ex"
    by simp_all
  text \<open>the ensemble of two\<close>
  from deep_optimize_two[OF o2, of "\<lambda>v. Fin 0" step_ex rng_ex]
  obtain sc d' where st: "deep_optimize (\<lambda>v. Fin 0) step_ex rng_ex deep_ex2 = Some (sc, d')"
    by auto
  from best_cost_monotone[where d = deep_ex2 and inp = step_ex and optcost = "\<lambda>v. Fin 0"
      and rnd = rng_ex and sc = sc and d' = d'] deep_ex2_inv pn ro st
  have B: "dle (getBestCost_deep d') (getBestCost_deep deep_ex2) \<and> best_known d'" by simp
  text \<open>the ensemble of one, from \<open>init\<close>, and the driver\<close>
  let ?di = "deep_ex1\<lparr>Opts := map (CBiteOpt_init [- 10] [10]) (Opts deep_ex1), BestOpt := 0,
                CurOpt := 0, LastOpt := 0, StallCount_deep := 0, PushOpt := 0\<rparr>"
  note i1 = deep_init_single[OF o1, of "[- 10]" "[10]" rng_ex]
  from best_cost_monotone[where ?d0.0 = deep_ex1 and rnd = rng_ex and lb = "[- 10]" and ub = "[10]"
      and d = ?di] al ro i1
  have "deep_inv ?di" by simp
  with i1 have C: "\<exists>d. deep_init [- 10] [10] rng_ex deep_ex1 = Some d \<and> deep_inv d" by simp
  have "\<exists>r. biteopt_minimize 1 (\<lambda>v. Fin 0) [- 10] [10] [0] NaN 3 1 2 0 None
        (\<lambda>k. rng_ex) (\<lambda>k i. (step_ex, rng_ex)) deep_ex1 = Some r"
    unfolding biteopt_minimize_def Let_def by (rule attempts_single[OF o1])
  then obtain evals x minf where
    m: "biteopt_minimize 1 (\<lambda>v. Fin 0) [- 10] [10] [0] NaN 3 1 2 0 None
        (\<lambda>k. rng_ex) (\<lambda>k i. (step_ex, rng_ex)) deep_ex1 = Some (evals, x, minf)"
    by (metis prod_cases3)
  from best_cost_monotone[where ?d0.0 = deep_ex1 and init_rnd = "\<lambda>k. rng_ex"
      and ins = "\<lambda>k i. (step_ex, rng_ex)" and attc = 2 and N = 1 and optcost = "\<lambda>v. Fin 0"
      and lb = "[- 10]" and ub = "[10]" and ?x0.0 = "[0]" and ?minf0.0 = NaN and iter = 3 and M = 1
      and stopc = 0 and f_minp = None and evals = evals and x = x and minf = minf] al io m
  have "\<exists>bs. minimize_bests 1 (\<lambda>v. Fin 0) [- 10] [10] 3 1 2 0 None
        (\<lambda>k. rng_ex) (\<lambda>k i. (step_ex, rng_ex)) deep_ex1 = Some bs \<and> least_of minf bs"
    by simp
  with m have D: "\<exists>evals x minf bs.
      biteopt_minimize 1 (\<lambda>v. Fin 0) [- 10] [10] [0] NaN 3 1 2 0 None
        (\<lambda>k. rng_ex) (\<lambda>k i. (step_ex, rng_ex)) deep_ex1 = Some (evals, x, minf) \<and>
      minimize_bests 1 (\<lambda>v. Fin 0) [- 10] [10] 3 1 2 0 None
        (\<lambda>k. rng_ex) (\<lambda>k i. (step_ex, rng_ex)) deep_ex1 = Some bs \<and>
      least_of minf bs" by blast
  from st B have B': "\<exists>sc d'. deep_optimize (\<lambda>v. Fin 0) step_ex rng_ex deep_ex2 = Some (sc, d') \<and>
            dle (getBestCost_deep d') (getBestCost_deep deep_ex2) \<and> best_known d'" by blast
  show ?thesis
    by (intro conjI ci cp pn A A2 deep_ex2_inv ro B' al io C D)
qed

text \<open>
  Claim C10 as stated fails at the first call. The first call after \<open>init\<close> overwrites the initial best cost \<open>1e300\<close> with the cost of
  the first evaluated vector, whatever it is: with an objective that returns \<open>1e301\<close> the
  reported best cost rises from \<open>1e300\<close> to \<open>1e301\<close>.
\<close>

theorem best_cost_first_call_counterexample:
  "core_alloc core_ex \<and> BestCost (CBiteOpt_init [- 10] [10] core_ex) = Fin c1e300 \<and>
   BestCost (fst (snd (CBiteOpt_optimize (\<lambda>v. Fin (10 ^ 301)) step_ex
                         (CBiteOpt_init [- 10] [10] core_ex) None))) = Fin (10 ^ 301) \<and>
   \<not> dle (Fin (10 ^ 301)) (Fin c1e300)"
proof -
  have al: "core_alloc core_ex" by (rule core_inv_alloc[OF core_ex_inv])
  note i = core_inv_init[OF al, of "[- 10]" "[10]"]
  have pn: "par_num step_ex" by (simp add: par_num_def step_ex_def)
  have sc: "step_cost (\<lambda>v. Fin (10 ^ 301)) step_ex (CBiteOpt_init [- 10] [10] core_ex) = Fin (10 ^ 301)"
    unfolding step_cost_def using i(3) by (simp add: fixCostNaN_cases)
  from step_best(5)[OF i(1) pn i(4), of "\<lambda>v. Fin (10 ^ 301)" None]
  have b: "BestCost (fst (snd (CBiteOpt_optimize (\<lambda>v. Fin (10 ^ 301)) step_ex
                         (CBiteOpt_init [- 10] [10] core_ex) None))) = Fin (10 ^ 301)"
    unfolding sc by simp
  have n: "\<not> dle (Fin (10 ^ 301)) (Fin c1e300)" by (simp add: c1e300_def)
  show ?thesis by (intro conjI al i(2) b n)
qed

end
